theory Spec2Isabelle
  imports Main "HOL-Library.Word" "HOL-Library.Finite_Map"
begin

section \<open>Errors\<close>

text \<open>
  Every fatal path of the program is a value. \<open>Failwith\<close> and \<open>Assert\<close> abort with a
  message; \<open>std::unordered_map::at\<close> and \<open>std::vector::at\<close> throw \<open>std::out_of_range\<close>.
  An unchecked \<open>dag_nodes_[i]\<close> outside the vector is undefined behaviour in C++ and is
  modelled as \<open>IndexOutOfRange\<close> too.
\<close>

datatype error =
    InvalidPLVIndex          \<comment> \<open>\<open>Failwith("Invalid PLV index requested.")\<close>\<close>
  | NonExistentPCSPIndex     \<comment> \<open>\<open>Failwith("Non-existent PCSP index.")\<close>\<close>
  | NoRealDAGNodes           \<comment> \<open>\<open>Assert(taxon_count_ < dag_nodes_.size(), "No real DAG nodes!")\<close>\<close>
  | FailedInsertion          \<comment> \<open>\<open>SafeInsert\<close> on a key that is already present\<close>
  | KeyNotFound              \<comment> \<open>\<open>.at(key)\<close> on a map that has no such key\<close>
  | IndexOutOfRange          \<comment> \<open>a vector access outside \<open>[0, size)\<close>\<close>

type_synonym 'a result = "error + 'a"

definition bind_err :: "'a result \<Rightarrow> ('a \<Rightarrow> 'b result) \<Rightarrow> 'b result" where
  "bind_err r f = (case r of Inl e \<Rightarrow> Inl e | Inr v \<Rightarrow> f v)"

lemma bind_err_Inl [simp]: "bind_err (Inl e) f = Inl e"
  by (simp add: bind_err_def)

lemma bind_err_Inr [simp]: "bind_err (Inr v) f = f v"
  by (simp add: bind_err_def)

lemma bind_err_cong [fundef_cong]:
  "r = r' \<Longrightarrow> (\<And>v. r' = Inr v \<Longrightarrow> f v = f' v) \<Longrightarrow> bind_err r f = bind_err r' f'"
  by (cases r') (simp_all add: bind_err_def)

lemma bind_err_eq_Inr:
  "bind_err r f = Inr y \<longleftrightarrow> (\<exists>v. r = Inr v \<and> f v = Inr y)"
  by (cases r) simp_all

text \<open>A loop that threads a state through its iterations and aborts at the first failure.\<close>

fun fold_err :: "('a \<Rightarrow> 's \<Rightarrow> 's result) \<Rightarrow> 'a list \<Rightarrow> 's \<Rightarrow> 's result" where
  "fold_err f [] s = Inr s"
| "fold_err f (x # xs) s = bind_err (f x s) (fold_err f xs)"

section \<open>The PLV index scheme\<close>

text \<open>
  \<open>enum class PLVType\<close> has the six enumerators of the source's \<open>switch\<close>. The seventh
  constructor stands for every other value of the underlying type, which C++ admits
  through a cast and which reaches the \<open>default\<close> branch.
\<close>

datatype PLVType = P | P_HAT | P_HAT_TILDE | R_HAT | R | R_TILDE | PLV_UNRECOGNIZED

type_synonym size_t = "64 word"

fun GetPLVIndexStatic :: "PLVType \<Rightarrow> size_t \<Rightarrow> size_t \<Rightarrow> size_t result" where
  "GetPLVIndexStatic P node_count src_idx = Inr src_idx"
| "GetPLVIndexStatic P_HAT node_count src_idx = Inr (node_count + src_idx)"
| "GetPLVIndexStatic P_HAT_TILDE node_count src_idx = Inr (2 * node_count + src_idx)"
| "GetPLVIndexStatic R_HAT node_count src_idx = Inr (3 * node_count + src_idx)"
| "GetPLVIndexStatic R node_count src_idx = Inr (4 * node_count + src_idx)"
| "GetPLVIndexStatic R_TILDE node_count src_idx = Inr (5 * node_count + src_idx)"
| "GetPLVIndexStatic PLV_UNRECOGNIZED node_count src_idx = Inl InvalidPLVIndex"

text \<open>The offset table of the specification: P=0, P-hat=1, P-hat-tilde=2, R-hat=3, R=4, R-tilde=5.\<close>

fun kind_offset :: "PLVType \<Rightarrow> nat" where
  "kind_offset P = 0"
| "kind_offset P_HAT = 1"
| "kind_offset P_HAT_TILDE = 2"
| "kind_offset R_HAT = 3"
| "kind_offset R = 4"
| "kind_offset R_TILDE = 5"
| "kind_offset PLV_UNRECOGNIZED = 6"


section \<open>Subsplit bit-vectors\<close>

text \<open>
  Modelled from the spec: the class \<open>Bitset\<close> is declared outside the source files at hand.
  The specification (4.1) gives its operations as pure, total functions over bit-vectors:
  concatenation (\<open>+\<close>), complement (\<open>~\<close>), \<open>rotate\<close> (swap the two clade halves),
  \<open>chunk(i)\<close> (extract clade \<open>i\<close>), \<open>isAny\<close> and \<open>singletonTaxon\<close>.
\<close>

type_synonym Bitset = "bool list"

definition Bitset_zero :: "nat \<Rightarrow> Bitset" where
  "Bitset_zero n = replicate n False"

definition Bitset_set :: "Bitset \<Rightarrow> nat \<Rightarrow> Bitset" where
  "Bitset_set b i = b[i := True]"

definition Bitset_plus :: "Bitset \<Rightarrow> Bitset \<Rightarrow> Bitset" where
  "Bitset_plus a b = a @ b"

definition Bitset_not :: "Bitset \<Rightarrow> Bitset" where
  "Bitset_not b = map Not b"

definition RotateSubsplit :: "Bitset \<Rightarrow> Bitset" where
  "RotateSubsplit b = drop (length b div 2) b @ take (length b div 2) b"

definition SplitChunk :: "Bitset \<Rightarrow> nat \<Rightarrow> Bitset" where
  "SplitChunk b i = take (length b div 2) (drop (i * (length b div 2)) b)"

definition Any :: "Bitset \<Rightarrow> bool" where
  "Any b = (True \<in> set b)"

definition SingletonOption :: "Bitset \<Rightarrow> nat option" where
  "SingletonOption b =
     (case filter (\<lambda>i. b ! i) [0..<length b] of [i] \<Rightarrow> Some i | _ \<Rightarrow> None)"

text \<open>The full root subsplit \<open>rootsplit + ~rootsplit\<close> of the source.\<close>

definition root_subsplit :: "Bitset \<Rightarrow> Bitset" where
  "root_subsplit rootsplit = Bitset_plus rootsplit (Bitset_not rootsplit)"

section \<open>Containers\<close>

text \<open>
  \<open>SafeInsert\<close> is a helper declared outside the source files at hand: it inserts and
  aborts when the key is already present. \<open>map_at\<close> is \<open>std::unordered_map::at\<close>,
  \<open>vector_at\<close> a vector access.
\<close>

definition SafeInsert :: "('k, 'v) fmap \<Rightarrow> 'k \<Rightarrow> 'v \<Rightarrow> ('k, 'v) fmap result" where
  "SafeInsert m k v =
     (case fmlookup m k of None \<Rightarrow> Inr (fmupd k v m) | Some _ \<Rightarrow> Inl FailedInsertion)"

definition SafeInsert_set :: "'k set \<Rightarrow> 'k \<Rightarrow> 'k set result" where
  "SafeInsert_set s k = (if k \<in> s then Inl FailedInsertion else Inr (insert k s))"

definition map_at :: "('k, 'v) fmap \<Rightarrow> 'k \<Rightarrow> 'v result" where
  "map_at m k = (case fmlookup m k of None \<Rightarrow> Inl KeyNotFound | Some v \<Rightarrow> Inr v)"

definition vector_at :: "'a list \<Rightarrow> nat \<Rightarrow> 'a result" where
  "vector_at xs i = (if i < length xs then Inr (xs ! i) else Inl IndexOutOfRange)"

text \<open>
  A loop whose body only pushes onto \<open>operations\<close>: every function of the model that
  pushes operations returns the operations it pushes, in order, and the caller appends
  them. The first failing iteration aborts the loop.
\<close>

fun for_each :: "('a \<Rightarrow> 'b list result) \<Rightarrow> 'a list \<Rightarrow> 'b list result" where
  "for_each f [] = Inr []"
| "for_each f (x # xs) =
     bind_err (f x) (\<lambda>ops. bind_err (for_each f xs) (\<lambda>rest. Inr (ops @ rest)))"

section \<open>DAG nodes and the DAG\<close>

text \<open>
  The members of the source carry a trailing underscore (\<open>dag_nodes_\<close>,
  \<open>gpcsp_indexer_\<close>, ...), which is not an identifier here: the fields below drop it.
\<close>

record GPDAGNode =
  Id :: nat
  bitset :: Bitset
  leafward_sorted :: "nat list"
  leafward_rotated :: "nat list"
  rootward_sorted :: "nat list"
  rootward_rotated :: "nat list"

definition new_GPDAGNode :: "nat \<Rightarrow> Bitset \<Rightarrow> GPDAGNode" where
  "new_GPDAGNode i subsplit =
     \<lparr>Id = i, bitset = subsplit, leafward_sorted = [], leafward_rotated = [],
      rootward_sorted = [], rootward_rotated = []\<rparr>"

definition GetBitset :: "GPDAGNode \<Rightarrow> bool \<Rightarrow> Bitset" where
  "GetBitset node rotated = (if rotated then RotateSubsplit (bitset node) else bitset node)"

record GPDAG =
  taxon_count :: nat
  rootsplit_and_pcsp_count :: nat
  rootsplits :: "Bitset list"
  parent_to_range :: "(Bitset, nat \<times> nat) fmap"
  index_to_child :: "(nat, Bitset) fmap"
  subsplit_to_index :: "(Bitset, nat) fmap"
  dag_nodes :: "GPDAGNode list"
  gpcsp_indexer :: "(Bitset, nat) fmap"
  subsplit_to_range :: "(Bitset, nat \<times> nat) fmap"

definition empty_GPDAG :: GPDAG where
  "empty_GPDAG =
     \<lparr>taxon_count = 0, rootsplit_and_pcsp_count = 0, rootsplits = [],
      parent_to_range = fmempty, index_to_child = fmempty, subsplit_to_index = fmempty,
      dag_nodes = [], gpcsp_indexer = fmempty, subsplit_to_range = fmempty\<rparr>"

definition NodeCount :: "GPDAG \<Rightarrow> nat" where
  "NodeCount dag = length (dag_nodes dag)"

text \<open>
  Modelled from the spec: \<open>GPDAGNode::IsLeaf\<close> and \<open>GPDAGNode::IsRoot\<close> are declared outside
  the source files at hand. The specification (3): a node is a leaf iff it is one of the
  first T ids; a node is a root iff its subsplit equals
  \<open>rootsplit + complement(rootsplit)\<close> for some rootsplit in the sample.
\<close>

definition IsLeaf :: "GPDAG \<Rightarrow> GPDAGNode \<Rightarrow> bool" where
  "IsLeaf dag node = (Id node < taxon_count dag)"

definition IsRoot :: "GPDAG \<Rightarrow> GPDAGNode \<Rightarrow> bool" where
  "IsRoot dag node = (bitset node \<in> root_subsplit ` set (rootsplits dag))"


section \<open>Construction\<close>

text \<open>
  Modelled from the spec: \<open>RootedSBNMaps::RootsplitCounterOf\<close>,
  \<open>RootedSBNMaps::PCSSCounterOf\<close> and \<open>Bitset::ChildSubsplit\<close> are declared outside the
  source files at hand. The tree collection enters \<open>ProcessTrees\<close> only through its taxon
  count, the rootsplits of the rootsplit counter in its iteration order, and, for every
  parent of the PCSS counter in its iteration order, the child subsplits
  \<open>Bitset::ChildSubsplit(parent, child)\<close> of the children of its counter in their iteration
  order (specification 4.2, step 1).
\<close>

record RootedTreeCollection =
  TaxonCount :: nat
  RootsplitCounterOf :: "Bitset list"
  PCSSCounterOf :: "(Bitset \<times> Bitset list) list"

subsection \<open>ProcessTrees\<close>

definition ProcessTrees_child :: "Bitset \<Rightarrow> nat \<times> GPDAG \<Rightarrow> (nat \<times> GPDAG) result" where
  "ProcessTrees_child child_subsplit st =
     (case st of (index, dag) \<Rightarrow>
        bind_err (SafeInsert (index_to_child dag) index child_subsplit)
          (\<lambda>m. Inr (index + 1, dag\<lparr>index_to_child := m\<rparr>)))"

definition ProcessTrees_parent ::
  "Bitset \<times> Bitset list \<Rightarrow> nat \<times> GPDAG \<Rightarrow> (nat \<times> GPDAG) result" where
  "ProcessTrees_parent entry st =
     (case entry of (parent, child_counter) \<Rightarrow> case st of (index, dag) \<Rightarrow>
        bind_err (SafeInsert (parent_to_range dag) parent (index, index + length child_counter))
          (\<lambda>m. fold_err ProcessTrees_child child_counter (index, dag\<lparr>parent_to_range := m\<rparr>)))"

definition ProcessTrees :: "RootedTreeCollection \<Rightarrow> GPDAG \<Rightarrow> GPDAG result" where
  "ProcessTrees tree_collection dag =
     (let dag1 = dag\<lparr>taxon_count := TaxonCount tree_collection\<rparr>;
          dag2 = dag1\<lparr>rootsplits := rootsplits dag1 @ RootsplitCounterOf tree_collection\<rparr>;
          index = length (RootsplitCounterOf tree_collection)
      in bind_err (fold_err ProcessTrees_parent (PCSSCounterOf tree_collection) (index, dag2))
           (\<lambda>(index, dag3). Inr (dag3\<lparr>rootsplit_and_pcsp_count := index\<rparr>)))"

subsection \<open>BuildNodes\<close>

definition CreateAndInsertNode :: "Bitset \<Rightarrow> GPDAG \<Rightarrow> GPDAG result" where
  "CreateAndInsertNode subsplit dag =
     (let i = length (dag_nodes dag)
      in bind_err (SafeInsert (subsplit_to_index dag) subsplit i)
           (\<lambda>m. Inr (dag\<lparr>subsplit_to_index := m,
                           dag_nodes := dag_nodes dag @ [new_GPDAGNode i subsplit]\<rparr>)))"

definition GetChildrenSubsplits :: "GPDAG \<Rightarrow> Bitset \<Rightarrow> bool \<Rightarrow> Bitset list result" where
  "GetChildrenSubsplits dag subsplit include_fake_subsplits =
     (case fmlookup (parent_to_range dag) subsplit of
        Some (start, stop) \<Rightarrow>
          for_each (\<lambda>idx. bind_err (map_at (index_to_child dag) idx)
                             (\<lambda>child_subsplit. Inr [child_subsplit])) [start..<stop]
      | None \<Rightarrow>
          if include_fake_subsplits
          then (if Any (SplitChunk subsplit 0) \<and> SingletonOption (SplitChunk subsplit 1) \<noteq> None
                then Inr [Bitset_plus (Bitset_zero (length subsplit div 2)) (SplitChunk subsplit 1)]
                else Inr [])
          else Inr [])"

function
  BuildNodesDepthFirst ::
    "Bitset \<Rightarrow> Bitset set \<times> GPDAG \<Rightarrow> (Bitset set \<times> GPDAG) result" and
  BuildNodesDepthFirst_children ::
    "Bitset list \<Rightarrow> Bitset set \<times> GPDAG \<Rightarrow> (Bitset set \<times> GPDAG) result"
where
  "BuildNodesDepthFirst subsplit (visited_subsplits, dag) =
     bind_err (GetChildrenSubsplits dag subsplit False) (\<lambda>children_subsplits.
     bind_err (BuildNodesDepthFirst_children children_subsplits
                 (insert subsplit visited_subsplits, dag)) (\<lambda>(visited1, dag1).
     bind_err (GetChildrenSubsplits dag1 (RotateSubsplit subsplit) False) (\<lambda>children_subsplits.
     bind_err (BuildNodesDepthFirst_children children_subsplits (visited1, dag1)) (\<lambda>(visited2, dag2).
     bind_err (CreateAndInsertNode subsplit dag2) (\<lambda>dag3. Inr (visited2, dag3))))))"
| "BuildNodesDepthFirst_children [] st = Inr st"
| "BuildNodesDepthFirst_children (child_subsplit # rest) (visited_subsplits, dag) =
     (if child_subsplit \<in> visited_subsplits
      then BuildNodesDepthFirst_children rest (visited_subsplits, dag)
      else bind_err (BuildNodesDepthFirst child_subsplit (visited_subsplits, dag))
             (BuildNodesDepthFirst_children rest))"
  by pat_completeness auto

lemma for_each_Inr_set:
  assumes "for_each f xs = Inr ys" "y \<in> set ys"
  shows "\<exists>x\<in>set xs. \<exists>zs. f x = Inr zs \<and> y \<in> set zs"
  using assms
proof (induction xs arbitrary: ys)
  case Nil
  then show ?case by simp
next
  case (Cons x xs)
  then show ?case by (auto simp: bind_err_eq_Inr)
qed

lemma finite_fmran' [simp]: "finite (fmran' m)"
proof -
  have "fmran' m \<subseteq> (\<lambda>k. the (fmlookup m k)) ` fmdom' m"
  proof
    fix v assume "v \<in> fmran' m"
    then obtain k where k: "fmlookup m k = Some v" by (auto simp: fmran'_def)
    then have "k \<in> fmdom' m" by (simp add: fmdom'I)
    with k show "v \<in> (\<lambda>k. the (fmlookup m k)) ` fmdom' m" by force
  qed
  then show ?thesis by (rule finite_subset) simp
qed

lemma GetChildrenSubsplits_ran:
  assumes "GetChildrenSubsplits dag subsplit False = Inr cs"
  shows "set cs \<subseteq> fmran' (index_to_child dag)"
proof
  fix c assume c: "c \<in> set cs"
  show "c \<in> fmran' (index_to_child dag)"
  proof (cases "fmlookup (parent_to_range dag) subsplit")
    case None
    with assms c show ?thesis by (simp add: GetChildrenSubsplits_def)
  next
    case (Some r)
    obtain start stop where r: "r = (start, stop)" by (cases r)
    from assms Some r have "for_each (\<lambda>idx. bind_err (map_at (index_to_child dag) idx)
                             (\<lambda>child_subsplit. Inr [child_subsplit])) [start..<stop] = Inr cs"
      by (simp add: GetChildrenSubsplits_def)
    from for_each_Inr_set[OF this c] obtain idx zs where
      "bind_err (map_at (index_to_child dag) idx) (\<lambda>child_subsplit. Inr [child_subsplit]) = Inr zs" "c \<in> set zs"
      by blast
    then have "fmlookup (index_to_child dag) idx = Some c"
      by (auto simp: bind_err_eq_Inr map_at_def split: option.splits)
    then show ?thesis by (rule fmran'I)
  qed
qed

lemma CreateAndInsertNode_frame:
  "CreateAndInsertNode s dag = Inr dag' \<Longrightarrow>
     index_to_child dag' = index_to_child dag \<and> parent_to_range dag' = parent_to_range dag"
  by (auto simp: CreateAndInsertNode_def Let_def bind_err_eq_Inr)

lemma BuildNodesDepthFirst_frame_dom:
  "BuildNodesDepthFirst_BuildNodesDepthFirst_children_dom (Inl (subsplit, st)) \<Longrightarrow>
     BuildNodesDepthFirst subsplit st = Inr st' \<Longrightarrow>
        fst st \<subseteq> fst st' \<and> index_to_child (snd st') = index_to_child (snd st)
        \<and> parent_to_range (snd st') = parent_to_range (snd st)"
  "BuildNodesDepthFirst_BuildNodesDepthFirst_children_dom (Inr (cs, st2)) \<Longrightarrow>
     BuildNodesDepthFirst_children cs st2 = Inr st2' \<Longrightarrow>
        fst st2 \<subseteq> fst st2' \<and> index_to_child (snd st2') = index_to_child (snd st2)
        \<and> parent_to_range (snd st2') = parent_to_range (snd st2)"
proof (induct subsplit st and cs st2 arbitrary: st' and st2'
    rule: BuildNodesDepthFirst_BuildNodesDepthFirst_children.pinduct)
  case (1 subsplit visited_subsplits dag)
  from 1(4) obtain cs1 st1 cs2 st2 dag3 where
    c1: "GetChildrenSubsplits dag subsplit False = Inr cs1" and
    l1: "BuildNodesDepthFirst_children cs1 (insert subsplit visited_subsplits, dag) = Inr st1" and
    c2: "GetChildrenSubsplits (snd st1) (RotateSubsplit subsplit) False = Inr cs2" and
    l2: "BuildNodesDepthFirst_children cs2 st1 = Inr st2" and
    cr: "CreateAndInsertNode subsplit (snd st2) = Inr dag3" and v: "st' = (fst st2, dag3)"
    by (auto simp: BuildNodesDepthFirst.psimps[OF 1(1)] bind_err_eq_Inr split: prod.splits)
  note a = 1(2)[OF c1 l1]
  have "(fst st1, snd st1) = st1" by simp
  note b = 1(3)[OF c1 l1 this c2, simplified, OF l2]
  from a b CreateAndInsertNode_frame[OF cr] v show ?case by auto
next
  case (2 st)
  then show ?case by (simp add: BuildNodesDepthFirst_children.psimps)
next
  case (3 child_subsplit rest visited_subsplits dag)
  show ?case
  proof (cases "child_subsplit \<in> visited_subsplits")
    case True
    with 3(2)[OF True] 3(5) show ?thesis
      by (simp add: BuildNodesDepthFirst_children.psimps(2)[OF 3(1)])
  next
    case False
    with 3(5) obtain v where
      d1: "BuildNodesDepthFirst child_subsplit (visited_subsplits, dag) = Inr v" and
      d2: "BuildNodesDepthFirst_children rest v = Inr st2'"
      by (auto simp: BuildNodesDepthFirst_children.psimps(2)[OF 3(1)] bind_err_eq_Inr)
    from 3(3)[OF False d1] 3(4)[OF False d1 d2] show ?thesis by auto
  qed
qed

termination BuildNodesDepthFirst
proof (relation "inv_image (less_than <*lex*> less_than <*lex*> less_than)
    (\<lambda>x. case x of
       Inl (subsplit, V, dag) \<Rightarrow> (card (fmran' (index_to_child dag) - insert subsplit V), 1::nat, 0::nat)
     | Inr (cs, V, dag) \<Rightarrow> (card ((fmran' (index_to_child dag) \<union> set cs) - V), 0, length cs))", goal_cases)
  case 1
  then show ?case by (intro wf_inv_image wf_lex_prod wf_less_than)
next
  case (2 subsplit V dag v)
  from GetChildrenSubsplits_ran[OF 2] have "fmran' (index_to_child dag) \<union> set v = fmran' (index_to_child dag)"
    by auto
  then show ?case by simp
next
  case (3 subsplit V dag v va x y vb)
  from BuildNodesDepthFirst_frame_dom(2)[OF 3(5) 3(2)] 3(3)
  have f: "insert subsplit V \<subseteq> x" "index_to_child y = index_to_child dag"
    by auto
  from GetChildrenSubsplits_ran[OF 3(4)] f have e: "fmran' (index_to_child y) \<union> set vb = fmran' (index_to_child dag)"
    by auto
  have "card (fmran' (index_to_child dag) - x) \<le> card (fmran' (index_to_child dag) - insert subsplit V)"
    using f(1) by (intro card_mono) auto
  then show ?case using e by auto
next
  case (4 child_subsplit rest V dag)
  have "card (fmran' (index_to_child dag) \<union> set rest - V) \<le> card (fmran' (index_to_child dag) \<union> set (child_subsplit # rest) - V)"
    by (intro card_mono) auto
  then show ?case by auto
next
  case (5 child_subsplit rest V dag)
  have "card (fmran' (index_to_child dag) - insert child_subsplit V)
      < card (fmran' (index_to_child dag) \<union> set (child_subsplit # rest) - V)"
    using 5 by (intro psubset_card_mono) auto
  then show ?case by auto
next
  case (6 child_subsplit rest V dag v)
  obtain V' dag' where v: "v = (V', dag')" by (cases v)
  from BuildNodesDepthFirst_frame_dom(1)[OF 6(3) 6(2)] v
  have f: "V \<subseteq> V'" "index_to_child dag' = index_to_child dag" by auto
  have "card (fmran' (index_to_child dag) \<union> set rest - V') \<le> card (fmran' (index_to_child dag) \<union> set (child_subsplit # rest) - V)"
    using f(1) by (intro card_mono) auto
  then show ?case using v f by auto
qed

declare BuildNodesDepthFirst.simps [simp del]


definition BuildNodes :: "GPDAG \<Rightarrow> GPDAG result" where
  "BuildNodes dag =
     bind_err
       (fold_err
          (\<lambda>taxon_idx dag.
             let zero = Bitset_zero (taxon_count dag);
                 fake = Bitset_set (Bitset_zero (taxon_count dag)) taxon_idx;
                 fake_subsplit = Bitset_plus zero fake
             in CreateAndInsertNode fake_subsplit dag)
          [0..<taxon_count dag] dag)
       (\<lambda>dag1.
          bind_err
            (fold_err (\<lambda>rootsplit. BuildNodesDepthFirst (root_subsplit rootsplit))
               (rootsplits dag1) ({}, dag1))
            (\<lambda>(visited_subsplits, dag2). Inr dag2))"

subsection \<open>BuildEdges\<close>

text \<open>
  Modelled from the spec: the four \<open>Add...\<close> members of \<open>GPDAGNode\<close> are declared outside
  the source files at hand; each appends a neighbour id to one adjacency list. The nodes
  are shared objects addressed through \<open>dag_nodes_\<close>: mutating the node at position \<open>i\<close>
  is an update of the store at \<open>i\<close>.
\<close>

definition AddLeafwardSorted :: "nat \<Rightarrow> GPDAGNode \<Rightarrow> GPDAGNode" where
  "AddLeafwardSorted node_id node = node\<lparr>leafward_sorted := leafward_sorted node @ [node_id]\<rparr>"

definition AddLeafwardRotated :: "nat \<Rightarrow> GPDAGNode \<Rightarrow> GPDAGNode" where
  "AddLeafwardRotated node_id node = node\<lparr>leafward_rotated := leafward_rotated node @ [node_id]\<rparr>"

definition AddRootwardSorted :: "nat \<Rightarrow> GPDAGNode \<Rightarrow> GPDAGNode" where
  "AddRootwardSorted node_id node = node\<lparr>rootward_sorted := rootward_sorted node @ [node_id]\<rparr>"

definition AddRootwardRotated :: "nat \<Rightarrow> GPDAGNode \<Rightarrow> GPDAGNode" where
  "AddRootwardRotated node_id node = node\<lparr>rootward_rotated := rootward_rotated node @ [node_id]\<rparr>"

definition update_node :: "nat \<Rightarrow> (GPDAGNode \<Rightarrow> GPDAGNode) \<Rightarrow> GPDAG \<Rightarrow> GPDAG" where
  "update_node i f dag = dag\<lparr>dag_nodes := (dag_nodes dag)[i := f (dag_nodes dag ! i)]\<rparr>"

definition ConnectNodes_child :: "nat \<Rightarrow> bool \<Rightarrow> Bitset \<Rightarrow> GPDAG \<Rightarrow> GPDAG result" where
  "ConnectNodes_child idx rotated child_subsplit dag =
     bind_err (map_at (subsplit_to_index dag) child_subsplit) (\<lambda>child_idx.
     bind_err (vector_at (dag_nodes dag) child_idx) (\<lambda>child_node.
       if rotated
       then (let dag1 = update_node idx (AddLeafwardRotated (Id child_node)) dag
             in Inr (update_node child_idx (AddRootwardRotated (Id (dag_nodes dag1 ! idx))) dag1))
       else (let dag1 = update_node idx (AddLeafwardSorted (Id child_node)) dag
             in Inr (update_node child_idx (AddRootwardSorted (Id (dag_nodes dag1 ! idx))) dag1))))"

definition ConnectNodes :: "nat \<Rightarrow> bool \<Rightarrow> GPDAG \<Rightarrow> GPDAG result" where
  "ConnectNodes idx rotated dag =
     bind_err (vector_at (dag_nodes dag) idx) (\<lambda>node.
     bind_err (GetChildrenSubsplits dag (GetBitset node rotated) True) (\<lambda>children.
       fold_err (ConnectNodes_child idx rotated) children dag))"

definition BuildEdges :: "GPDAG \<Rightarrow> GPDAG result" where
  "BuildEdges dag =
     fold_err (\<lambda>i dag. bind_err (ConnectNodes i False dag) (ConnectNodes i True))
       [taxon_count dag..<length (dag_nodes dag)] dag"

subsection \<open>BuildPCSPIndexer\<close>

definition IterateOverRealNodes ::
  "GPDAG \<Rightarrow> (GPDAGNode \<Rightarrow> 's \<Rightarrow> 's result) \<Rightarrow> 's \<Rightarrow> 's result" where
  "IterateOverRealNodes dag f s =
     (if taxon_count dag < length (dag_nodes dag)
      then fold_err f (drop (taxon_count dag) (dag_nodes dag)) s
      else Inl NoRealDAGNodes)"

definition BuildPCSPIndexer_rootsplit :: "Bitset \<Rightarrow> nat \<times> GPDAG \<Rightarrow> (nat \<times> GPDAG) result" where
  "BuildPCSPIndexer_rootsplit rootsplit st =
     (case st of (idx, dag) \<Rightarrow>
        bind_err (SafeInsert (gpcsp_indexer dag) (root_subsplit rootsplit) idx)
          (\<lambda>m. Inr (idx + 1, dag\<lparr>gpcsp_indexer := m\<rparr>)))"

definition BuildPCSPIndexer_child ::
  "Bitset \<Rightarrow> nat \<Rightarrow> nat \<times> GPDAG \<Rightarrow> (nat \<times> GPDAG) result" where
  "BuildPCSPIndexer_child parent_bitset child_id st =
     (case st of (idx, dag) \<Rightarrow>
        bind_err (vector_at (dag_nodes dag) child_id) (\<lambda>child.
        bind_err (SafeInsert (gpcsp_indexer dag) (Bitset_plus parent_bitset (bitset child)) idx)
          (\<lambda>m. Inr (idx + 1, dag\<lparr>gpcsp_indexer := m\<rparr>))))"

text \<open>
  The body of the lambda of \<open>BuildPCSPIndexer\<close> runs the same block twice: on the node's
  bitset with its sorted children, then on the rotated bitset with its rotated children.
\<close>

definition BuildPCSPIndexer_block ::
  "Bitset \<Rightarrow> nat list \<Rightarrow> nat \<times> GPDAG \<Rightarrow> (nat \<times> GPDAG) result" where
  "BuildPCSPIndexer_block parent_bitset children st =
     (case st of (idx, dag) \<Rightarrow>
        let child_count = length children
        in if child_count > 0
           then bind_err (SafeInsert (subsplit_to_range dag) parent_bitset (idx, idx + child_count))
                  (\<lambda>m. fold_err (BuildPCSPIndexer_child parent_bitset) children
                          (idx, dag\<lparr>subsplit_to_range := m\<rparr>))
           else Inr (idx, dag))"

definition BuildPCSPIndexer_node :: "GPDAGNode \<Rightarrow> nat \<times> GPDAG \<Rightarrow> (nat \<times> GPDAG) result" where
  "BuildPCSPIndexer_node node st =
     bind_err (BuildPCSPIndexer_block (bitset node) (leafward_sorted node) st)
       (BuildPCSPIndexer_block (RotateSubsplit (bitset node)) (leafward_rotated node))"

definition BuildPCSPIndexer :: "GPDAG \<Rightarrow> GPDAG result" where
  "BuildPCSPIndexer dag =
     bind_err (fold_err BuildPCSPIndexer_rootsplit (rootsplits dag) (0, dag)) (\<lambda>st.
     bind_err (IterateOverRealNodes (snd st) BuildPCSPIndexer_node st) (\<lambda>(idx, dag1).
       Inr dag1))"

subsection \<open>The constructor\<close>

definition GPDAG_of :: "RootedTreeCollection \<Rightarrow> GPDAG result" where
  "GPDAG_of tree_collection =
     bind_err (ProcessTrees tree_collection empty_GPDAG) (\<lambda>dag1.
     bind_err (BuildNodes dag1) (\<lambda>dag2.
     bind_err (BuildEdges dag2) BuildPCSPIndexer))"


section \<open>Operations\<close>

text \<open>
  Modelled from the spec: the operation records of namespace \<open>GPOperations\<close> are declared
  outside the source files at hand. The specification (4.5) lists the kinds; the fields
  are in the order of the aggregate initialisers of the source. \<open>SetToStationaryDistribution\<close>
  is written with a buffer alone in \<open>SetLeafwardZero\<close> and with a buffer and a rootsplit
  index in \<open>SetRhatToStationary\<close>: \<open>SetToStationaryDistribution(buf[, rootsplitIdx])\<close>.
\<close>

datatype GPOperation =
    Zero nat
  | Multiply nat nat nat
  | EvolvePLVWeightedBySBNParameter nat nat nat
  | Likelihood nat nat nat
  | IncrementMarginalLikelihood nat nat nat
  | OptimizeBranchLength nat nat nat
  | SetToStationaryDistribution nat "nat option"
  | UpdateSBNProbabilities nat nat

type_synonym GPOperationVector = "GPOperation list"

text \<open>
  \<open>GetPLVIndex\<close> passes \<open>dag_nodes_.size()\<close> and the node id to \<open>GetPLVIndexStatic\<close>; the
  fields of the operations hold the value of the resulting \<open>size_t\<close>.
\<close>

definition GetPLVIndex :: "GPDAG \<Rightarrow> PLVType \<Rightarrow> nat \<Rightarrow> nat result" where
  "GetPLVIndex dag plv_type src_idx =
     bind_err (GetPLVIndexStatic plv_type (of_nat (length (dag_nodes dag))) (of_nat src_idx))
       (\<lambda>w. Inr (unat w))"

section \<open>Operation-vector generators\<close>

definition MarginalLikelihood :: "GPDAG \<Rightarrow> GPOperationVector result" where
  "MarginalLikelihood dag =
     for_each (\<lambda>rootsplit_idx.
         let rootsplit = rootsplits dag ! rootsplit_idx
         in bind_err (map_at (subsplit_to_index dag) (root_subsplit rootsplit)) (\<lambda>root_idx.
            bind_err (GetPLVIndex dag R_HAT root_idx) (\<lambda>r_hat.
            bind_err (GetPLVIndex dag P root_idx) (\<lambda>p.
              Inr [IncrementMarginalLikelihood r_hat rootsplit_idx p]))))
       [0..<length (rootsplits dag)]"

definition ComputeLikelihoods_child ::
  "GPDAG \<Rightarrow> GPDAGNode \<Rightarrow> bool \<Rightarrow> nat \<Rightarrow> GPOperationVector result" where
  "ComputeLikelihoods_child dag node rotated child_idx =
     bind_err (vector_at (dag_nodes dag) child_idx) (\<lambda>child_node.
     bind_err (map_at (gpcsp_indexer dag)
                 (Bitset_plus (GetBitset node rotated) (bitset child_node))) (\<lambda>gpcsp_idx.
     bind_err (GetPLVIndex dag (if rotated then R_TILDE else R) (Id node)) (\<lambda>r.
     bind_err (GetPLVIndex dag P (Id child_node)) (\<lambda>p.
       Inr [Likelihood gpcsp_idx r p]))))"

definition ComputeLikelihoods :: "GPDAG \<Rightarrow> GPOperationVector result" where
  "ComputeLikelihoods dag =
     bind_err
       (IterateOverRealNodes dag
          (\<lambda>node operations.
             bind_err (for_each (ComputeLikelihoods_child dag node False) (leafward_sorted node))
               (\<lambda>ops1.
             bind_err (for_each (ComputeLikelihoods_child dag node True) (leafward_rotated node))
               (\<lambda>ops2. Inr (operations @ ops1 @ ops2))))
          [])
       (\<lambda>operations.
          bind_err (MarginalLikelihood dag) (\<lambda>marginal_likelihood_operations.
            Inr (operations @ marginal_likelihood_operations)))"

definition SetRhatToStationary :: "GPDAG \<Rightarrow> GPOperationVector result" where
  "SetRhatToStationary dag =
     for_each (\<lambda>rootsplit_idx.
         let rootsplit = rootsplits dag ! rootsplit_idx
         in bind_err (map_at (subsplit_to_index dag) (root_subsplit rootsplit)) (\<lambda>root_idx.
            bind_err (GetPLVIndex dag R_HAT root_idx) (\<lambda>r_hat.
              Inr [SetToStationaryDistribution r_hat (Some rootsplit_idx)])))
       [0..<length (rootsplits dag)]"

definition SetRootwardZero :: "GPDAG \<Rightarrow> GPOperationVector result" where
  "SetRootwardZero dag =
     (let node_count = length (dag_nodes dag)
      in for_each (\<lambda>i.
           bind_err (GetPLVIndex dag P i) (\<lambda>p.
           bind_err (GetPLVIndex dag P_HAT i) (\<lambda>p_hat.
           bind_err (GetPLVIndex dag P_HAT_TILDE i) (\<lambda>p_hat_tilde.
             Inr [Zero p, Zero p_hat, Zero p_hat_tilde]))))
         [taxon_count dag..<node_count])"

definition SetLeafwardZero :: "GPDAG \<Rightarrow> GPOperationVector result" where
  "SetLeafwardZero dag =
     (let node_count = length (dag_nodes dag)
      in bind_err
           (for_each (\<lambda>i.
              bind_err (GetPLVIndex dag R_HAT i) (\<lambda>r_hat.
              bind_err (GetPLVIndex dag R i) (\<lambda>r.
              bind_err (GetPLVIndex dag R_TILDE i) (\<lambda>r_tilde.
                Inr [Zero r_hat, Zero r, Zero r_tilde]))))
            [0..<node_count])
           (\<lambda>ops1.
         bind_err
           (for_each (\<lambda>rootsplit.
              bind_err (map_at (subsplit_to_index dag) (root_subsplit rootsplit)) (\<lambda>root_idx.
              bind_err (GetPLVIndex dag R_HAT root_idx) (\<lambda>r_hat.
                Inr [SetToStationaryDistribution r_hat None])))
            (rootsplits dag))
           (\<lambda>ops2. Inr (ops1 @ ops2))))"

subsection \<open>Rootward and leafward passes\<close>

definition AddRootwardWeightedSumAccumulateOperations ::
  "GPDAG \<Rightarrow> GPDAGNode \<Rightarrow> bool \<Rightarrow> GPOperationVector result" where
  "AddRootwardWeightedSumAccumulateOperations dag node rotated =
     (let child_idxs = (if rotated then leafward_rotated node else leafward_sorted node);
          plv_type = (if rotated then P_HAT_TILDE else P_HAT);
          parent_subsplit = GetBitset node rotated
      in for_each (\<lambda>child_idx.
           bind_err (vector_at (dag_nodes dag) child_idx) (\<lambda>child_node.
             let child_subsplit = bitset child_node;
                 pcsp = Bitset_plus parent_subsplit child_subsplit
             in if fmlookup (gpcsp_indexer dag) pcsp = None then Inl NonExistentPCSPIndex
                else bind_err (map_at (gpcsp_indexer dag) pcsp) (\<lambda>gpcsp_idx.
                     bind_err (GetPLVIndex dag plv_type (Id node)) (\<lambda>dest.
                     bind_err (GetPLVIndex dag P child_idx) (\<lambda>src.
                       Inr [EvolvePLVWeightedBySBNParameter dest gpcsp_idx src])))))
         child_idxs)"

definition AddLeafwardWeightedSumAccumulateOperations ::
  "GPDAG \<Rightarrow> GPDAGNode \<Rightarrow> GPOperationVector result" where
  "AddLeafwardWeightedSumAccumulateOperations dag node =
     (let subsplit = bitset node
      in bind_err
           (for_each (\<lambda>parent_idx.
              bind_err (vector_at (dag_nodes dag) parent_idx) (\<lambda>parent_node.
                let parent_subsplit = bitset parent_node
                in bind_err (map_at (gpcsp_indexer dag) (Bitset_plus parent_subsplit subsplit))
                     (\<lambda>gpcsp_idx.
                   bind_err (GetPLVIndex dag R_HAT (Id node)) (\<lambda>dest.
                   bind_err (GetPLVIndex dag R (Id parent_node)) (\<lambda>src.
                     Inr [EvolvePLVWeightedBySBNParameter dest gpcsp_idx src])))))
            (rootward_sorted node))
           (\<lambda>ops1.
         bind_err
           (for_each (\<lambda>parent_idx.
              bind_err (vector_at (dag_nodes dag) parent_idx) (\<lambda>parent_node.
                let parent_subsplit = RotateSubsplit (bitset parent_node)
                in bind_err (map_at (gpcsp_indexer dag) (Bitset_plus parent_subsplit subsplit))
                     (\<lambda>gpcsp_idx.
                   bind_err (GetPLVIndex dag R_HAT (Id node)) (\<lambda>dest.
                   bind_err (GetPLVIndex dag R_TILDE (Id parent_node)) (\<lambda>src.
                     Inr [EvolvePLVWeightedBySBNParameter dest gpcsp_idx src])))))
            (rootward_rotated node))
           (\<lambda>ops2. Inr (ops1 @ ops2))))"

text \<open>
  The guard \<open>param_range.second - param_range.first > 1\<close> subtracts two \<open>size_t\<close> values:
  the difference wraps around when the second is the smaller one.
\<close>

definition OptimizeSBNParameters :: "GPDAG \<Rightarrow> Bitset \<Rightarrow> GPOperationVector result" where
  "OptimizeSBNParameters dag subsplit =
     (case fmlookup (subsplit_to_range dag) subsplit of
        Some param_range \<Rightarrow>
          if (of_nat (snd param_range) - of_nat (fst param_range) :: size_t) > 1
          then Inr [UpdateSBNProbabilities (fst param_range) (snd param_range)]
          else Inr []
      | None \<Rightarrow> Inr [])"

definition RootwardPass_order :: "GPDAG \<Rightarrow> nat list \<Rightarrow> GPOperationVector result" where
  "RootwardPass_order dag visit_order =
     for_each (\<lambda>node_idx.
         bind_err (vector_at (dag_nodes dag) node_idx) (\<lambda>node.
           if IsLeaf dag node then Inr []
           else bind_err (AddRootwardWeightedSumAccumulateOperations dag node False) (\<lambda>ops1.
                bind_err (AddRootwardWeightedSumAccumulateOperations dag node True) (\<lambda>ops2.
                bind_err (GetPLVIndex dag P_HAT node_idx) (\<lambda>p_hat.
                bind_err (GetPLVIndex dag P_HAT_TILDE node_idx) (\<lambda>p_hat_tilde.
                  Inr (ops1 @ ops2 @ [Multiply node_idx p_hat p_hat_tilde])))))))
       visit_order"

definition LeafwardPass_order :: "GPDAG \<Rightarrow> nat list \<Rightarrow> GPOperationVector result" where
  "LeafwardPass_order dag visit_order =
     for_each (\<lambda>node_idx.
         bind_err (vector_at (dag_nodes dag) node_idx) (\<lambda>node.
         bind_err (AddLeafwardWeightedSumAccumulateOperations dag node) (\<lambda>ops1.
         bind_err (GetPLVIndex dag R node_idx) (\<lambda>r.
         bind_err (GetPLVIndex dag R_HAT node_idx) (\<lambda>r_hat.
         bind_err (GetPLVIndex dag P_HAT_TILDE node_idx) (\<lambda>p_hat_tilde.
         bind_err (GetPLVIndex dag R_TILDE node_idx) (\<lambda>r_tilde.
         bind_err (GetPLVIndex dag P_HAT node_idx) (\<lambda>p_hat.
           Inr (ops1 @ [Multiply r r_hat p_hat_tilde, Multiply r_tilde r_hat p_hat])))))))))
       visit_order"

subsection \<open>Traversal orders\<close>

text \<open>
  Every id a traversal can meet: the positions of the vector and the entries of the
  adjacency lists. It is the finite universe the visited sets grow in.
\<close>

definition neighbor_ids :: "GPDAGNode \<Rightarrow> nat set" where
  "neighbor_ids node =
     set (leafward_sorted node) \<union> set (leafward_rotated node) \<union>
     set (rootward_sorted node) \<union> set (rootward_rotated node)"

definition node_universe :: "GPDAGNode list \<Rightarrow> nat set" where
  "node_universe nodes = {0..<length nodes} \<union> (\<Union>node\<in>set nodes. neighbor_ids node)"

lemma finite_node_universe [simp]: "finite (node_universe nodes)"
  by (simp add: node_universe_def neighbor_ids_def)

lemma vector_at_neighbors:
  assumes "vector_at nodes i = Inr node"
  shows "neighbor_ids node \<subseteq> node_universe nodes"
proof -
  from assms have "node \<in> set nodes"
    by (auto simp: vector_at_def split: if_splits)
  then show ?thesis by (auto simp: node_universe_def)
qed

function
  RootwardDepthFirst ::
    "nat \<Rightarrow> GPDAGNode list \<Rightarrow> nat list \<times> nat set \<Rightarrow> (nat list \<times> nat set) result" and
  RootwardDepthFirst_neighbors ::
    "nat list \<Rightarrow> GPDAGNode list \<Rightarrow> nat list \<times> nat set \<Rightarrow> (nat list \<times> nat set) result"
where
  "RootwardDepthFirst i nodes (visit_order, visited_nodes) =
     bind_err (SafeInsert_set visited_nodes i) (\<lambda>visited1.
     bind_err (vector_at nodes i) (\<lambda>node.
     bind_err (RootwardDepthFirst_neighbors (rootward_sorted node) nodes
                 (visit_order, visited1)) (\<lambda>st2.
     bind_err (RootwardDepthFirst_neighbors (rootward_rotated node) nodes st2)
       (\<lambda>(visit_order3, visited3). Inr (visit_order3 @ [i], visited3)))))"
| "RootwardDepthFirst_neighbors [] nodes st = Inr st"
| "RootwardDepthFirst_neighbors (child_id # rest) nodes (visit_order, visited_nodes) =
     (if child_id \<in> visited_nodes
      then RootwardDepthFirst_neighbors rest nodes (visit_order, visited_nodes)
      else bind_err (RootwardDepthFirst child_id nodes (visit_order, visited_nodes))
             (RootwardDepthFirst_neighbors rest nodes))"
  by pat_completeness auto

lemma RootwardDepthFirst_visited_dom:
  "RootwardDepthFirst_RootwardDepthFirst_neighbors_dom (Inl (i, nodes, st)) \<Longrightarrow>
     RootwardDepthFirst i nodes st = Inr st' \<Longrightarrow> insert i (snd st) \<subseteq> snd st'"
  "RootwardDepthFirst_RootwardDepthFirst_neighbors_dom (Inr (cs, nodes2, st2)) \<Longrightarrow>
     RootwardDepthFirst_neighbors cs nodes2 st2 = Inr st2' \<Longrightarrow> snd st2 \<subseteq> snd st2'"
proof (induct i nodes st and cs nodes2 st2 arbitrary: st' and st2'
    rule: RootwardDepthFirst_RootwardDepthFirst_neighbors.pinduct)
  case (1 i nodes visit_order visited_nodes)
  from 1(4) obtain node st2 st3 where
    ins: "i \<notin> visited_nodes" and
    nd: "vector_at nodes i = Inr node" and
    l1: "RootwardDepthFirst_neighbors (rootward_sorted node) nodes
           (visit_order, insert i visited_nodes) = Inr st2" and
    l2: "RootwardDepthFirst_neighbors (rootward_rotated node) nodes st2 = Inr st3" and
    r: "st' = (fst st3 @ [i], snd st3)"
    by (auto simp: RootwardDepthFirst.psimps[OF 1(1)] bind_err_eq_Inr SafeInsert_set_def
        split: if_splits prod.splits)
  have s: "SafeInsert_set visited_nodes i = Inr (insert i visited_nodes)"
    using ins by (simp add: SafeInsert_set_def)
  from 1(2)[OF s nd l1] 1(3)[OF s nd l1 l2] r show ?case by auto
next
  case (2 nodes st)
  then show ?case by (simp add: RootwardDepthFirst_neighbors.psimps)
next
  case (3 child_id rest nodes visit_order visited_nodes)
  show ?case
  proof (cases "child_id \<in> visited_nodes")
    case True
    with 3(2)[OF True] 3(5) show ?thesis
      by (simp add: RootwardDepthFirst_neighbors.psimps(2)[OF 3(1)])
  next
    case False
    with 3(5) obtain v where
      d1: "RootwardDepthFirst child_id nodes (visit_order, visited_nodes) = Inr v" and
      d2: "RootwardDepthFirst_neighbors rest nodes v = Inr st2'"
      by (auto simp: RootwardDepthFirst_neighbors.psimps(2)[OF 3(1)] bind_err_eq_Inr)
    from 3(3)[OF False d1] 3(4)[OF False d1 d2] show ?thesis by auto
  qed
qed

termination RootwardDepthFirst
proof (relation "inv_image (less_than <*lex*> less_than <*lex*> less_than)
    (\<lambda>x. case x of
       Inl (i, nodes, order, V) \<Rightarrow> (card (node_universe nodes - insert i V), 1::nat, 0::nat)
     | Inr (cs, nodes, order, V) \<Rightarrow> (card ((node_universe nodes \<union> set cs) - V), 0, length cs))",
    goal_cases)
  case 1
  then show ?case by (intro wf_inv_image wf_lex_prod wf_less_than)
next
  case (2 i nodes visit_order V visited1 node)
  from vector_at_neighbors[OF 2(2)]
  have "node_universe nodes \<union> set (rootward_sorted node) = node_universe nodes"
    by (auto simp: neighbor_ids_def)
  moreover from 2(1) have "visited1 = insert i V"
    by (auto simp: SafeInsert_set_def split: if_splits)
  ultimately show ?case by simp
next
  case (3 i nodes visit_order V visited1 node st2)
  from vector_at_neighbors[OF 3(2)]
  have e: "node_universe nodes \<union> set (rootward_rotated node) = node_universe nodes"
    by (auto simp: neighbor_ids_def)
  from 3(1) have v1: "visited1 = insert i V"
    by (auto simp: SafeInsert_set_def split: if_splits)
  from RootwardDepthFirst_visited_dom(2)[OF 3(4) 3(3)] v1 have "insert i V \<subseteq> snd st2"
    by simp
  then have "card (node_universe nodes - snd st2) \<le> card (node_universe nodes - insert i V)"
    by (intro card_mono) auto
  then show ?case using e by (cases st2) auto
next
  case (4 child_id rest nodes visit_order V)
  have "card (node_universe nodes \<union> set rest - V)
      \<le> card (node_universe nodes \<union> set (child_id # rest) - V)"
    by (intro card_mono) auto
  then show ?case by auto
next
  case (5 child_id rest nodes visit_order V)
  have "card (node_universe nodes - insert child_id V)
      < card (node_universe nodes \<union> set (child_id # rest) - V)"
    using 5 by (intro psubset_card_mono) auto
  then show ?case by auto
next
  case (6 child_id rest nodes visit_order V v)
  from RootwardDepthFirst_visited_dom(1)[OF 6(3) 6(2)] have f: "V \<subseteq> snd v" by simp
  have "card (node_universe nodes \<union> set rest - snd v)
      \<le> card (node_universe nodes \<union> set (child_id # rest) - V)"
    using f by (intro card_mono) auto
  then show ?case by (cases v) auto
qed

declare RootwardDepthFirst.simps [simp del]

function
  LeafwardDepthFirst ::
    "nat \<Rightarrow> GPDAGNode list \<Rightarrow> nat list \<times> nat set \<Rightarrow> (nat list \<times> nat set) result" and
  LeafwardDepthFirst_neighbors ::
    "nat list \<Rightarrow> GPDAGNode list \<Rightarrow> nat list \<times> nat set \<Rightarrow> (nat list \<times> nat set) result"
where
  "LeafwardDepthFirst i nodes (visit_order, visited_nodes) =
     bind_err (SafeInsert_set visited_nodes i) (\<lambda>visited1.
     bind_err (vector_at nodes i) (\<lambda>node.
     bind_err (LeafwardDepthFirst_neighbors (leafward_sorted node) nodes
                 (visit_order, visited1)) (\<lambda>st2.
     bind_err (LeafwardDepthFirst_neighbors (leafward_rotated node) nodes st2)
       (\<lambda>(visit_order3, visited3). Inr (visit_order3 @ [i], visited3)))))"
| "LeafwardDepthFirst_neighbors [] nodes st = Inr st"
| "LeafwardDepthFirst_neighbors (child_id # rest) nodes (visit_order, visited_nodes) =
     (if child_id \<in> visited_nodes
      then LeafwardDepthFirst_neighbors rest nodes (visit_order, visited_nodes)
      else bind_err (LeafwardDepthFirst child_id nodes (visit_order, visited_nodes))
             (LeafwardDepthFirst_neighbors rest nodes))"
  by pat_completeness auto

lemma LeafwardDepthFirst_visited_dom:
  "LeafwardDepthFirst_LeafwardDepthFirst_neighbors_dom (Inl (i, nodes, st)) \<Longrightarrow>
     LeafwardDepthFirst i nodes st = Inr st' \<Longrightarrow> insert i (snd st) \<subseteq> snd st'"
  "LeafwardDepthFirst_LeafwardDepthFirst_neighbors_dom (Inr (cs, nodes2, st2)) \<Longrightarrow>
     LeafwardDepthFirst_neighbors cs nodes2 st2 = Inr st2' \<Longrightarrow> snd st2 \<subseteq> snd st2'"
proof (induct i nodes st and cs nodes2 st2 arbitrary: st' and st2'
    rule: LeafwardDepthFirst_LeafwardDepthFirst_neighbors.pinduct)
  case (1 i nodes visit_order visited_nodes)
  from 1(4) obtain node st2 st3 where
    ins: "i \<notin> visited_nodes" and
    nd: "vector_at nodes i = Inr node" and
    l1: "LeafwardDepthFirst_neighbors (leafward_sorted node) nodes
           (visit_order, insert i visited_nodes) = Inr st2" and
    l2: "LeafwardDepthFirst_neighbors (leafward_rotated node) nodes st2 = Inr st3" and
    r: "st' = (fst st3 @ [i], snd st3)"
    by (auto simp: LeafwardDepthFirst.psimps[OF 1(1)] bind_err_eq_Inr SafeInsert_set_def
        split: if_splits prod.splits)
  have s: "SafeInsert_set visited_nodes i = Inr (insert i visited_nodes)"
    using ins by (simp add: SafeInsert_set_def)
  from 1(2)[OF s nd l1] 1(3)[OF s nd l1 l2] r show ?case by auto
next
  case (2 nodes st)
  then show ?case by (simp add: LeafwardDepthFirst_neighbors.psimps)
next
  case (3 child_id rest nodes visit_order visited_nodes)
  show ?case
  proof (cases "child_id \<in> visited_nodes")
    case True
    with 3(2)[OF True] 3(5) show ?thesis
      by (simp add: LeafwardDepthFirst_neighbors.psimps(2)[OF 3(1)])
  next
    case False
    with 3(5) obtain v where
      d1: "LeafwardDepthFirst child_id nodes (visit_order, visited_nodes) = Inr v" and
      d2: "LeafwardDepthFirst_neighbors rest nodes v = Inr st2'"
      by (auto simp: LeafwardDepthFirst_neighbors.psimps(2)[OF 3(1)] bind_err_eq_Inr)
    from 3(3)[OF False d1] 3(4)[OF False d1 d2] show ?thesis by auto
  qed
qed

termination LeafwardDepthFirst
proof (relation "inv_image (less_than <*lex*> less_than <*lex*> less_than)
    (\<lambda>x. case x of
       Inl (i, nodes, order, V) \<Rightarrow> (card (node_universe nodes - insert i V), 1::nat, 0::nat)
     | Inr (cs, nodes, order, V) \<Rightarrow> (card ((node_universe nodes \<union> set cs) - V), 0, length cs))",
    goal_cases)
  case 1
  then show ?case by (intro wf_inv_image wf_lex_prod wf_less_than)
next
  case (2 i nodes visit_order V visited1 node)
  from vector_at_neighbors[OF 2(2)]
  have "node_universe nodes \<union> set (leafward_sorted node) = node_universe nodes"
    by (auto simp: neighbor_ids_def)
  moreover from 2(1) have "visited1 = insert i V"
    by (auto simp: SafeInsert_set_def split: if_splits)
  ultimately show ?case by simp
next
  case (3 i nodes visit_order V visited1 node st2)
  from vector_at_neighbors[OF 3(2)]
  have e: "node_universe nodes \<union> set (leafward_rotated node) = node_universe nodes"
    by (auto simp: neighbor_ids_def)
  from 3(1) have v1: "visited1 = insert i V"
    by (auto simp: SafeInsert_set_def split: if_splits)
  from LeafwardDepthFirst_visited_dom(2)[OF 3(4) 3(3)] v1 have "insert i V \<subseteq> snd st2"
    by simp
  then have "card (node_universe nodes - snd st2) \<le> card (node_universe nodes - insert i V)"
    by (intro card_mono) auto
  then show ?case using e by (cases st2) auto
next
  case (4 child_id rest nodes visit_order V)
  have "card (node_universe nodes \<union> set rest - V)
      \<le> card (node_universe nodes \<union> set (child_id # rest) - V)"
    by (intro card_mono) auto
  then show ?case by auto
next
  case (5 child_id rest nodes visit_order V)
  have "card (node_universe nodes - insert child_id V)
      < card (node_universe nodes \<union> set (child_id # rest) - V)"
    using 5 by (intro psubset_card_mono) auto
  then show ?case by auto
next
  case (6 child_id rest nodes visit_order V v)
  from LeafwardDepthFirst_visited_dom(1)[OF 6(3) 6(2)] have f: "V \<subseteq> snd v" by simp
  have "card (node_universe nodes \<union> set rest - snd v)
      \<le> card (node_universe nodes \<union> set (child_id # rest) - V)"
    using f by (intro card_mono) auto
  then show ?case by (cases v) auto
qed

declare LeafwardDepthFirst.simps [simp del]


definition LeafwardPassTraversal :: "GPDAG \<Rightarrow> nat list result" where
  "LeafwardPassTraversal dag =
     bind_err
       (fold_err (\<lambda>leaf_idx. RootwardDepthFirst leaf_idx (dag_nodes dag))
          [0..<taxon_count dag] ([], {}))
       (\<lambda>(visit_order, visited_nodes). Inr visit_order)"

definition RootwardPassTraversal :: "GPDAG \<Rightarrow> nat list result" where
  "RootwardPassTraversal dag =
     bind_err
       (fold_err (\<lambda>rootsplit st.
            bind_err (map_at (subsplit_to_index dag) (root_subsplit rootsplit)) (\<lambda>root_idx.
              LeafwardDepthFirst root_idx (dag_nodes dag) st))
          (rootsplits dag) ([], {}))
       (\<lambda>(visit_order, visited_nodes). Inr visit_order)"

definition RootwardPass :: "GPDAG \<Rightarrow> GPOperationVector result" where
  "RootwardPass dag = bind_err (RootwardPassTraversal dag) (RootwardPass_order dag)"

definition LeafwardPass :: "GPDAG \<Rightarrow> GPOperationVector result" where
  "LeafwardPass dag = bind_err (LeafwardPassTraversal dag) (LeafwardPass_order dag)"

subsection \<open>The two schedulers\<close>

definition push_Zero :: "GPDAG \<Rightarrow> PLVType \<Rightarrow> nat \<Rightarrow> GPOperationVector result" where
  "push_Zero dag dest node_id =
     bind_err (GetPLVIndex dag dest node_id) (\<lambda>d. Inr [Zero d])"

definition push_Multiply ::
  "GPDAG \<Rightarrow> PLVType \<Rightarrow> PLVType \<Rightarrow> PLVType \<Rightarrow> nat \<Rightarrow> GPOperationVector result" where
  "push_Multiply dag dest src1 src2 node_id =
     bind_err (GetPLVIndex dag dest node_id) (\<lambda>d.
     bind_err (GetPLVIndex dag src1 node_id) (\<lambda>a.
     bind_err (GetPLVIndex dag src2 node_id) (\<lambda>b. Inr [Multiply d a b])))"

definition UpdateRHat :: "GPDAG \<Rightarrow> nat \<Rightarrow> bool \<Rightarrow> GPOperationVector result" where
  "UpdateRHat dag node_id rotated =
     bind_err (vector_at (dag_nodes dag) node_id) (\<lambda>node.
       let src_plv_type = (if rotated then R_TILDE else R);
           parent_nodes = (if rotated then rootward_rotated node else rootward_sorted node)
       in for_each (\<lambda>parent_id.
            bind_err (vector_at (dag_nodes dag) parent_id) (\<lambda>parent_node.
              let pcsp = (if rotated then RotateSubsplit (bitset parent_node)
                          else bitset parent_node);
                  pcsp = Bitset_plus pcsp (bitset node)
              in bind_err (map_at (gpcsp_indexer dag) pcsp) (\<lambda>gpcsp_idx.
                 bind_err (GetPLVIndex dag R_HAT node_id) (\<lambda>dest.
                 bind_err (GetPLVIndex dag src_plv_type parent_id) (\<lambda>src.
                   Inr [EvolvePLVWeightedBySBNParameter dest gpcsp_idx src])))))
          parent_nodes)"

definition UpdatePHatComputeLikelihood ::
  "GPDAG \<Rightarrow> nat \<Rightarrow> nat \<Rightarrow> bool \<Rightarrow> GPOperationVector result" where
  "UpdatePHatComputeLikelihood dag node_id child_node_id rotated =
     bind_err (vector_at (dag_nodes dag) node_id) (\<lambda>node.
     bind_err (vector_at (dag_nodes dag) child_node_id) (\<lambda>child_node.
       let pcsp = (if rotated then RotateSubsplit (bitset node) else bitset node);
           pcsp = Bitset_plus pcsp (bitset child_node)
       in bind_err (map_at (gpcsp_indexer dag) pcsp) (\<lambda>gpcsp_idx.
          bind_err (GetPLVIndex dag (if rotated then P_HAT_TILDE else P_HAT) node_id) (\<lambda>p_hat.
          bind_err (GetPLVIndex dag P child_node_id) (\<lambda>p_child.
          bind_err (GetPLVIndex dag (if rotated then R_TILDE else R) (Id node)) (\<lambda>r.
          bind_err (GetPLVIndex dag P (Id child_node)) (\<lambda>p_child2.
            Inr [EvolvePLVWeightedBySBNParameter p_hat gpcsp_idx p_child,
                 Likelihood gpcsp_idx r p_child2])))))))"

definition OptimizeBranchLengthUpdatePHat ::
  "GPDAG \<Rightarrow> nat \<Rightarrow> nat \<Rightarrow> bool \<Rightarrow> GPOperationVector result" where
  "OptimizeBranchLengthUpdatePHat dag node_id child_node_id rotated =
     bind_err (vector_at (dag_nodes dag) node_id) (\<lambda>node.
     bind_err (vector_at (dag_nodes dag) child_node_id) (\<lambda>child_node.
       let pcsp = (if rotated then RotateSubsplit (bitset node) else bitset node);
           pcsp = Bitset_plus pcsp (bitset child_node)
       in bind_err (map_at (gpcsp_indexer dag) pcsp) (\<lambda>gpcsp_idx.
          bind_err (GetPLVIndex dag P child_node_id) (\<lambda>p_child.
          bind_err (GetPLVIndex dag (if rotated then R_TILDE else R) node_id) (\<lambda>r.
          bind_err (GetPLVIndex dag (if rotated then P_HAT_TILDE else P_HAT) node_id) (\<lambda>p_hat.
            Inr [OptimizeBranchLength p_child r gpcsp_idx,
                 EvolvePLVWeightedBySBNParameter p_hat gpcsp_idx p_child]))))))"

text \<open>
  The block both schedulers run on a node that is not a root: zero \<open>R_HAT\<close>, accumulate it
  from both classes of rootward neighbours, and rebuild \<open>R\<close> and \<open>R_TILDE\<close>.
\<close>

definition Schedule_nonroot_block :: "GPDAG \<Rightarrow> GPDAGNode \<Rightarrow> nat \<Rightarrow> GPOperationVector result" where
  "Schedule_nonroot_block dag node node_id =
     (if \<not> IsRoot dag node
      then bind_err (push_Zero dag R_HAT node_id) (\<lambda>z.
           bind_err (UpdateRHat dag node_id False) (\<lambda>u1.
           bind_err (UpdateRHat dag node_id True) (\<lambda>u2.
           bind_err (push_Multiply dag R R_HAT P_HAT_TILDE node_id) (\<lambda>m1.
           bind_err (push_Multiply dag R_TILDE R_HAT P_HAT node_id) (\<lambda>m2.
             Inr (z @ u1 @ u2 @ m1 @ m2))))))
      else Inr [])"

function
  ScheduleBranchLengthOptimization ::
    "GPDAG \<Rightarrow> nat \<Rightarrow> nat set \<Rightarrow> (nat set \<times> GPOperationVector) result" and
  ScheduleBranchLengthOptimization_children ::
    "GPDAG \<Rightarrow> nat \<Rightarrow> bool \<Rightarrow> nat list \<Rightarrow> nat set \<Rightarrow> (nat set \<times> GPOperationVector) result"
where
  "ScheduleBranchLengthOptimization dag node_id visited_nodes =
     bind_err (vector_at (dag_nodes dag) node_id) (\<lambda>node.
     bind_err (Schedule_nonroot_block dag node node_id) (\<lambda>ops0.
       if IsLeaf dag node then Inr (insert node_id visited_nodes, ops0)
       else
         bind_err (push_Zero dag P_HAT node_id) (\<lambda>z1.
         bind_err (ScheduleBranchLengthOptimization_children dag node_id False
                     (leafward_sorted node) (insert node_id visited_nodes)) (\<lambda>(visited1, ops1).
         bind_err (push_Multiply dag R_TILDE R_HAT P_HAT node_id) (\<lambda>m1.
         bind_err (push_Zero dag P_HAT_TILDE node_id) (\<lambda>z2.
         bind_err (ScheduleBranchLengthOptimization_children dag node_id True
                     (leafward_rotated node) visited1) (\<lambda>(visited2, ops2).
         bind_err (push_Multiply dag R R_HAT P_HAT_TILDE node_id) (\<lambda>m2.
         bind_err (push_Multiply dag P P_HAT P_HAT_TILDE node_id) (\<lambda>m3.
           Inr (visited2, ops0 @ z1 @ ops1 @ m1 @ z2 @ ops2 @ m2 @ m3))))))))))"
| "ScheduleBranchLengthOptimization_children dag node_id rotated [] visited_nodes =
     Inr (visited_nodes, [])"
| "ScheduleBranchLengthOptimization_children dag node_id rotated (child_id # rest) visited_nodes =
     bind_err (if child_id \<notin> visited_nodes
               then ScheduleBranchLengthOptimization dag child_id visited_nodes
               else Inr (visited_nodes, [])) (\<lambda>(visited1, ops1).
     bind_err (OptimizeBranchLengthUpdatePHat dag node_id child_id rotated) (\<lambda>ops2.
     bind_err (ScheduleBranchLengthOptimization_children dag node_id rotated rest visited1)
       (\<lambda>(visited2, ops3). Inr (visited2, ops1 @ ops2 @ ops3))))"
  by pat_completeness auto



lemma ScheduleBranchLengthOptimization_visited_dom:
  "ScheduleBranchLengthOptimization_ScheduleBranchLengthOptimization_children_dom
     (Inl (dag, node_id, V)) \<Longrightarrow>
   ScheduleBranchLengthOptimization dag node_id V = Inr res \<Longrightarrow> insert node_id V \<subseteq> fst res"
  "ScheduleBranchLengthOptimization_ScheduleBranchLengthOptimization_children_dom
     (Inr (dag2, parent_id, rotated, cs, V2)) \<Longrightarrow>
   ScheduleBranchLengthOptimization_children dag2 parent_id rotated cs V2 = Inr res2 \<Longrightarrow>
     V2 \<subseteq> fst res2"
proof (induct dag node_id V and dag2 parent_id rotated cs V2 arbitrary: res and res2
    rule: ScheduleBranchLengthOptimization_ScheduleBranchLengthOptimization_children.pinduct)
  case (1 dag node_id visited_nodes)
  from 1(4) obtain node ops0 where
    nd: "vector_at (dag_nodes dag) node_id = Inr node" and
    b0: "Schedule_nonroot_block dag node node_id = Inr ops0"
    by (auto simp: ScheduleBranchLengthOptimization.psimps[OF 1(1)] bind_err_eq_Inr)
  show ?case
  proof (cases "IsLeaf dag node")
    case True
    with 1(4) nd b0 show ?thesis
      by (auto simp: ScheduleBranchLengthOptimization.psimps[OF 1(1)])
  next
    case False
    with 1(4) nd b0 obtain z1 r1 m1 z2 r2 where
      z1: "push_Zero dag P_HAT node_id = Inr z1" and
      l1: "ScheduleBranchLengthOptimization_children dag node_id False (leafward_sorted node)
             (insert node_id visited_nodes) = Inr r1" and
      m1: "push_Multiply dag R_TILDE R_HAT P_HAT node_id = Inr m1" and
      z2: "push_Zero dag P_HAT_TILDE node_id = Inr z2" and
      l2: "ScheduleBranchLengthOptimization_children dag node_id True (leafward_rotated node)
             (fst r1) = Inr r2" and
      r: "fst res = fst r2"
      by (auto simp: ScheduleBranchLengthOptimization.psimps[OF 1(1)] bind_err_eq_Inr
          split: prod.splits)
    have e: "(fst r1, snd r1) = r1" by simp
    from 1(2)[OF nd b0 False z1 l1] 1(3)[OF nd b0 False z1 l1 e m1 z2 l2] r
    show ?thesis by auto
  qed
next
  case (2 dag node_id rotated visited_nodes)
  then show ?case by (auto simp: ScheduleBranchLengthOptimization_children.psimps)
next
  case (3 dag node_id rotated child_id rest visited_nodes)
  from 3(4) obtain r1 ops2 r3 where
    c: "(if child_id \<notin> visited_nodes
         then ScheduleBranchLengthOptimization dag child_id visited_nodes
         else Inr (visited_nodes, [])) = Inr r1" and
    o: "OptimizeBranchLengthUpdatePHat dag node_id child_id rotated = Inr ops2" and
    l: "ScheduleBranchLengthOptimization_children dag node_id rotated rest (fst r1) = Inr r3" and
    r: "fst res2 = fst r3"
    by (auto simp: ScheduleBranchLengthOptimization_children.psimps(2)[OF 3(1)] bind_err_eq_Inr
        split: prod.splits)
  have e: "(fst r1, snd r1) = r1" by simp
  have "visited_nodes \<subseteq> fst r1"
  proof (cases "child_id \<in> visited_nodes")
    case True
    with c show ?thesis by auto
  next
    case False
    with c 3(2)[OF False] show ?thesis by auto
  qed
  with 3(3)[OF c e o l] r show ?case by auto
qed

termination ScheduleBranchLengthOptimization
proof (relation "inv_image (less_than <*lex*> less_than <*lex*> less_than)
    (\<lambda>x. case x of
       Inl (dag, i, V) \<Rightarrow> (card (node_universe (dag_nodes dag) - insert i V), 1::nat, 0::nat)
     | Inr (dag, p, rotated, cs, V) \<Rightarrow>
         (card ((node_universe (dag_nodes dag) \<union> set cs) - V), 0, length cs))",
    goal_cases)
  case 1
  then show ?case by (intro wf_inv_image wf_lex_prod wf_less_than)
next
  case (2 dag node_id V node ops0 z1)
  from vector_at_neighbors[OF 2(1)]
  have "node_universe (dag_nodes dag) \<union> set (leafward_sorted node) = node_universe (dag_nodes dag)"
    by (auto simp: neighbor_ids_def)
  then show ?case by simp
next
  case (3 dag node_id V node ops0 z1 r1 V1 ops1 m1 z2)
  from vector_at_neighbors[OF 3(1)]
  have e: "node_universe (dag_nodes dag) \<union> set (leafward_rotated node) = node_universe (dag_nodes dag)"
    by (auto simp: neighbor_ids_def)
  from ScheduleBranchLengthOptimization_visited_dom(2)[OF 3(9) 3(5)] 3(6)
  have "insert node_id V \<subseteq> V1" by auto
  then have "card (node_universe (dag_nodes dag) - V1)
      \<le> card (node_universe (dag_nodes dag) - insert node_id V)"
    by (intro card_mono) auto
  then show ?case using e by auto
next
  case (4 dag node_id rotated child_id rest V)
  have "card (node_universe (dag_nodes dag) - insert child_id V)
      < card (node_universe (dag_nodes dag) \<union> set (child_id # rest) - V)"
    using 4 by (intro psubset_card_mono) auto
  then show ?case by auto
next
  case (5 dag node_id rotated child_id rest V r1 V1 ops1 ops2)
  have "V \<subseteq> V1"
  proof (cases "child_id \<in> V")
    case True
    with 5(1,2) show ?thesis by auto
  next
    case False
    with 5(1) have "ScheduleBranchLengthOptimization dag child_id V = Inr r1" by simp
    from ScheduleBranchLengthOptimization_visited_dom(1)[OF 5(4)[OF False] this] 5(2)
    show ?thesis by auto
  qed
  then have "card (node_universe (dag_nodes dag) \<union> set rest - V1)
      \<le> card (node_universe (dag_nodes dag) \<union> set (child_id # rest) - V)"
    by (intro card_mono) auto
  then show ?case by auto
qed

declare ScheduleBranchLengthOptimization.simps [simp del]


function
  ScheduleSBNParametersOptimization ::
    "GPDAG \<Rightarrow> nat \<Rightarrow> nat set \<Rightarrow> (nat set \<times> GPOperationVector) result" and
  ScheduleSBNParametersOptimization_children ::
    "GPDAG \<Rightarrow> nat \<Rightarrow> bool \<Rightarrow> nat list \<Rightarrow> nat set \<Rightarrow> (nat set \<times> GPOperationVector) result"
where
  "ScheduleSBNParametersOptimization dag node_id visited_nodes =
     bind_err (vector_at (dag_nodes dag) node_id) (\<lambda>node.
     bind_err (Schedule_nonroot_block dag node node_id) (\<lambda>ops0.
       if IsLeaf dag node then Inr (insert node_id visited_nodes, ops0)
       else
         bind_err (push_Zero dag P_HAT node_id) (\<lambda>z1.
         bind_err (ScheduleSBNParametersOptimization_children dag node_id False
                     (leafward_sorted node) (insert node_id visited_nodes)) (\<lambda>(visited1, ops1).
         bind_err (OptimizeSBNParameters dag (bitset node)) (\<lambda>u1.
         bind_err (push_Multiply dag R_TILDE R_HAT P_HAT node_id) (\<lambda>m1.
         bind_err (push_Zero dag P_HAT_TILDE node_id) (\<lambda>z2.
         bind_err (ScheduleSBNParametersOptimization_children dag node_id True
                     (leafward_rotated node) visited1) (\<lambda>(visited2, ops2).
         bind_err (OptimizeSBNParameters dag (RotateSubsplit (bitset node))) (\<lambda>u2.
         bind_err (push_Multiply dag R R_HAT P_HAT_TILDE node_id) (\<lambda>m2.
         bind_err (push_Multiply dag P P_HAT P_HAT_TILDE node_id) (\<lambda>m3.
           Inr (visited2,
                ops0 @ z1 @ ops1 @ u1 @ m1 @ z2 @ ops2 @ u2 @ m2 @ m3))))))))))))"
| "ScheduleSBNParametersOptimization_children dag node_id rotated [] visited_nodes =
     Inr (visited_nodes, [])"
| "ScheduleSBNParametersOptimization_children dag node_id rotated (child_id # rest) visited_nodes =
     bind_err (if child_id \<notin> visited_nodes
               then ScheduleSBNParametersOptimization dag child_id visited_nodes
               else Inr (visited_nodes, [])) (\<lambda>(visited1, ops1).
     bind_err (UpdatePHatComputeLikelihood dag node_id child_id rotated) (\<lambda>ops2.
     bind_err (ScheduleSBNParametersOptimization_children dag node_id rotated rest visited1)
       (\<lambda>(visited2, ops3). Inr (visited2, ops1 @ ops2 @ ops3))))"
  by pat_completeness auto



lemma ScheduleSBNParametersOptimization_visited_dom:
  "ScheduleSBNParametersOptimization_ScheduleSBNParametersOptimization_children_dom
     (Inl (dag, node_id, V)) \<Longrightarrow>
   ScheduleSBNParametersOptimization dag node_id V = Inr res \<Longrightarrow> insert node_id V \<subseteq> fst res"
  "ScheduleSBNParametersOptimization_ScheduleSBNParametersOptimization_children_dom
     (Inr (dag2, parent_id, rotated, cs, V2)) \<Longrightarrow>
   ScheduleSBNParametersOptimization_children dag2 parent_id rotated cs V2 = Inr res2 \<Longrightarrow>
     V2 \<subseteq> fst res2"
proof (induct dag node_id V and dag2 parent_id rotated cs V2 arbitrary: res and res2
    rule: ScheduleSBNParametersOptimization_ScheduleSBNParametersOptimization_children.pinduct)
  case (1 dag node_id visited_nodes)
  from 1(4) obtain node ops0 where
    nd: "vector_at (dag_nodes dag) node_id = Inr node" and
    b0: "Schedule_nonroot_block dag node node_id = Inr ops0"
    by (auto simp: ScheduleSBNParametersOptimization.psimps[OF 1(1)] bind_err_eq_Inr)
  show ?case
  proof (cases "IsLeaf dag node")
    case True
    with 1(4) nd b0 show ?thesis
      by (auto simp: ScheduleSBNParametersOptimization.psimps[OF 1(1)])
  next
    case False
    with 1(4) nd b0 obtain z1 r1 u1 m1 z2 r2 where
      z1: "push_Zero dag P_HAT node_id = Inr z1" and
      l1: "ScheduleSBNParametersOptimization_children dag node_id False (leafward_sorted node)
             (insert node_id visited_nodes) = Inr r1" and
      u1: "OptimizeSBNParameters dag (bitset node) = Inr u1" and
      m1: "push_Multiply dag R_TILDE R_HAT P_HAT node_id = Inr m1" and
      z2: "push_Zero dag P_HAT_TILDE node_id = Inr z2" and
      l2: "ScheduleSBNParametersOptimization_children dag node_id True (leafward_rotated node)
             (fst r1) = Inr r2" and
      r: "fst res = fst r2"
      by (auto simp: ScheduleSBNParametersOptimization.psimps[OF 1(1)] bind_err_eq_Inr
          split: prod.splits)
    have e: "(fst r1, snd r1) = r1" by simp
    from 1(2)[OF nd b0 False z1 l1] 1(3)[OF nd b0 False z1 l1 e u1 m1 z2 l2] r
    show ?thesis by auto
  qed
next
  case (2 dag node_id rotated visited_nodes)
  then show ?case by (auto simp: ScheduleSBNParametersOptimization_children.psimps)
next
  case (3 dag node_id rotated child_id rest visited_nodes)
  from 3(4) obtain r1 ops2 r3 where
    c: "(if child_id \<notin> visited_nodes
         then ScheduleSBNParametersOptimization dag child_id visited_nodes
         else Inr (visited_nodes, [])) = Inr r1" and
    o: "UpdatePHatComputeLikelihood dag node_id child_id rotated = Inr ops2" and
    l: "ScheduleSBNParametersOptimization_children dag node_id rotated rest (fst r1) = Inr r3" and
    r: "fst res2 = fst r3"
    by (auto simp: ScheduleSBNParametersOptimization_children.psimps(2)[OF 3(1)] bind_err_eq_Inr
        split: prod.splits)
  have e: "(fst r1, snd r1) = r1" by simp
  have "visited_nodes \<subseteq> fst r1"
  proof (cases "child_id \<in> visited_nodes")
    case True
    with c show ?thesis by auto
  next
    case False
    with c 3(2)[OF False] show ?thesis by auto
  qed
  with 3(3)[OF c e o l] r show ?case by auto
qed

termination ScheduleSBNParametersOptimization
proof (relation "inv_image (less_than <*lex*> less_than <*lex*> less_than)
    (\<lambda>x. case x of
       Inl (dag, i, V) \<Rightarrow> (card (node_universe (dag_nodes dag) - insert i V), 1::nat, 0::nat)
     | Inr (dag, p, rotated, cs, V) \<Rightarrow>
         (card ((node_universe (dag_nodes dag) \<union> set cs) - V), 0, length cs))",
    goal_cases)
  case 1
  then show ?case by (intro wf_inv_image wf_lex_prod wf_less_than)
next
  case (2 dag node_id V node ops0 z1)
  from vector_at_neighbors[OF 2(1)]
  have "node_universe (dag_nodes dag) \<union> set (leafward_sorted node) = node_universe (dag_nodes dag)"
    by (auto simp: neighbor_ids_def)
  then show ?case by simp
next
  case (3 dag node_id V node ops0 z1 r1 V1 ops1 u1 m1 z2)
  from vector_at_neighbors[OF 3(1)]
  have e: "node_universe (dag_nodes dag) \<union> set (leafward_rotated node) = node_universe (dag_nodes dag)"
    by (auto simp: neighbor_ids_def)
  from ScheduleSBNParametersOptimization_visited_dom(2)[OF 3(10) 3(5)] 3(6)
  have "insert node_id V \<subseteq> V1" by auto
  then have "card (node_universe (dag_nodes dag) - V1)
      \<le> card (node_universe (dag_nodes dag) - insert node_id V)"
    by (intro card_mono) auto
  then show ?case using e by auto
next
  case (4 dag node_id rotated child_id rest V)
  have "card (node_universe (dag_nodes dag) - insert child_id V)
      < card (node_universe (dag_nodes dag) \<union> set (child_id # rest) - V)"
    using 4 by (intro psubset_card_mono) auto
  then show ?case by auto
next
  case (5 dag node_id rotated child_id rest V r1 V1 ops1 ops2)
  have "V \<subseteq> V1"
  proof (cases "child_id \<in> V")
    case True
    with 5(1,2) show ?thesis by auto
  next
    case False
    with 5(1) have "ScheduleSBNParametersOptimization dag child_id V = Inr r1" by simp
    from ScheduleSBNParametersOptimization_visited_dom(1)[OF 5(4)[OF False] this] 5(2)
    show ?thesis by auto
  qed
  then have "card (node_universe (dag_nodes dag) \<union> set rest - V1)
      \<le> card (node_universe (dag_nodes dag) \<union> set (child_id # rest) - V)"
    by (intro card_mono) auto
  then show ?case by auto
qed

declare ScheduleSBNParametersOptimization.simps [simp del]


definition BranchLengthOptimization :: "GPDAG \<Rightarrow> GPOperationVector result" where
  "BranchLengthOptimization dag =
     bind_err
       (fold_err (\<lambda>rootsplit (visited_nodes, operations).
            bind_err (map_at (subsplit_to_index dag) (root_subsplit rootsplit)) (\<lambda>root_idx.
            bind_err (ScheduleBranchLengthOptimization dag root_idx visited_nodes)
              (\<lambda>(visited1, ops1). Inr (visited1, operations @ ops1))))
          (rootsplits dag) ({}, []))
       (\<lambda>(visited_nodes, operations). Inr operations)"

definition SBNParameterOptimization_rootsplit ::
  "GPDAG \<Rightarrow> nat \<Rightarrow> nat set \<times> GPOperationVector \<Rightarrow> (nat set \<times> GPOperationVector) result" where
  "SBNParameterOptimization_rootsplit dag rootsplit_idx st =
     (case st of (visited_nodes, operations) \<Rightarrow>
        let rootsplit = rootsplits dag ! rootsplit_idx
        in bind_err (map_at (subsplit_to_index dag) (root_subsplit rootsplit)) (\<lambda>root_idx.
           bind_err (ScheduleSBNParametersOptimization dag root_idx visited_nodes)
             (\<lambda>(visited1, ops1).
           bind_err (map_at (subsplit_to_index dag) (root_subsplit rootsplit)) (\<lambda>node_id.
           bind_err (GetPLVIndex dag R_HAT node_id) (\<lambda>r_hat.
           bind_err (GetPLVIndex dag P node_id) (\<lambda>p.
             Inr (visited1,
                  operations @ ops1 @ [IncrementMarginalLikelihood r_hat rootsplit_idx p])))))))"

definition SBNParameterOptimization :: "GPDAG \<Rightarrow> GPOperationVector result" where
  "SBNParameterOptimization dag =
     bind_err
       (fold_err (SBNParameterOptimization_rootsplit dag) [0..<length (rootsplits dag)] ({}, []))
       (\<lambda>(visited_nodes, operations).
          Inr (operations @ [UpdateSBNProbabilities 0 (length (rootsplits dag))]))"


section \<open>The PLV index scheme never aliases below the wrap-around\<close>

lemma GetPLVIndexStatic_offset:
  "plv_type \<noteq> PLV_UNRECOGNIZED \<Longrightarrow>
     GetPLVIndexStatic plv_type N i = Inr (of_nat (kind_offset plv_type) * N + i)"
  by (cases plv_type) simp_all

lemma kind_offset_le: "plv_type \<noteq> PLV_UNRECOGNIZED \<Longrightarrow> kind_offset plv_type \<le> 5"
  by (cases plv_type) simp_all

lemma kind_offset_inj:
  "t \<noteq> PLV_UNRECOGNIZED \<Longrightarrow> t' \<noteq> PLV_UNRECOGNIZED \<Longrightarrow> kind_offset t = kind_offset t' \<Longrightarrow> t = t'"
  by (cases t; cases t') simp_all

lemma unat_flat_index:
  assumes "k \<le> 5" "6 * unat N \<le> 2 ^ 64" "unat i < unat N"
  shows "unat (of_nat k * N + i :: 64 word) = k * unat N + unat i"
proof -
  have b: "k * unat N + unat i < 2 ^ 64"
  proof -
    have "k * unat N + unat i < k * unat N + unat N" using assms(3) by simp
    also have "\<dots> = (k + 1) * unat N" by simp
    also have "\<dots> \<le> 6 * unat N" using assms(1) by (intro mult_right_mono) auto
    finally show ?thesis using assms(2) by simp
  qed
  have "(of_nat k * N + i :: 64 word) = of_nat (k * unat N + unat i)"
    by simp
  then have "unat (of_nat k * N + i :: 64 word) = unat (of_nat (k * unat N + unat i) :: 64 word)"
    by (rule arg_cong)
  also have "\<dots> = k * unat N + unat i"
    using b by (simp add: unat_of_nat del: of_nat_add of_nat_mult)
  finally show ?thesis .
qed

lemma flat_index_inj:
  assumes "k \<le> (5::nat)" "k' \<le> 5" "i < N" "j < N" "k * N + i = k' * N + j"
  shows "k = k' \<and> i = j"
proof -
  have "(k * N + i) div N = k" "(k' * N + j) div N = k'"
    using assms(3,4) by simp_all
  with assms(5) have "k = k'" by simp
  with assms(5) show ?thesis by simp
qed

text \<open>
  Claim C4, as amended. For the six buffer kinds \<open>GetPLVIndexStatic\<close> returns
  \<open>kind_offset(kind) * N + node_id\<close>, computed in \<open>size_t\<close> (64-bit) arithmetic, and an
  unrecognized kind is fatal. When the six families fit the index type
  (\<open>6 * N \<le> 2^64\<close>), distinct pairs of a kind and a node id below \<open>N\<close> never share a
  flat index.
\<close>

theorem GetPLVIndexStatic_scheme:
  "(plv_type \<noteq> PLV_UNRECOGNIZED \<longrightarrow>
      GetPLVIndexStatic plv_type N i = Inr (of_nat (kind_offset plv_type) * N + i)) \<and>
   GetPLVIndexStatic PLV_UNRECOGNIZED N i = Inl InvalidPLVIndex \<and>
   (6 * unat N \<le> 2 ^ 64 \<and> unat i < unat N \<and> unat j < unat N \<and>
    plv_type \<noteq> PLV_UNRECOGNIZED \<and> plv_type' \<noteq> PLV_UNRECOGNIZED \<and>
    (plv_type, i) \<noteq> (plv_type', j) \<longrightarrow>
      GetPLVIndexStatic plv_type N i \<noteq> GetPLVIndexStatic plv_type' N j)"
proof (intro conjI impI)
  assume "plv_type \<noteq> PLV_UNRECOGNIZED"
  then show "GetPLVIndexStatic plv_type N i = Inr (of_nat (kind_offset plv_type) * N + i)"
    by (rule GetPLVIndexStatic_offset)
next
  show "GetPLVIndexStatic PLV_UNRECOGNIZED N i = Inl InvalidPLVIndex" by simp
next
  assume a: "6 * unat N \<le> 2 ^ 64 \<and> unat i < unat N \<and> unat j < unat N \<and>
    plv_type \<noteq> PLV_UNRECOGNIZED \<and> plv_type' \<noteq> PLV_UNRECOGNIZED \<and>
    (plv_type, i) \<noteq> (plv_type', j)"
  show "GetPLVIndexStatic plv_type N i \<noteq> GetPLVIndexStatic plv_type' N j"
  proof
    assume e: "GetPLVIndexStatic plv_type N i = GetPLVIndexStatic plv_type' N j"
    from a e have w: "(of_nat (kind_offset plv_type) * N + i :: 64 word)
        = of_nat (kind_offset plv_type') * N + j"
      by (simp add: GetPLVIndexStatic_offset)
    from a have u1: "unat (of_nat (kind_offset plv_type) * N + i :: 64 word)
        = kind_offset plv_type * unat N + unat i"
      by (intro unat_flat_index kind_offset_le) auto
    from a have u2: "unat (of_nat (kind_offset plv_type') * N + j :: 64 word)
        = kind_offset plv_type' * unat N + unat j"
      by (intro unat_flat_index kind_offset_le) auto
    from w u1 u2 have "kind_offset plv_type * unat N + unat i
        = kind_offset plv_type' * unat N + unat j" by simp
    with a have "kind_offset plv_type = kind_offset plv_type' \<and> unat i = unat j"
      by (intro flat_index_inj[of _ _ _ "unat N"] kind_offset_le) auto
    then have "kind_offset plv_type = kind_offset plv_type'" "i = j"
      by (simp_all add: word_unat_eq_iff)
    with a show False by (auto dest: kind_offset_inj)
  qed
qed

theorem GetPLVIndexStatic_scheme_witness:
  "GetPLVIndexStatic R_HAT 7 4 = Inr 25 \<and>
   GetPLVIndexStatic PLV_UNRECOGNIZED 7 4 = Inl InvalidPLVIndex \<and>
   GetPLVIndexStatic R_HAT 7 4 \<noteq> GetPLVIndexStatic R 7 0"
  using GetPLVIndexStatic_scheme [of R_HAT 7 4 0 R] by simp

text \<open>
  Claim C4 as stated fails: for the node count \<open>2^63\<close> the product \<open>2 * N\<close> wraps to
  zero, and the buffer \<open>P_HAT_TILDE\<close> of node 0 shares its flat index with the buffer
  \<open>P\<close> of node 0.
\<close>

theorem GetPLVIndexStatic_alias_counterexample:
  "unat (0 :: size_t) < unat (2 ^ 63 :: size_t) \<and> (P_HAT_TILDE, 0 :: size_t) \<noteq> (P, 0) \<and>
   GetPLVIndexStatic P_HAT_TILDE (2 ^ 63) 0 = GetPLVIndexStatic P (2 ^ 63) 0"
  by simp


section \<open>A worked example\<close>

text \<open>
  Three taxa and the two rooted topologies ((0,1),2) and ((0,2),1): the rootsplits are
  \<open>001\<close> and \<open>010\<close>, and each root subsplit has one harvested child.
\<close>

definition example_trees :: RootedTreeCollection where
  "example_trees = \<lparr>TaxonCount = 3,
     RootsplitCounterOf = [[False, False, True], [False, True, False]],
     PCSSCounterOf = [([False, False, True, True, True, False], [[False, True, False, True, False, False]]),
                      ([False, True, False, True, False, True], [[False, False, True, True, False, False]])]\<rparr>"

text \<open>The DAG the constructor builds from them.\<close>

definition example_dag :: GPDAG where
  "example_dag =
    \<lparr>taxon_count = 3, rootsplit_and_pcsp_count = 4,
      rootsplits = [[False, False, True], [False, True, False]],
      parent_to_range = fmap_of_list
        [([False, False, True, True, True, False], 2, 3),
         ([False, True, False, True, False, True], 3, 4)],
      index_to_child = fmap_of_list
        [(2, [False, True, False, True, False, False]),
         (3, [False, False, True, True, False, False])],
      subsplit_to_index = fmap_of_list
        [([False, False, False, True, False, False], 0),
         ([False, False, False, False, True, False], 1),
         ([False, False, False, False, False, True], 2),
         ([False, True, False, True, False, False], 3),
         ([False, False, True, True, True, False], 4),
         ([False, False, True, True, False, False], 5),
         ([False, True, False, True, False, True], 6)],
      dag_nodes =
        [\<lparr>Id = 0, bitset = [False, False, False, True, False, False],
           leafward_sorted = [], leafward_rotated = [],
           rootward_sorted = [3, 5], rootward_rotated = []\<rparr>,
         \<lparr>Id = 1, bitset = [False, False, False, False, True, False],
           leafward_sorted = [], leafward_rotated = [],
           rootward_sorted = [], rootward_rotated = [3, 6]\<rparr>,
         \<lparr>Id = 2, bitset = [False, False, False, False, False, True],
           leafward_sorted = [], leafward_rotated = [],
           rootward_sorted = [], rootward_rotated = [4, 5]\<rparr>,
         \<lparr>Id = 3, bitset = [False, True, False, True, False, False],
           leafward_sorted = [0], leafward_rotated = [1],
           rootward_sorted = [4], rootward_rotated = []\<rparr>,
         \<lparr>Id = 4, bitset = [False, False, True, True, True, False],
           leafward_sorted = [3], leafward_rotated = [2],
           rootward_sorted = [], rootward_rotated = []\<rparr>,
         \<lparr>Id = 5, bitset = [False, False, True, True, False, False],
           leafward_sorted = [0], leafward_rotated = [2],
           rootward_sorted = [6], rootward_rotated = []\<rparr>,
         \<lparr>Id = 6, bitset = [False, True, False, True, False, True],
           leafward_sorted = [5], leafward_rotated = [1],
           rootward_sorted = [], rootward_rotated = []\<rparr>],
      gpcsp_indexer = fmap_of_list
        [([False, False, True, True, True, False], 0),
         ([False, True, False, True, False, True], 1),
         ([False, True, False, True, False, False, False, False, False, True, False, False], 2),
         ([True, False, False, False, True, False, False, False, False, False, True, False], 3),
         ([False, False, True, True, True, False, False, True, False, True, False, False], 4),
         ([True, True, False, False, False, True, False, False, False, False, False, True], 5),
         ([False, False, True, True, False, False, False, False, False, True, False, False], 6),
         ([True, False, False, False, False, True, False, False, False, False, False, True], 7),
         ([False, True, False, True, False, True, False, False, True, True, False, False], 8),
         ([True, False, True, False, True, False, False, False, False, False, True, False], 9)],
      subsplit_to_range = fmap_of_list
        [([False, True, False, True, False, False], 2, 3),
         ([True, False, False, False, True, False], 3, 4),
         ([False, False, True, True, True, False], 4, 5),
         ([True, True, False, False, False, True], 5, 6),
         ([False, False, True, True, False, False], 6, 7),
         ([True, False, False, False, False, True], 7, 8),
         ([False, True, False, True, False, True], 8, 9),
         ([True, False, True, False, True, False], 9, 10)]\<rparr>"

lemma example_dag_built: "GPDAG_of example_trees = Inr example_dag"
  by code_simp


section \<open>Flat buffer indices in the operations\<close>

text \<open>
  The value \<open>GetPLVIndex\<close> returns for one of the six kinds: the formula of the
  specification, in \<open>size_t\<close> arithmetic.
\<close>

definition plv_index :: "GPDAG \<Rightarrow> PLVType \<Rightarrow> nat \<Rightarrow> nat" where
  "plv_index dag plv_type src_idx =
     unat (of_nat (kind_offset plv_type) * of_nat (length (dag_nodes dag)) + of_nat src_idx :: size_t)"

lemma GetPLVIndex_eq:
  "plv_type \<noteq> PLV_UNRECOGNIZED \<Longrightarrow>
     GetPLVIndex dag plv_type src_idx = Inr (plv_index dag plv_type src_idx)"
  by (simp add: GetPLVIndex_def plv_index_def GetPLVIndexStatic_offset)

lemma GetPLVIndex_simps [simp]:
  "GetPLVIndex dag P i = Inr (plv_index dag P i)"
  "GetPLVIndex dag P_HAT i = Inr (plv_index dag P_HAT i)"
  "GetPLVIndex dag P_HAT_TILDE i = Inr (plv_index dag P_HAT_TILDE i)"
  "GetPLVIndex dag R_HAT i = Inr (plv_index dag R_HAT i)"
  "GetPLVIndex dag R i = Inr (plv_index dag R i)"
  "GetPLVIndex dag R_TILDE i = Inr (plv_index dag R_TILDE i)"
  by (simp_all add: GetPLVIndex_eq)

lemma GetPLVIndex_if [simp]:
  "GetPLVIndex dag (if b then R_TILDE else R) i = Inr (plv_index dag (if b then R_TILDE else R) i)"
  "GetPLVIndex dag (if b then P_HAT_TILDE else P_HAT) i
     = Inr (plv_index dag (if b then P_HAT_TILDE else P_HAT) i)"
  by (simp_all add: GetPLVIndex_eq)

lemma plv_index_exact:
  assumes "plv_type \<noteq> PLV_UNRECOGNIZED" "6 * length (dag_nodes dag) \<le> 2 ^ 64"
    "i < length (dag_nodes dag)"
  shows "plv_index dag plv_type i = kind_offset plv_type * length (dag_nodes dag) + i"
proof -
  let ?N = "length (dag_nodes dag)"
  have n: "unat (of_nat ?N :: size_t) = ?N"
    using assms(2) by (simp add: unat_of_nat)
  have i: "unat (of_nat i :: size_t) = i"
    using assms(2,3) by (simp add: unat_of_nat)
  have "unat (of_nat (kind_offset plv_type) * of_nat ?N + of_nat i :: size_t)
      = kind_offset plv_type * unat (of_nat ?N :: size_t) + unat (of_nat i :: size_t)"
    using assms n i by (intro unat_flat_index kind_offset_le) simp_all
  with n i show ?thesis by (simp add: plv_index_def)
qed

lemma push_Zero_eq [simp]:
  "dest \<noteq> PLV_UNRECOGNIZED \<Longrightarrow> push_Zero dag dest i = Inr [Zero (plv_index dag dest i)]"
  by (simp add: push_Zero_def GetPLVIndex_eq)

lemma push_Multiply_eq [simp]:
  "dest \<noteq> PLV_UNRECOGNIZED \<Longrightarrow> a \<noteq> PLV_UNRECOGNIZED \<Longrightarrow> b \<noteq> PLV_UNRECOGNIZED \<Longrightarrow>
     push_Multiply dag dest a b i
       = Inr [Multiply (plv_index dag dest i) (plv_index dag a i) (plv_index dag b i)]"
  by (simp add: push_Multiply_def GetPLVIndex_eq)

lemma for_each_total:
  assumes "\<And>x. x \<in> set xs \<Longrightarrow> f x = Inr (g x)"
  shows "for_each f xs = Inr (concat (map g xs))"
  using assms by (induction xs) simp_all

lemma for_each_Inr_all:
  assumes "for_each f xs = Inr ys" "x \<in> set xs"
  shows "\<exists>zs. f x = Inr zs"
  using assms by (induction xs arbitrary: ys) (auto simp: bind_err_eq_Inr)

lemma for_each_Inr_concat:
  assumes "for_each f xs = Inr ys"
  shows "ys = concat (map (\<lambda>x. projr (f x)) xs)"
  using assms by (induction xs arbitrary: ys) (auto simp: bind_err_eq_Inr)

lemma for_each_singletons:
  assumes "for_each f xs = Inr ys" "\<And>x zs. x \<in> set xs \<Longrightarrow> f x = Inr zs \<Longrightarrow> zs = [g x]"
  shows "ys = map g xs"
  using assms
proof (induction xs arbitrary: ys)
  case Nil
  then show ?case by simp
next
  case (Cons x xs)
  from Cons.prems(1) obtain zs rest where
    z: "f x = Inr zs" and r: "for_each f xs = Inr rest" and y: "ys = zs @ rest"
    by (auto simp: bind_err_eq_Inr)
  from Cons.prems(2)[OF _ z] have "zs = [g x]" by simp
  moreover from Cons.IH[OF r] Cons.prems(2) have "rest = map g xs" by simp
  ultimately show ?case using y by simp
qed

section \<open>Zeroing the buffers\<close>

text \<open>The node id \<open>subsplit_to_index_.at(rootsplit + ~rootsplit)\<close> of a rootsplit.\<close>

definition root_index :: "GPDAG \<Rightarrow> Bitset \<Rightarrow> nat" where
  "root_index dag rootsplit = the (fmlookup (subsplit_to_index dag) (root_subsplit rootsplit))"

lemma map_at_root_index:
  "map_at (subsplit_to_index dag) (root_subsplit rootsplit) = Inr v \<Longrightarrow> v = root_index dag rootsplit"
  by (auto simp: map_at_def root_index_def split: option.splits)

lemma SetRootwardZero_eq:
  "SetRootwardZero dag =
     Inr (concat (map (\<lambda>i. [Zero (plv_index dag P i), Zero (plv_index dag P_HAT i),
                              Zero (plv_index dag P_HAT_TILDE i)])
            [taxon_count dag..<length (dag_nodes dag)]))"
  unfolding SetRootwardZero_def Let_def by (rule for_each_total) simp

lemma SetLeafwardZero_eq:
  assumes "SetLeafwardZero dag = Inr ops"
  shows "ops =
     concat (map (\<lambda>i. [Zero (plv_index dag R_HAT i), Zero (plv_index dag R i),
                         Zero (plv_index dag R_TILDE i)]) [0..<length (dag_nodes dag)]) @
     map (\<lambda>rootsplit. SetToStationaryDistribution
                         (plv_index dag R_HAT (root_index dag rootsplit)) None)
       (rootsplits dag)"
proof -
  let ?f = "\<lambda>i. bind_err (GetPLVIndex dag R_HAT i) (\<lambda>r_hat.
              bind_err (GetPLVIndex dag R i) (\<lambda>r.
              bind_err (GetPLVIndex dag R_TILDE i) (\<lambda>r_tilde.
                Inr [Zero r_hat, Zero r, Zero r_tilde])))"
  let ?g = "\<lambda>rootsplit.
              bind_err (map_at (subsplit_to_index dag) (root_subsplit rootsplit)) (\<lambda>root_idx.
              bind_err (GetPLVIndex dag R_HAT root_idx) (\<lambda>r_hat.
                Inr [SetToStationaryDistribution r_hat None]))"
  have a: "for_each ?f [0..<length (dag_nodes dag)] =
     Inr (concat (map (\<lambda>i. [Zero (plv_index dag R_HAT i), Zero (plv_index dag R i),
                         Zero (plv_index dag R_TILDE i)]) [0..<length (dag_nodes dag)]))"
    by (rule for_each_total) simp
  from assms obtain ops2 where
    b: "for_each ?g (rootsplits dag) = Inr ops2" and
    c: "ops = concat (map (\<lambda>i. [Zero (plv_index dag R_HAT i), Zero (plv_index dag R i),
                         Zero (plv_index dag R_TILDE i)]) [0..<length (dag_nodes dag)]) @ ops2"
    unfolding SetLeafwardZero_def Let_def a by (auto simp: bind_err_eq_Inr)
  have "ops2 = map (\<lambda>rootsplit. SetToStationaryDistribution
                         (plv_index dag R_HAT (root_index dag rootsplit)) None) (rootsplits dag)"
    by (rule for_each_singletons[OF b]) (auto simp: bind_err_eq_Inr dest: map_at_root_index)
  with c show ?thesis by simp
qed

text \<open>
  Claim C7, as amended. \<open>SetRootwardZero\<close> emits \<open>Zero\<close> for the buffers P, P-hat and
  P-hat-tilde of every non-fake node (ids from the taxon count up to the node count) and
  of no other node; \<open>SetLeafwardZero\<close> emits \<open>Zero\<close> for R-hat, R and R-tilde of every
  node of the DAG, followed by one \<open>SetToStationaryDistribution\<close> on the R-hat buffer of
  each rootsplit's root node.
\<close>

theorem SetZero_operations:
  "SetRootwardZero dag =
     Inr (concat (map (\<lambda>i. [Zero (plv_index dag P i), Zero (plv_index dag P_HAT i),
                              Zero (plv_index dag P_HAT_TILDE i)])
            [taxon_count dag..<length (dag_nodes dag)])) \<and>
   (SetLeafwardZero dag = Inr ops \<longrightarrow>
      ops =
        concat (map (\<lambda>i. [Zero (plv_index dag R_HAT i), Zero (plv_index dag R i),
                            Zero (plv_index dag R_TILDE i)]) [0..<length (dag_nodes dag)]) @
        map (\<lambda>rootsplit. SetToStationaryDistribution
                            (plv_index dag R_HAT (root_index dag rootsplit)) None)
          (rootsplits dag))"
  using SetRootwardZero_eq SetLeafwardZero_eq by blast

lemma example_SetLeafwardZero:
  "SetLeafwardZero example_dag =
     Inr [Zero 21, Zero 28, Zero 35, Zero 22, Zero 29, Zero 36, Zero 23,
      Zero 30, Zero 37, Zero 24, Zero 31, Zero 38, Zero 25, Zero 32,
      Zero 39, Zero 26, Zero 33, Zero 40, Zero 27, Zero 34, Zero 41,
      SetToStationaryDistribution 25 None,
      SetToStationaryDistribution 27 None]"
  by code_simp

theorem SetZero_operations_witness:
  "SetLeafwardZero example_dag =
     Inr [Zero 21, Zero 28, Zero 35, Zero 22, Zero 29, Zero 36, Zero 23,
      Zero 30, Zero 37, Zero 24, Zero 31, Zero 38, Zero 25, Zero 32,
      Zero 39, Zero 26, Zero 33, Zero 40, Zero 27, Zero 34, Zero 41,
      SetToStationaryDistribution 25 None,
      SetToStationaryDistribution 27 None] \<and>
   [Zero 21, Zero 28, Zero 35, Zero 22, Zero 29, Zero 36, Zero 23,
      Zero 30, Zero 37, Zero 24, Zero 31, Zero 38, Zero 25, Zero 32,
      Zero 39, Zero 26, Zero 33, Zero 40, Zero 27, Zero 34, Zero 41,
      SetToStationaryDistribution 25 None,
      SetToStationaryDistribution 27 None] =
        concat (map (\<lambda>i. [Zero (plv_index example_dag R_HAT i), Zero (plv_index example_dag R i),
                            Zero (plv_index example_dag R_TILDE i)])
                  [0..<length (dag_nodes example_dag)]) @
        map (\<lambda>rootsplit. SetToStationaryDistribution
                            (plv_index example_dag R_HAT (root_index example_dag rootsplit)) None)
          (rootsplits example_dag)"
  using SetZero_operations [of example_dag] example_SetLeafwardZero by simp

text \<open>
  Claim C7 as stated fails: node 0 of the example DAG is a node of the DAG (a fake leaf),
  its P buffer has flat index 0, and \<open>SetRootwardZero\<close> emits no \<open>Zero\<close> for it.
\<close>

theorem SetRootwardZero_skips_leaves_counterexample:
  "GPDAG_of example_trees = Inr example_dag \<and>
   0 < length (dag_nodes example_dag) \<and>
   GetPLVIndex example_dag P 0 = Inr 0 \<and>
   SetRootwardZero example_dag =
     Inr [Zero 3, Zero 10, Zero 17, Zero 4, Zero 11, Zero 18, Zero 5, Zero 12,
          Zero 19, Zero 6, Zero 13, Zero 20] \<and>
   Zero 0 \<notin> set [Zero 3, Zero 10, Zero 17, Zero 4, Zero 11, Zero 18, Zero 5, Zero 12,
          Zero 19, Zero 6, Zero 13, Zero 20]"
  by (intro conjI; code_simp)


section \<open>Rootsplit operations\<close>

definition root_id :: "GPDAG \<Rightarrow> nat \<Rightarrow> nat" where
  "root_id dag rootsplit_idx = root_index dag (rootsplits dag ! rootsplit_idx)"

definition marginal_likelihood_op :: "GPDAG \<Rightarrow> nat \<Rightarrow> GPOperation" where
  "marginal_likelihood_op dag rootsplit_idx =
     IncrementMarginalLikelihood (plv_index dag R_HAT (root_id dag rootsplit_idx)) rootsplit_idx
       (plv_index dag P (root_id dag rootsplit_idx))"

fun carries_rootsplit_index :: "GPOperation \<Rightarrow> bool" where
  "carries_rootsplit_index (IncrementMarginalLikelihood r_hat rootsplit_idx p) = True"
| "carries_rootsplit_index (SetToStationaryDistribution dest rootsplit_idx) = True"
| "carries_rootsplit_index _ = False"

lemma MarginalLikelihood_eq:
  assumes "MarginalLikelihood dag = Inr ops"
  shows "ops = map (marginal_likelihood_op dag) [0..<length (rootsplits dag)]"
  by (rule for_each_singletons[OF assms[unfolded MarginalLikelihood_def]])
     (auto simp: bind_err_eq_Inr Let_def marginal_likelihood_op_def root_id_def
        dest: map_at_root_index)

lemma SetRhatToStationary_eq:
  assumes "SetRhatToStationary dag = Inr ops"
  shows "ops = map (\<lambda>i. SetToStationaryDistribution (plv_index dag R_HAT (root_id dag i)) (Some i))
                 [0..<length (rootsplits dag)]"
  by (rule for_each_singletons[OF assms[unfolded SetRhatToStationary_def]])
     (auto simp: bind_err_eq_Inr Let_def root_id_def dest: map_at_root_index)

lemma SBNParameterOptimization_rootsplit_eq:
  assumes "SBNParameterOptimization_rootsplit dag i (V, acc) = Inr (V', ops)"
  shows "\<exists>seg. ScheduleSBNParametersOptimization dag (root_id dag i) V = Inr (V', seg) \<and>
               ops = acc @ seg @ [marginal_likelihood_op dag i]"
  using assms
  by (auto simp: SBNParameterOptimization_rootsplit_def Let_def bind_err_eq_Inr root_id_def
      marginal_likelihood_op_def dest!: map_at_root_index)

lemma SBNParameterOptimization_fold:
  assumes "fold_err (SBNParameterOptimization_rootsplit dag) idxs (V, acc) = Inr (V', ops)"
  shows "\<exists>segs Vs. length segs = length idxs \<and> length Vs = Suc (length idxs) \<and>
           Vs ! 0 = V \<and> Vs ! length idxs = V' \<and>
           (\<forall>k<length idxs.
               ScheduleSBNParametersOptimization dag (root_id dag (idxs ! k)) (Vs ! k)
                 = Inr (Vs ! Suc k, segs ! k)) \<and>
           ops = acc @ concat (map (\<lambda>k. segs ! k @ [marginal_likelihood_op dag (idxs ! k)])
                                [0..<length idxs])"
  using assms
proof (induction idxs arbitrary: V acc)
  case Nil
  then show ?case by (intro exI[of _ "[]"] exI[of _ "[V]"]) simp
next
  case (Cons i idxs)
  from Cons.prems obtain st where
    a: "SBNParameterOptimization_rootsplit dag i (V, acc) = Inr st" and
    b: "fold_err (SBNParameterOptimization_rootsplit dag) idxs st = Inr (V', ops)"
    by (auto simp: bind_err_eq_Inr)
  obtain V1 acc1 where st: "st = (V1, acc1)" by (cases st)
  from SBNParameterOptimization_rootsplit_eq[OF a[unfolded st]] obtain seg where
    s: "ScheduleSBNParametersOptimization dag (root_id dag i) V = Inr (V1, seg)" and
    acc1: "acc1 = acc @ seg @ [marginal_likelihood_op dag i]" by blast
  from Cons.IH[OF b[unfolded st]] obtain segs Vs where
    l: "length segs = length idxs" and lv: "length Vs = Suc (length idxs)" and
    v0: "Vs ! 0 = V1" and vl: "Vs ! length idxs = V'" and
    sc: "\<forall>k<length idxs.
               ScheduleSBNParametersOptimization dag (root_id dag (idxs ! k)) (Vs ! k)
                 = Inr (Vs ! Suc k, segs ! k)" and
    o: "ops = acc1 @ concat (map (\<lambda>k. segs ! k @ [marginal_likelihood_op dag (idxs ! k)])
                                [0..<length idxs])" by blast
  have m: "map (\<lambda>k. (seg # segs) ! k @ [marginal_likelihood_op dag ((i # idxs) ! k)])
             [0..<length (i # idxs)]
        = (seg @ [marginal_likelihood_op dag i]) #
          map (\<lambda>k. segs ! k @ [marginal_likelihood_op dag (idxs ! k)]) [0..<length idxs]"
    by (simp add: upt_conv_Cons map_Suc_upt[symmetric] del: upt_Suc)
  show ?case
  proof (intro exI[of _ "seg # segs"] exI[of _ "V # Vs"] conjI allI impI)
    show "length (seg # segs) = length (i # idxs)" using l by simp
  next
    show "length (V # Vs) = Suc (length (i # idxs))" using lv by simp
  next
    show "(V # Vs) ! 0 = V" by simp
  next
    show "(V # Vs) ! length (i # idxs) = V'" using vl by simp
  next
    fix k assume "k < length (i # idxs)"
    then show "ScheduleSBNParametersOptimization dag (root_id dag ((i # idxs) ! k)) ((V # Vs) ! k)
        = Inr ((V # Vs) ! Suc k, (seg # segs) ! k)"
      using s sc v0 by (cases k) auto
  next
    show "ops = acc @ concat (map (\<lambda>k. (seg # segs) ! k @ [marginal_likelihood_op dag ((i # idxs) ! k)])
                                [0..<length (i # idxs)])"
      unfolding m using o acc1 by simp
  qed
qed

text \<open>
  Claim C6, as amended. \<open>SBNParameterOptimization\<close> runs the recursive scheduling pass
  once per rootsplit, in order, each run started at that rootsplit's root node with the
  set of visited nodes the previous runs left (the empty set for the first); the vector it
  returns is, for each rootsplit in order, the operations of that run immediately followed
  by the rootsplit's \<open>IncrementMarginalLikelihood\<close>, and after the last rootsplit one
  final \<open>UpdateSBNProbabilities\<close> over \<open>[0, R)\<close>.
\<close>

theorem SBNParameterOptimization_structure:
  assumes "SBNParameterOptimization dag = Inr ops"
  shows "\<exists>segs Vs. length segs = length (rootsplits dag) \<and>
           length Vs = Suc (length (rootsplits dag)) \<and> Vs ! 0 = {} \<and>
           (\<forall>k<length (rootsplits dag).
               ScheduleSBNParametersOptimization dag (root_id dag k) (Vs ! k)
                 = Inr (Vs ! Suc k, segs ! k)) \<and>
           ops = concat (map (\<lambda>k. segs ! k @ [marginal_likelihood_op dag k])
                           [0..<length (rootsplits dag)])
                 @ [UpdateSBNProbabilities 0 (length (rootsplits dag))]"
proof -
  let ?R = "length (rootsplits dag)"
  from assms obtain V' ops' where
    f: "fold_err (SBNParameterOptimization_rootsplit dag) [0..<?R] ({}, []) = Inr (V', ops')" and
    o: "ops = ops' @ [UpdateSBNProbabilities 0 ?R]"
    by (auto simp: SBNParameterOptimization_def bind_err_eq_Inr)
  from SBNParameterOptimization_fold[OF f] obtain segs Vs where
    l: "length segs = ?R" and lv: "length Vs = Suc ?R" and v0: "Vs ! 0 = {}" and
    sc: "\<forall>k<?R. ScheduleSBNParametersOptimization dag (root_id dag ([0..<?R] ! k)) (Vs ! k)
                 = Inr (Vs ! Suc k, segs ! k)" and
    e: "ops' = concat (map (\<lambda>k. segs ! k @ [marginal_likelihood_op dag ([0..<?R] ! k)]) [0..<?R])"
    by auto
  have m: "map (\<lambda>k. segs ! k @ [marginal_likelihood_op dag ([0..<?R] ! k)]) [0..<?R]
      = map (\<lambda>k. segs ! k @ [marginal_likelihood_op dag k]) [0..<?R]"
    by (rule map_cong) simp_all
  from sc have sc': "\<forall>k<?R. ScheduleSBNParametersOptimization dag (root_id dag k) (Vs ! k)
                 = Inr (Vs ! Suc k, segs ! k)" by simp
  show ?thesis
  proof (intro exI[of _ segs] exI[of _ Vs] conjI)
    show "ops = concat (map (\<lambda>k. segs ! k @ [marginal_likelihood_op dag k]) [0..<?R])
                 @ [UpdateSBNProbabilities 0 ?R]"
      using e o unfolding m by simp
  qed (use l lv v0 sc' in simp_all)
qed


section \<open>The shape of a scheduled node\<close>

text \<open>What \<open>OptimizeSBNParameters\<close> pushes: it never fails.\<close>

definition range_update_ops :: "GPDAG \<Rightarrow> Bitset \<Rightarrow> GPOperationVector" where
  "range_update_ops dag subsplit =
     (case fmlookup (subsplit_to_range dag) subsplit of
        Some (start, stop) \<Rightarrow>
          if (of_nat stop - of_nat start :: size_t) > 1
          then [UpdateSBNProbabilities start stop] else []
      | None \<Rightarrow> [])"

lemma OptimizeSBNParameters_eq:
  "OptimizeSBNParameters dag subsplit = Inr (range_update_ops dag subsplit)"
  by (auto simp: OptimizeSBNParameters_def range_update_ops_def split: option.splits)

lemma ScheduleBranchLengthOptimization_unfold:
  assumes "ScheduleBranchLengthOptimization dag node_id V = Inr res"
  shows "\<exists>node ops0. vector_at (dag_nodes dag) node_id = Inr node \<and>
           Schedule_nonroot_block dag node node_id = Inr ops0 \<and>
           (if IsLeaf dag node then res = (insert node_id V, ops0)
            else \<exists>V1 ops1 V2 ops2.
              ScheduleBranchLengthOptimization_children dag node_id False (leafward_sorted node) (insert node_id V)
                = Inr (V1, ops1) \<and>
              ScheduleBranchLengthOptimization_children dag node_id True (leafward_rotated node) V1 = Inr (V2, ops2) \<and>
              res = (V2, ops0 @ [Zero (plv_index dag P_HAT node_id)] @ ops1 @
                      [Multiply (plv_index dag R_TILDE node_id) (plv_index dag R_HAT node_id)
                         (plv_index dag P_HAT node_id),
                       Zero (plv_index dag P_HAT_TILDE node_id)] @ ops2 @
                      [Multiply (plv_index dag R node_id) (plv_index dag R_HAT node_id)
                         (plv_index dag P_HAT_TILDE node_id),
                       Multiply (plv_index dag P node_id) (plv_index dag P_HAT node_id)
                         (plv_index dag P_HAT_TILDE node_id)]))"
proof -
  from assms obtain node ops0 where
    nd: "vector_at (dag_nodes dag) node_id = Inr node" and
    b0: "Schedule_nonroot_block dag node node_id = Inr ops0"
    by (auto simp: ScheduleBranchLengthOptimization.simps bind_err_eq_Inr)
  show ?thesis
  proof (cases "IsLeaf dag node")
    case True
    with assms nd b0 show ?thesis by (auto simp: ScheduleBranchLengthOptimization.simps)
  next
    case False
    with assms nd b0 show ?thesis
      by (auto simp: ScheduleBranchLengthOptimization.simps bind_err_eq_Inr OptimizeSBNParameters_eq split: prod.splits)
  qed
qed

lemma ScheduleBranchLengthOptimization_children_unfold:
  assumes "ScheduleBranchLengthOptimization_children dag node_id rotated (child_id # rest) V = Inr res"
  shows "\<exists>V1 ops1 ops2 V2 ops3.
           (if child_id \<notin> V then ScheduleBranchLengthOptimization dag child_id V = Inr (V1, ops1)
            else (V1, ops1) = (V, [])) \<and>
           OptimizeBranchLengthUpdatePHat dag node_id child_id rotated = Inr ops2 \<and>
           ScheduleBranchLengthOptimization_children dag node_id rotated rest V1 = Inr (V2, ops3) \<and>
           res = (V2, ops1 @ ops2 @ ops3)"
  using assms by (auto simp: bind_err_eq_Inr split: if_splits prod.splits)

lemma ScheduleSBNParametersOptimization_unfold:
  assumes "ScheduleSBNParametersOptimization dag node_id V = Inr res"
  shows "\<exists>node ops0. vector_at (dag_nodes dag) node_id = Inr node \<and>
           Schedule_nonroot_block dag node node_id = Inr ops0 \<and>
           (if IsLeaf dag node then res = (insert node_id V, ops0)
            else \<exists>V1 ops1 V2 ops2.
              ScheduleSBNParametersOptimization_children dag node_id False (leafward_sorted node) (insert node_id V)
                = Inr (V1, ops1) \<and>
              ScheduleSBNParametersOptimization_children dag node_id True (leafward_rotated node) V1 = Inr (V2, ops2) \<and>
              res = (V2, ops0 @ [Zero (plv_index dag P_HAT node_id)] @ ops1 @ range_update_ops dag (bitset node) @
                      [Multiply (plv_index dag R_TILDE node_id) (plv_index dag R_HAT node_id)
                         (plv_index dag P_HAT node_id),
                       Zero (plv_index dag P_HAT_TILDE node_id)] @ ops2 @
                      range_update_ops dag (RotateSubsplit (bitset node)) @
                      [Multiply (plv_index dag R node_id) (plv_index dag R_HAT node_id)
                         (plv_index dag P_HAT_TILDE node_id),
                       Multiply (plv_index dag P node_id) (plv_index dag P_HAT node_id)
                         (plv_index dag P_HAT_TILDE node_id)]))"
proof -
  from assms obtain node ops0 where
    nd: "vector_at (dag_nodes dag) node_id = Inr node" and
    b0: "Schedule_nonroot_block dag node node_id = Inr ops0"
    by (auto simp: ScheduleSBNParametersOptimization.simps bind_err_eq_Inr)
  show ?thesis
  proof (cases "IsLeaf dag node")
    case True
    with assms nd b0 show ?thesis by (auto simp: ScheduleSBNParametersOptimization.simps)
  next
    case False
    with assms nd b0 show ?thesis
      by (auto simp: ScheduleSBNParametersOptimization.simps bind_err_eq_Inr OptimizeSBNParameters_eq split: prod.splits)
  qed
qed

lemma ScheduleSBNParametersOptimization_children_unfold:
  assumes "ScheduleSBNParametersOptimization_children dag node_id rotated (child_id # rest) V = Inr res"
  shows "\<exists>V1 ops1 ops2 V2 ops3.
           (if child_id \<notin> V then ScheduleSBNParametersOptimization dag child_id V = Inr (V1, ops1)
            else (V1, ops1) = (V, [])) \<and>
           UpdatePHatComputeLikelihood dag node_id child_id rotated = Inr ops2 \<and>
           ScheduleSBNParametersOptimization_children dag node_id rotated rest V1 = Inr (V2, ops3) \<and>
           res = (V2, ops1 @ ops2 @ ops3)"
  using assms by (auto simp: bind_err_eq_Inr split: if_splits prod.splits)

definition example_sbn_operations :: GPOperationVector where
  "example_sbn_operations =
     [Zero 11, Zero 24, EvolvePLVWeightedBySBNParameter 24 4 32,
      Multiply 31 24 17, Multiply 38 24 10, Zero 10, Zero 21,
      EvolvePLVWeightedBySBNParameter 21 2 31,
      EvolvePLVWeightedBySBNParameter 21 6 33, Multiply 28 21 14,
      Multiply 35 21 7, EvolvePLVWeightedBySBNParameter 10 2 0,
      Likelihood 2 31 0, Multiply 38 24 10, Zero 17, Zero 22,
      EvolvePLVWeightedBySBNParameter 22 3 38,
      EvolvePLVWeightedBySBNParameter 22 9 41, Multiply 29 22 15,
      Multiply 36 22 8, EvolvePLVWeightedBySBNParameter 17 3 1,
      Likelihood 3 38 1, Multiply 31 24 17, Multiply 3 10 17,
      EvolvePLVWeightedBySBNParameter 11 4 3, Likelihood 4 32 3,
      Multiply 39 25 11, Zero 18, Zero 23,
      EvolvePLVWeightedBySBNParameter 23 5 39,
      EvolvePLVWeightedBySBNParameter 23 7 40, Multiply 30 23 16,
      Multiply 37 23 9, EvolvePLVWeightedBySBNParameter 18 5 2,
      Likelihood 5 39 2, Multiply 32 25 18, Multiply 4 11 18,
      IncrementMarginalLikelihood 25 0 4, Zero 13, Zero 26,
      EvolvePLVWeightedBySBNParameter 26 8 34, Multiply 33 26 19,
      Multiply 40 26 12, Zero 12, EvolvePLVWeightedBySBNParameter 12 6 0,
      Likelihood 6 33 0, Multiply 40 26 12, Zero 19,
      EvolvePLVWeightedBySBNParameter 19 7 2, Likelihood 7 40 2,
      Multiply 33 26 19, Multiply 5 12 19,
      EvolvePLVWeightedBySBNParameter 13 8 5, Likelihood 8 34 5,
      Multiply 41 27 13, Zero 20, EvolvePLVWeightedBySBNParameter 20 9 1,
      Likelihood 9 41 1, Multiply 34 27 20, Multiply 6 13 20,
      IncrementMarginalLikelihood 27 1 6, UpdateSBNProbabilities 0 2]"

lemma example_SBNParameterOptimization:
  "SBNParameterOptimization example_dag = Inr example_sbn_operations"
  by code_simp

lemma example_schedule_second_root:
  "ScheduleSBNParametersOptimization example_dag 6 {0, 1, 2, 3, 4} =
     Inr ({0, 1, 2, 3, 4, 5, 6}, take 22 (drop 38 example_sbn_operations))"
  by code_simp

lemma example_schedule_first_root:
  "ScheduleSBNParametersOptimization example_dag 4 {} =
     Inr ({0, 1, 2, 3, 4}, take 37 example_sbn_operations)"
  by code_simp

lemma example_root_ids: "root_id example_dag 0 = 4" "root_id example_dag 1 = 6"
  "length (rootsplits example_dag) = 2"
  by code_simp+

theorem SBNParameterOptimization_structure_witness:
  "SBNParameterOptimization example_dag = Inr example_sbn_operations \<and>
   ScheduleSBNParametersOptimization example_dag 4 {} =
     Inr ({0, 1, 2, 3, 4}, take 37 example_sbn_operations) \<and>
   ScheduleSBNParametersOptimization example_dag 6 {0, 1, 2, 3, 4} =
     Inr ({0, 1, 2, 3, 4, 5, 6}, take 22 (drop 38 example_sbn_operations)) \<and>
   (\<exists>segs Vs. length segs = length (rootsplits example_dag) \<and>
           length Vs = Suc (length (rootsplits example_dag)) \<and> Vs ! 0 = {} \<and>
           (\<forall>k<length (rootsplits example_dag).
               ScheduleSBNParametersOptimization example_dag (root_id example_dag k) (Vs ! k)
                 = Inr (Vs ! Suc k, segs ! k)) \<and>
           example_sbn_operations =
             concat (map (\<lambda>k. segs ! k @ [marginal_likelihood_op example_dag k])
                           [0..<length (rootsplits example_dag)])
                 @ [UpdateSBNProbabilities 0 (length (rootsplits example_dag))])"
  using SBNParameterOptimization_structure [OF example_SBNParameterOptimization]
    example_SBNParameterOptimization example_schedule_first_root example_schedule_second_root
  by blast

text \<open>
  Claim C6 as stated fails: with two rootsplits, the three last operations are not two
  \<open>IncrementMarginalLikelihood\<close> and the final update; the marginal-likelihood operation
  of rootsplit 0 stands at position 37, before the whole scheduling pass of rootsplit 1,
  whose first operation follows it.
\<close>

theorem SBNParameterOptimization_interleaved_counterexample:
  "GPDAG_of example_trees = Inr example_dag \<and>
   SBNParameterOptimization example_dag = Inr example_sbn_operations \<and>
   length (rootsplits example_dag) = 2 \<and>
   drop (length example_sbn_operations - 3) example_sbn_operations =
     [Multiply 6 13 20, IncrementMarginalLikelihood 27 1 6, UpdateSBNProbabilities 0 2] \<and>
   take 2 (drop 37 example_sbn_operations) = [IncrementMarginalLikelihood 25 0 4, Zero 13]"
  by (intro conjI; code_simp)

section \<open>The PCSP indexer\<close>

lemma fold_err_invariant:
  assumes "fold_err f xs s = Inr s'" "I s"
    and "\<And>x s s'. x \<in> set xs \<Longrightarrow> I s \<Longrightarrow> f x s = Inr s' \<Longrightarrow> I s'"
  shows "I s'"
  using assms by (induction xs arbitrary: s) (auto simp: bind_err_eq_Inr)


text \<open>
  \<open>appended m idx ks m'\<close>: the map \<open>m'\<close> is \<open>m\<close> with the fresh, distinct keys \<open>ks\<close>
  inserted at the consecutive indices \<open>idx, idx + 1, ...\<close>.
\<close>

definition appended :: "('k, nat) fmap \<Rightarrow> nat \<Rightarrow> 'k list \<Rightarrow> ('k, nat) fmap \<Rightarrow> bool" where
  "appended m idx ks m' \<longleftrightarrow>
     distinct ks \<and> (\<forall>k\<in>set ks. fmlookup m k = None) \<and>
     (\<forall>j<length ks. fmlookup m' (ks ! j) = Some (idx + j)) \<and>
     (\<forall>k. k \<notin> set ks \<longrightarrow> fmlookup m' k = fmlookup m k)"

lemma appended_Nil [simp]: "appended m idx [] m"
  by (simp add: appended_def)

lemma appended_SafeInsert:
  "SafeInsert m k idx = Inr m' \<Longrightarrow> appended m idx [k] m'"
  by (auto simp: appended_def SafeInsert_def split: option.splits)

lemma appended_append:
  assumes "appended m idx ks m1" "appended m1 (idx + length ks) ks' m2"
  shows "appended m idx (ks @ ks') m2"
proof -
  have disj: "set ks \<inter> set ks' = {}"
  proof (rule ccontr)
    assume "set ks \<inter> set ks' \<noteq> {}"
    then obtain k where k: "k \<in> set ks" "k \<in> set ks'" by auto
    from k(1) obtain j where "j < length ks" "ks ! j = k" by (auto simp: in_set_conv_nth)
    with assms(1) have "fmlookup m1 k = Some (idx + j)" by (auto simp: appended_def)
    moreover from k(2) assms(2) have "fmlookup m1 k = None" by (auto simp: appended_def)
    ultimately show False by simp
  qed
  have "\<forall>j<length (ks @ ks'). fmlookup m2 ((ks @ ks') ! j) = Some (idx + j)"
  proof (intro allI impI)
    fix j assume j: "j < length (ks @ ks')"
    show "fmlookup m2 ((ks @ ks') ! j) = Some (idx + j)"
    proof (cases "j < length ks")
      case True
      then have "ks ! j \<in> set ks" by simp
      with disj have "ks ! j \<notin> set ks'" by auto
      with assms(2) have "fmlookup m2 (ks ! j) = fmlookup m1 (ks ! j)" by (simp add: appended_def)
      with assms(1) True show ?thesis by (simp add: appended_def nth_append)
    next
      case False
      with j have "j - length ks < length ks'" by simp
      with assms(2) have "fmlookup m2 (ks' ! (j - length ks)) = Some (idx + length ks + (j - length ks))"
        by (simp add: appended_def)
      with False show ?thesis by (simp add: nth_append)
    qed
  qed
  moreover have "\<forall>k\<in>set (ks @ ks'). fmlookup m k = None"
  proof
    fix k assume "k \<in> set (ks @ ks')"
    then consider "k \<in> set ks" | "k \<in> set ks'" "k \<notin> set ks" by auto
    then show "fmlookup m k = None"
    proof cases
      case 1
      with assms(1) show ?thesis by (simp add: appended_def)
    next
      case 2
      from 2(1) assms(2) have "fmlookup m1 k = None" by (simp add: appended_def)
      moreover from 2(2) assms(1) have "fmlookup m1 k = fmlookup m k"
        by (simp add: appended_def)
      ultimately show ?thesis by simp
    qed
  qed
  moreover have "\<forall>k. k \<notin> set (ks @ ks') \<longrightarrow> fmlookup m2 k = fmlookup m k"
    using assms by (simp add: appended_def)
  moreover have "distinct (ks @ ks')" using assms disj by (simp add: appended_def)
  ultimately show ?thesis unfolding appended_def by blast
qed

lemma appended_lookup:
  assumes "appended m idx ks m'"
  shows "fmlookup m' k = (if k \<in> set ks then Some (idx + (THE j. j < length ks \<and> ks ! j = k))
                          else fmlookup m k)"
proof (cases "k \<in> set ks")
  case True
  then obtain j where j: "j < length ks" "ks ! j = k" by (auto simp: in_set_conv_nth)
  from assms have d: "distinct ks" by (simp add: appended_def)
  have "(THE j. j < length ks \<and> ks ! j = k) = j"
    using j d by (auto simp: nth_eq_iff_index_eq)
  with assms j True show ?thesis by (auto simp: appended_def)
next
  case False
  with assms show ?thesis by (simp add: appended_def)
qed

lemma appended_dom:
  assumes "appended m idx ks m'"
  shows "fmdom' m' = fmdom' m \<union> set ks"
proof (rule set_eqI)
  fix k
  show "k \<in> fmdom' m' \<longleftrightarrow> k \<in> fmdom' m \<union> set ks"
  proof (cases "k \<in> set ks")
    case True
    then obtain j where j: "j < length ks" "ks ! j = k" by (auto simp: in_set_conv_nth)
    with assms have "fmlookup m' k = Some (idx + j)" by (auto simp: appended_def)
    with True show ?thesis by (auto simp: fmdom'I)
  next
    case False
    with assms have "fmlookup m' k = fmlookup m k" by (simp add: appended_def)
    with False show ?thesis by (simp add: fmlookup_dom'_iff)
  qed
qed

text \<open>The fields the indexer pass leaves alone.\<close>

definition same_graph :: "GPDAG \<Rightarrow> GPDAG \<Rightarrow> bool" where
  "same_graph d d' \<longleftrightarrow>
     dag_nodes d' = dag_nodes d \<and> taxon_count d' = taxon_count d \<and>
     rootsplits d' = rootsplits d \<and> subsplit_to_index d' = subsplit_to_index d \<and>
     parent_to_range d' = parent_to_range d \<and> index_to_child d' = index_to_child d \<and>
     rootsplit_and_pcsp_count d' = rootsplit_and_pcsp_count d"

lemma same_graph_refl [simp]: "same_graph d d"
  by (simp add: same_graph_def)

lemma same_graph_trans: "same_graph d d1 \<Longrightarrow> same_graph d1 d2 \<Longrightarrow> same_graph d d2"
  by (simp add: same_graph_def)

lemma fold_err_appended:
  assumes step: "\<And>x idx d idx' d'. f x (idx, d) = Inr (idx', d') \<Longrightarrow>
            idx' = idx + length (K d x) \<and> same_graph d d' \<and>
            appended (gpcsp_indexer d) idx (K d x) (gpcsp_indexer d')"
    and inv: "\<And>d d' x. same_graph d d' \<Longrightarrow> K d' x = K d x"
    and run: "fold_err f xs (idx, d) = Inr (idx', d')"
  shows "idx' = idx + length (concat (map (K d) xs)) \<and> same_graph d d' \<and>
         appended (gpcsp_indexer d) idx (concat (map (K d) xs)) (gpcsp_indexer d')"
  using run
proof (induction xs arbitrary: idx d)
  case Nil
  then show ?case by simp
next
  case (Cons x xs)
  from Cons.prems obtain st where
    a: "f x (idx, d) = Inr st" and b: "fold_err f xs st = Inr (idx', d')"
    by (auto simp: bind_err_eq_Inr)
  obtain idx1 d1 where st: "st = (idx1, d1)" by (cases st)
  from step[OF a[unfolded st]] have s1: "idx1 = idx + length (K d x)" "same_graph d d1"
    "appended (gpcsp_indexer d) idx (K d x) (gpcsp_indexer d1)" by auto
  from Cons.IH[OF b[unfolded st]] have s2: "idx' = idx1 + length (concat (map (K d1) xs))"
    "same_graph d1 d'" "appended (gpcsp_indexer d1) idx1 (concat (map (K d1) xs)) (gpcsp_indexer d')"
    by auto
  have k: "map (K d1) xs = map (K d) xs" using inv[OF s1(2)] by simp
  from s1 s2 show ?case
    unfolding k by (auto intro: same_graph_trans appended_append)
qed

definition node_pcsp_keys :: "GPDAG \<Rightarrow> GPDAGNode \<Rightarrow> Bitset list" where
  "node_pcsp_keys dag node =
     map (\<lambda>c. Bitset_plus (bitset node) (bitset (dag_nodes dag ! c))) (leafward_sorted node) @
     map (\<lambda>c. Bitset_plus (RotateSubsplit (bitset node)) (bitset (dag_nodes dag ! c)))
       (leafward_rotated node)"

definition pcsp_keys :: "GPDAG \<Rightarrow> Bitset list" where
  "pcsp_keys dag =
     map root_subsplit (rootsplits dag) @
     concat (map (node_pcsp_keys dag) (drop (taxon_count dag) (dag_nodes dag)))"

lemma BuildPCSPIndexer_rootsplit_step:
  assumes "BuildPCSPIndexer_rootsplit rootsplit (idx, d) = Inr (idx', d')"
  shows "idx' = idx + length [root_subsplit rootsplit] \<and> same_graph d d' \<and>
         appended (gpcsp_indexer d) idx [root_subsplit rootsplit] (gpcsp_indexer d')"
  using assms
  by (auto simp: BuildPCSPIndexer_rootsplit_def bind_err_eq_Inr same_graph_def
      intro: appended_SafeInsert)

lemma BuildPCSPIndexer_child_step:
  assumes "BuildPCSPIndexer_child pb c (idx, d) = Inr (idx', d')"
  shows "idx' = idx + length [Bitset_plus pb (bitset (dag_nodes d ! c))] \<and> same_graph d d' \<and>
         appended (gpcsp_indexer d) idx [Bitset_plus pb (bitset (dag_nodes d ! c))]
           (gpcsp_indexer d')"
  using assms
  by (auto simp: BuildPCSPIndexer_child_def bind_err_eq_Inr same_graph_def vector_at_def
      intro: appended_SafeInsert split: if_splits)

lemma concat_map_singleton: "concat (map (\<lambda>x. [g x]) xs) = map g xs"
  by (induction xs) simp_all

lemma BuildPCSPIndexer_block_step:
  assumes "BuildPCSPIndexer_block pb cs (idx, d) = Inr (idx', d')"
  shows "idx' = idx + length cs \<and> same_graph d d' \<and>
         appended (gpcsp_indexer d) idx
           (map (\<lambda>c. Bitset_plus pb (bitset (dag_nodes d ! c))) cs) (gpcsp_indexer d')"
proof (cases "cs = []")
  case True
  with assms show ?thesis by (simp add: BuildPCSPIndexer_block_def)
next
  case False
  with assms obtain m where
    f: "fold_err (BuildPCSPIndexer_child pb) cs (idx, d\<lparr>subsplit_to_range := m\<rparr>) = Inr (idx', d')"
    by (auto simp: BuildPCSPIndexer_block_def Let_def bind_err_eq_Inr)
  let ?d = "d\<lparr>subsplit_to_range := m\<rparr>"
  have "idx' = idx + length (concat (map (\<lambda>c. [Bitset_plus pb (bitset (dag_nodes ?d ! c))]) cs))
      \<and> same_graph ?d d' \<and>
      appended (gpcsp_indexer ?d) idx
        (concat (map (\<lambda>c. [Bitset_plus pb (bitset (dag_nodes ?d ! c))]) cs)) (gpcsp_indexer d')"
    by (rule fold_err_appended[where K = "\<lambda>d c. [Bitset_plus pb (bitset (dag_nodes d ! c))]", OF _ _ f])
       (auto dest: BuildPCSPIndexer_child_step simp: same_graph_def)
  then show ?thesis by (simp add: concat_map_singleton same_graph_def)
qed

lemma BuildPCSPIndexer_node_step:
  assumes "BuildPCSPIndexer_node node (idx, d) = Inr (idx', d')"
  shows "idx' = idx + length (node_pcsp_keys d node) \<and> same_graph d d' \<and>
         appended (gpcsp_indexer d) idx (node_pcsp_keys d node) (gpcsp_indexer d')"
proof -
  from assms obtain st where
    a: "BuildPCSPIndexer_block (bitset node) (leafward_sorted node) (idx, d) = Inr st" and
    b: "BuildPCSPIndexer_block (RotateSubsplit (bitset node)) (leafward_rotated node) st
          = Inr (idx', d')"
    by (auto simp: BuildPCSPIndexer_node_def bind_err_eq_Inr)
  obtain idx1 d1 where st: "st = (idx1, d1)" by (cases st)
  note s1 = BuildPCSPIndexer_block_step[OF a[unfolded st]]
  note s2 = BuildPCSPIndexer_block_step[OF b[unfolded st]]
  from s1 have n: "dag_nodes d1 = dag_nodes d" by (simp add: same_graph_def)
  from s1 s2 show ?thesis
    unfolding node_pcsp_keys_def n
    by (auto intro: same_graph_trans appended_append)
qed

lemma BuildPCSPIndexer_result:
  assumes "BuildPCSPIndexer d = Inr d'"
  shows "same_graph d d' \<and> taxon_count d < length (dag_nodes d) \<and>
         appended (gpcsp_indexer d) 0 (pcsp_keys d) (gpcsp_indexer d')"
proof -
  from assms obtain st idx' where
    a: "fold_err BuildPCSPIndexer_rootsplit (rootsplits d) (0, d) = Inr st" and
    b: "IterateOverRealNodes (snd st) BuildPCSPIndexer_node st = Inr (idx', d')"
    by (auto simp: BuildPCSPIndexer_def bind_err_eq_Inr)
  obtain idx1 d1 where st: "st = (idx1, d1)" by (cases st)
  have s1: "idx1 = 0 + length (concat (map (\<lambda>r. [root_subsplit r]) (rootsplits d))) \<and>
      same_graph d d1 \<and>
      appended (gpcsp_indexer d) 0 (concat (map (\<lambda>r. [root_subsplit r]) (rootsplits d)))
        (gpcsp_indexer d1)"
    by (rule fold_err_appended[where K = "\<lambda>d r. [root_subsplit r]", OF _ _ a[unfolded st]])
       (auto dest: BuildPCSPIndexer_rootsplit_step)
  from b st have t: "taxon_count d1 < length (dag_nodes d1)" and
    c: "fold_err BuildPCSPIndexer_node (drop (taxon_count d1) (dag_nodes d1)) (idx1, d1)
          = Inr (idx', d')"
    by (auto simp: IterateOverRealNodes_def split: if_splits)
  have s2: "idx' = idx1 + length (concat (map (node_pcsp_keys d1) (drop (taxon_count d1) (dag_nodes d1))))
      \<and> same_graph d1 d' \<and>
      appended (gpcsp_indexer d1) idx1
        (concat (map (node_pcsp_keys d1) (drop (taxon_count d1) (dag_nodes d1)))) (gpcsp_indexer d')"
    by (rule fold_err_appended[where K = node_pcsp_keys, OF _ _ c])
       (auto dest: BuildPCSPIndexer_node_step simp: node_pcsp_keys_def same_graph_def)
  from s1 have g: "dag_nodes d1 = dag_nodes d" "taxon_count d1 = taxon_count d"
    by (simp_all add: same_graph_def)
  have k: "node_pcsp_keys d1 = node_pcsp_keys d"
    by (rule ext) (simp add: node_pcsp_keys_def g)
  from s1 s2 t show ?thesis
    unfolding pcsp_keys_def k g
    by (auto simp: concat_map_singleton intro: same_graph_trans appended_append)
qed


section \<open>What each construction step leaves alone\<close>

definition harvest_fields ::
  "GPDAG \<Rightarrow> nat \<times> Bitset list \<times> (Bitset, nat \<times> nat) fmap \<times> (nat, Bitset) fmap \<times> nat" where
  "harvest_fields d =
     (taxon_count d, rootsplits d, parent_to_range d, index_to_child d, rootsplit_and_pcsp_count d)"

definition index_fields :: "GPDAG \<Rightarrow> (Bitset, nat) fmap \<times> (Bitset, nat \<times> nat) fmap" where
  "index_fields d = (gpcsp_indexer d, subsplit_to_range d)"

definition node_fields :: "GPDAG \<Rightarrow> (Bitset, nat) fmap \<times> GPDAGNode list" where
  "node_fields d = (subsplit_to_index d, dag_nodes d)"

lemma same_graph_fields:
  "same_graph d d' \<longleftrightarrow> harvest_fields d' = harvest_fields d \<and> node_fields d' = node_fields d"
  by (auto simp: same_graph_def harvest_fields_def node_fields_def)

subsection \<open>ProcessTrees\<close>

text \<open>The (parent, child subsplit) pairs of the PCSS counter.\<close>

definition harvested :: "RootedTreeCollection \<Rightarrow> (Bitset \<times> Bitset) set" where
  "harvested tc = {(p, c). \<exists>cs. (p, cs) \<in> set (PCSSCounterOf tc) \<and> c \<in> set cs}"

lemma ProcessTrees_child_eq:
  "ProcessTrees_child c (idx, d) =
     bind_err (SafeInsert (index_to_child d) idx c) (\<lambda>m. Inr (idx + 1, d\<lparr>index_to_child := m\<rparr>))"
  by (simp add: ProcessTrees_child_def)

lemma ProcessTrees_children_result:
  assumes "fold_err ProcessTrees_child cs (idx, d) = Inr (idx', d')"
  shows "idx' = idx + length cs \<and>
         (\<forall>i. fmlookup (index_to_child d') i =
                (if idx \<le> i \<and> i < idx + length cs then Some (cs ! (i - idx))
                 else fmlookup (index_to_child d) i)) \<and>
         parent_to_range d' = parent_to_range d \<and> taxon_count d' = taxon_count d \<and>
         rootsplits d' = rootsplits d \<and>
         index_fields d' = index_fields d \<and> node_fields d' = node_fields d"
  using assms
proof (induction cs arbitrary: idx d)
  case Nil
  then show ?case by auto
next
  case (Cons c cs)
  from Cons.prems obtain m where
    m: "SafeInsert (index_to_child d) idx c = Inr m" and
    b: "fold_err ProcessTrees_child cs (idx + 1, d\<lparr>index_to_child := m\<rparr>) = Inr (idx', d')"
    by (auto simp: bind_err_eq_Inr ProcessTrees_child_eq)
  from m have m': "m = fmupd idx c (index_to_child d)"
    by (auto simp: SafeInsert_def split: option.splits)
  note ih = Cons.IH[OF b]
  have "\<forall>i. fmlookup (index_to_child d') i =
                (if idx \<le> i \<and> i < idx + length (c # cs) then Some ((c # cs) ! (i - idx))
                 else fmlookup (index_to_child d) i)"
  proof
    fix i
    show "fmlookup (index_to_child d') i =
                (if idx \<le> i \<and> i < idx + length (c # cs) then Some ((c # cs) ! (i - idx))
                 else fmlookup (index_to_child d) i)"
    proof (cases "i = idx")
      case True
      with ih m' show ?thesis by simp
    next
      case False
      then have "(c # cs) ! (i - idx) = cs ! (i - (idx + 1))" if "idx \<le> i"
      proof -
        from that False have "i - idx = Suc (i - (idx + 1))" by simp
        then show ?thesis by simp
      qed
      with ih m' False show ?thesis by auto
    qed
  qed
  with ih show ?case by (simp add: index_fields_def node_fields_def)
qed

text \<open>
  After the loop over the parents: every index in use is below the running index, and
  every range of \<open>parent_to_range_\<close> holds children of its parent only.
\<close>

definition ProcessTrees_inv :: "(Bitset \<times> Bitset) set \<Rightarrow> nat \<times> GPDAG \<Rightarrow> bool" where
  "ProcessTrees_inv H st \<longleftrightarrow>
     (case st of (index, d) \<Rightarrow>
        (\<forall>i c. fmlookup (index_to_child d) i = Some c \<longrightarrow> i < index \<and> c \<in> snd ` H) \<and>
        (\<forall>p a b. fmlookup (parent_to_range d) p = Some (a, b) \<longrightarrow>
            b \<le> index \<and>
            (\<forall>i c. a \<le> i \<and> i < b \<and> fmlookup (index_to_child d) i = Some c \<longrightarrow> (p, c) \<in> H)))"

lemma ProcessTrees_parent_inv:
  assumes "ProcessTrees_parent (p, cs) st = Inr st'" "ProcessTrees_inv H st"
    "\<And>c. c \<in> set cs \<Longrightarrow> (p, c) \<in> H"
  shows "ProcessTrees_inv H st'"
proof -
  obtain index d where st: "st = (index, d)" by (cases st)
  obtain index' d' where st': "st' = (index', d')" by (cases st')
  from assms(1) st st' obtain m where
    m: "SafeInsert (parent_to_range d) p (index, index + length cs) = Inr m" and
    f: "fold_err ProcessTrees_child cs (index, d\<lparr>parent_to_range := m\<rparr>) = Inr (index', d')"
    by (auto simp: ProcessTrees_parent_def bind_err_eq_Inr)
  from m have m': "m = fmupd p (index, index + length cs) (parent_to_range d)"
    by (auto simp: SafeInsert_def split: option.splits)
  note r = ProcessTrees_children_result[OF f]
  from r have r1: "index' = index + length cs"
    and r2: "\<And>i. fmlookup (index_to_child d') i =
                (if index \<le> i \<and> i < index + length cs then Some (cs ! (i - index))
                 else fmlookup (index_to_child d) i)"
    and r3: "parent_to_range d' = m" by simp_all
  from assms(2) st have i1: "\<And>i c. fmlookup (index_to_child d) i = Some c \<Longrightarrow> i < index"
    and i1': "\<And>i c. fmlookup (index_to_child d) i = Some c \<Longrightarrow> c \<in> snd ` H"
    and i2: "\<And>q a b. fmlookup (parent_to_range d) q = Some (a, b) \<Longrightarrow> b \<le> index"
    and i3: "\<And>q a b i c. fmlookup (parent_to_range d) q = Some (a, b) \<Longrightarrow> a \<le> i \<Longrightarrow> i < b \<Longrightarrow>
               fmlookup (index_to_child d) i = Some c \<Longrightarrow> (q, c) \<in> H"
    by (auto simp: ProcessTrees_inv_def)
  have a: "\<forall>i c. fmlookup (index_to_child d') i = Some c \<longrightarrow> i < index' \<and> c \<in> snd ` H"
  proof (intro allI impI)
    fix i c assume l: "fmlookup (index_to_child d') i = Some c"
    show "i < index' \<and> c \<in> snd ` H"
    proof (cases "index \<le> i \<and> i < index + length cs")
      case True
      with l r2[of i] have "c = cs ! (i - index)" "i - index < length cs" by auto
      then have "c \<in> set cs" by simp
      with assms(3) have "(p, c) \<in> H" by simp
      then have "c \<in> snd ` H" by force
      with True r1 show ?thesis by simp
    next
      case False
      with l r2[of i] have "fmlookup (index_to_child d) i = Some c" by simp
      from i1[OF this] i1'[OF this] r1 show ?thesis by simp
    qed
  qed
  have b: "\<forall>q a b. fmlookup (parent_to_range d') q = Some (a, b) \<longrightarrow>
            b \<le> index' \<and>
            (\<forall>i c. a \<le> i \<and> i < b \<and> fmlookup (index_to_child d') i = Some c \<longrightarrow> (q, c) \<in> H)"
  proof (intro allI impI)
    fix q a b assume q: "fmlookup (parent_to_range d') q = Some (a, b)"
    show "b \<le> index' \<and>
            (\<forall>i c. a \<le> i \<and> i < b \<and> fmlookup (index_to_child d') i = Some c \<longrightarrow> (q, c) \<in> H)"
    proof (cases "q = p")
      case True
      with q r3 m' have ab: "a = index" "b = index + length cs" by auto
      have "(q, c) \<in> H" if "a \<le> i" "i < b" "fmlookup (index_to_child d') i = Some c" for i c
      proof -
        from that ab r2[of i] have "c = cs ! (i - index)" "i - index < length cs" by auto
        then have "c \<in> set cs" by simp
        with assms(3) True show ?thesis by simp
      qed
      with ab r1 show ?thesis by auto
    next
      case False
      with q r3 m' have q': "fmlookup (parent_to_range d) q = Some (a, b)" by auto
      from i2[OF q'] have bi: "b \<le> index" .
      have "(q, c) \<in> H" if "a \<le> i" "i < b" "fmlookup (index_to_child d') i = Some c" for i c
      proof -
        from that bi r2[of i] have "fmlookup (index_to_child d) i = Some c" by auto
        from i3[OF q' that(1,2) this] show ?thesis .
      qed
      with bi r1 show ?thesis by auto
    qed
  qed
  from a b st' show ?thesis by (simp add: ProcessTrees_inv_def)
qed

lemma ProcessTrees_parent_frame:
  assumes "ProcessTrees_parent e (idx, d) = Inr (idx', d')"
  shows "taxon_count d' = taxon_count d \<and> rootsplits d' = rootsplits d \<and>
         index_fields d' = index_fields d \<and> node_fields d' = node_fields d"
proof -
  obtain p cs where e: "e = (p, cs)" by (cases e)
  from assms e obtain m where
    f: "fold_err ProcessTrees_child cs (idx, d\<lparr>parent_to_range := m\<rparr>) = Inr (idx', d')"
    by (auto simp: ProcessTrees_parent_def bind_err_eq_Inr)
  from ProcessTrees_children_result[OF f] show ?thesis
    by (simp add: index_fields_def node_fields_def)
qed

lemma ProcessTrees_result:
  assumes "ProcessTrees tc empty_GPDAG = Inr d"
  shows "taxon_count d = TaxonCount tc \<and> rootsplits d = RootsplitCounterOf tc \<and>
         index_fields d = (fmempty, fmempty) \<and> node_fields d = (fmempty, []) \<and>
         (\<forall>p a b i c. fmlookup (parent_to_range d) p = Some (a, b) \<and> a \<le> i \<and> i < b \<and>
              fmlookup (index_to_child d) i = Some c \<longrightarrow> (p, c) \<in> harvested tc) \<and>
         fmran' (index_to_child d) \<subseteq> snd ` harvested tc"
proof -
  let ?d0 = "empty_GPDAG\<lparr>taxon_count := TaxonCount tc\<rparr>"
  let ?d1 = "?d0\<lparr>rootsplits := rootsplits ?d0 @ RootsplitCounterOf tc\<rparr>"
  from assms obtain index d' where
    f: "fold_err ProcessTrees_parent (PCSSCounterOf tc) (length (RootsplitCounterOf tc), ?d1)
          = Inr (index, d')" and
    d: "d = d'\<lparr>rootsplit_and_pcsp_count := index\<rparr>"
    by (auto simp: ProcessTrees_def Let_def bind_err_eq_Inr)
  have fr: "taxon_count (snd (index, d')) = TaxonCount tc \<and>
      rootsplits (snd (index, d')) = RootsplitCounterOf tc \<and>
      index_fields (snd (index, d')) = (fmempty, fmempty) \<and>
      node_fields (snd (index, d')) = (fmempty, [])"
    by (rule fold_err_invariant[OF f])
       (auto simp: empty_GPDAG_def index_fields_def node_fields_def
          dest!: ProcessTrees_parent_frame)
  have "ProcessTrees_inv (harvested tc) (index, d')"
  proof (rule fold_err_invariant[OF f])
    show "ProcessTrees_inv (harvested tc) (length (RootsplitCounterOf tc), ?d1)"
      by (simp add: ProcessTrees_inv_def empty_GPDAG_def)
  next
    fix e st st'
    assume e: "e \<in> set (PCSSCounterOf tc)" and i: "ProcessTrees_inv (harvested tc) st"
      and s: "ProcessTrees_parent e st = Inr st'"
    obtain p cs where pc: "e = (p, cs)" by (cases e)
    show "ProcessTrees_inv (harvested tc) st'"
      by (rule ProcessTrees_parent_inv[OF s[unfolded pc] i]) (use e pc in \<open>auto simp: harvested_def\<close>)
  qed
  then have inv1: "\<And>i c. fmlookup (index_to_child d') i = Some c \<Longrightarrow> c \<in> snd ` harvested tc"
    and inv2: "\<And>p a b i c. fmlookup (parent_to_range d') p = Some (a, b) \<Longrightarrow> a \<le> i \<Longrightarrow> i < b \<Longrightarrow>
              fmlookup (index_to_child d') i = Some c \<Longrightarrow> (p, c) \<in> harvested tc"
    unfolding ProcessTrees_inv_def by (simp, blast)+
  have "(\<forall>p a b i c. fmlookup (parent_to_range d') p = Some (a, b) \<and> a \<le> i \<and> i < b \<and>
              fmlookup (index_to_child d') i = Some c \<longrightarrow> (p, c) \<in> harvested tc)"
    using inv2 by blast
  moreover have "fmran' (index_to_child d') \<subseteq> snd ` harvested tc"
    using inv1 by (auto simp: fmran'_def)
  ultimately show ?thesis using fr d
    by (simp add: index_fields_def node_fields_def)
qed


subsection \<open>BuildNodes\<close>

definition bitsets :: "GPDAG \<Rightarrow> Bitset list" where
  "bitsets d = map bitset (dag_nodes d)"

text \<open>
  Before the edges are built every node is as \<open>CreateAndInsertNode\<close> made it, and
  \<open>subsplit_to_index_\<close> maps exactly the bitsets of the nodes to their positions.
\<close>

definition nodes_wf :: "GPDAG \<Rightarrow> bool" where
  "nodes_wf d \<longleftrightarrow>
     (\<forall>i<length (dag_nodes d). dag_nodes d ! i = new_GPDAGNode i (bitset (dag_nodes d ! i))) \<and>
     (\<forall>s i. fmlookup (subsplit_to_index d) s = Some i \<longleftrightarrow>
              i < length (dag_nodes d) \<and> bitset (dag_nodes d ! i) = s)"

lemma length_bitsets [simp]: "length (bitsets d) = length (dag_nodes d)"
  by (simp add: bitsets_def)

lemma nth_bitsets: "i < length (dag_nodes d) \<Longrightarrow> bitsets d ! i = bitset (dag_nodes d ! i)"
  by (simp add: bitsets_def)

lemma nodes_wf_lookup:
  "nodes_wf d \<Longrightarrow> fmlookup (subsplit_to_index d) s = Some i \<longleftrightarrow>
     i < length (dag_nodes d) \<and> bitsets d ! i = s"
  by (auto simp: nodes_wf_def nth_bitsets)

lemma nodes_wf_dom: "nodes_wf d \<Longrightarrow> fmdom' (subsplit_to_index d) = set (bitsets d)"
  by (auto simp: fmlookup_dom'_iff nodes_wf_lookup in_set_conv_nth)

lemma nodes_wf_distinct:
  assumes "nodes_wf d"
  shows "distinct (bitsets d)"
proof -
  have "i = j" if "i < length (bitsets d)" "j < length (bitsets d)" "bitsets d ! i = bitsets d ! j"
    for i j
  proof -
    from that assms have "fmlookup (subsplit_to_index d) (bitsets d ! j) = Some i"
      "fmlookup (subsplit_to_index d) (bitsets d ! j) = Some j"
      by (simp_all add: nodes_wf_lookup)
    then show ?thesis by simp
  qed
  then show ?thesis by (auto simp: distinct_conv_nth)
qed

lemma CreateAndInsertNode_result:
  assumes "CreateAndInsertNode s d = Inr d'" "nodes_wf d"
  shows "nodes_wf d' \<and> bitsets d' = bitsets d @ [s] \<and> s \<notin> set (bitsets d) \<and>
         dag_nodes d' = dag_nodes d @ [new_GPDAGNode (length (dag_nodes d)) s] \<and>
         harvest_fields d' = harvest_fields d \<and> index_fields d' = index_fields d"
proof -
  from assms(1) have n: "fmlookup (subsplit_to_index d) s = None"
    and d': "d' = d\<lparr>subsplit_to_index := fmupd s (length (dag_nodes d)) (subsplit_to_index d),
                     dag_nodes := dag_nodes d @ [new_GPDAGNode (length (dag_nodes d)) s]\<rparr>"
    by (auto simp: CreateAndInsertNode_def Let_def bind_err_eq_Inr SafeInsert_def
        split: option.splits)
  from fmdom'_notI[OF n] have notin: "s \<notin> set (bitsets d)"
    unfolding nodes_wf_dom[OF assms(2)] .
  have b: "bitsets d' = bitsets d @ [s]"
    by (simp add: d' bitsets_def new_GPDAGNode_def)
  have w1: "\<forall>i<length (dag_nodes d'). dag_nodes d' ! i = new_GPDAGNode i (bitset (dag_nodes d' ! i))"
    using assms(2) by (auto simp: d' nodes_wf_def nth_append new_GPDAGNode_def)
  have w2: "\<forall>t i. fmlookup (subsplit_to_index d') t = Some i \<longleftrightarrow>
              i < length (dag_nodes d') \<and> bitset (dag_nodes d' ! i) = t"
  proof (intro allI)
    fix t i
    show "fmlookup (subsplit_to_index d') t = Some i \<longleftrightarrow>
              i < length (dag_nodes d') \<and> bitset (dag_nodes d' ! i) = t"
    proof (cases "t = s")
      case True
      have "bitset (dag_nodes d ! i) \<noteq> s" if "i < length (dag_nodes d)"
        using that notin by (auto simp: bitsets_def)
      with True show ?thesis
        by (auto simp: d' nth_append new_GPDAGNode_def)
    next
      case False
      with assms(2) show ?thesis
        by (auto simp: d' nodes_wf_def nth_append new_GPDAGNode_def)
    qed
  qed
  from w1 w2 b notin show ?thesis
    by (simp add: nodes_wf_def d' harvest_fields_def index_fields_def)
qed

lemma GetChildrenSubsplits_cong:
  assumes "harvest_fields d' = harvest_fields d"
  shows "GetChildrenSubsplits d' s b = GetChildrenSubsplits d s b"
proof -
  from assms have a: "parent_to_range d' = parent_to_range d"
    and b: "index_to_child d' = index_to_child d"
    by (simp_all add: harvest_fields_def)
  show ?thesis unfolding GetChildrenSubsplits_def a b ..
qed

text \<open>The harvested children of a subsplit and of its rotation.\<close>

definition kids :: "GPDAG \<Rightarrow> Bitset \<Rightarrow> Bitset set" where
  "kids d s =
     {c. \<exists>cs. (GetChildrenSubsplits d s False = Inr cs \<or>
               GetChildrenSubsplits d (RotateSubsplit s) False = Inr cs) \<and> c \<in> set cs}"

lemma kids_cong:
  assumes "harvest_fields d' = harvest_fields d"
  shows "kids d' = kids d"
  unfolding kids_def GetChildrenSubsplits_cong[OF assms] ..

lemma kids_eq:
  assumes "GetChildrenSubsplits d s False = Inr cs1"
    "GetChildrenSubsplits d (RotateSubsplit s) False = Inr cs2"
  shows "kids d s = set cs1 \<union> set cs2"
  using assms by (auto simp: kids_def)

lemma kids_ran: "kids d s \<subseteq> fmran' (index_to_child d)"
proof
  fix c assume "c \<in> kids d s"
  then obtain cs t where "GetChildrenSubsplits d t False = Inr cs" "c \<in> set cs"
    unfolding kids_def by blast
  with GetChildrenSubsplits_ran show "c \<in> fmran' (index_to_child d)" by blast
qed

definition count_bits :: "Bitset \<Rightarrow> nat" where
  "count_bits b = length (filter id b)"

lemma count_bits_RotateSubsplit [simp]: "count_bits (RotateSubsplit b) = count_bits b"
proof -
  let ?h = "length b div 2"
  have "length (filter id b) = length (filter id (take ?h b @ drop ?h b))"
    by (simp only: append_take_drop_id)
  also have "\<dots> = length (filter id (take ?h b)) + length (filter id (drop ?h b))"
    by (simp only: filter_append length_append)
  finally have "count_bits b = length (filter id (take ?h b)) + length (filter id (drop ?h b))"
    by (simp only: count_bits_def)
  moreover have "count_bits (RotateSubsplit b)
      = length (filter id (drop ?h b)) + length (filter id (take ?h b))"
    by (simp only: RotateSubsplit_def count_bits_def filter_append length_append)
  ultimately show ?thesis by simp
qed

definition ranked :: "GPDAG \<Rightarrow> bool" where
  "ranked d \<longleftrightarrow> (\<forall>s c. c \<in> kids d s \<longrightarrow> count_bits c < count_bits s)"

lemma ranked_cong:
  assumes "harvest_fields d' = harvest_fields d"
  shows "ranked d' = ranked d"
  unfolding ranked_def kids_cong[OF assms] ..

text \<open>Post-order: the harvested children of a non-fake node were all created before it.\<close>

definition postorder :: "GPDAG \<Rightarrow> bool" where
  "postorder d \<longleftrightarrow>
     (\<forall>i. taxon_count d \<le> i \<and> i < length (dag_nodes d) \<longrightarrow>
          kids d (bitsets d ! i) \<subseteq> set (take i (bitsets d)))"

lemma postorder_extend:
  assumes "postorder d" "harvest_fields d' = harvest_fields d" "bitsets d' = bitsets d @ [s]"
    "kids d s \<subseteq> set (bitsets d)" 
  shows "postorder d'"
  unfolding postorder_def
proof (intro allI impI)
  fix i assume i: "taxon_count d' \<le> i \<and> i < length (dag_nodes d')"
  from assms(2) have t: "taxon_count d' = taxon_count d" by (simp add: harvest_fields_def)
  from assms(3) have l: "length (dag_nodes d') = Suc (length (dag_nodes d))"
    by (metis length_append_singleton length_bitsets)
  show "kids d' (bitsets d' ! i) \<subseteq> set (take i (bitsets d'))"
  proof (cases "i < length (dag_nodes d)")
    case True
    with assms(1) i t have "kids d (bitsets d ! i) \<subseteq> set (take i (bitsets d))"
      by (simp add: postorder_def)
    with True assms(3) show ?thesis by (simp add: kids_cong[OF assms(2)] nth_append)
  next
    case False
    with i l have "i = length (dag_nodes d)" by simp
    with assms(3,4) show ?thesis by (simp add: kids_cong[OF assms(2)] nth_append)
  qed
qed


definition build_inv :: "GPDAG \<Rightarrow> bool" where
  "build_inv d \<longleftrightarrow>
     nodes_wf d \<and> taxon_count d \<le> length (dag_nodes d) \<and> ranked d \<and> postorder d"

text \<open>
  What a call of \<open>BuildNodesDepthFirst\<close> on \<open>s\<close> does: it appends the new subsplits \<open>L\<close>
  and then \<open>s\<close> itself, marks exactly these visited, and every new subsplit is a harvested
  child of a new one.
\<close>

definition node_built ::
  "Bitset \<Rightarrow> Bitset set \<times> GPDAG \<Rightarrow> Bitset set \<times> GPDAG \<Rightarrow> Bitset list \<Rightarrow> bool" where
  "node_built s st st' L \<longleftrightarrow>
     bitsets (snd st') = bitsets (snd st) @ L @ [s] \<and>
     fst st' = fst st \<union> set L \<union> {s} \<and>
     build_inv (snd st') \<and>
     harvest_fields (snd st') = harvest_fields (snd st) \<and>
     index_fields (snd st') = index_fields (snd st) \<and>
     set L \<subseteq> fmran' (index_to_child (snd st)) \<and>
     (\<forall>x\<in>set L. \<exists>y\<in>set (L @ [s]). x \<in> kids (snd st) y)"

definition children_built ::
  "Bitset list \<Rightarrow> Bitset set \<times> GPDAG \<Rightarrow> Bitset set \<times> GPDAG \<Rightarrow> Bitset list \<Rightarrow> bool" where
  "children_built cs st st' L \<longleftrightarrow>
     bitsets (snd st') = bitsets (snd st) @ L \<and>
     fst st' = fst st \<union> set L \<and>
     set cs \<subseteq> set (bitsets (snd st')) \<and>
     build_inv (snd st') \<and>
     harvest_fields (snd st') = harvest_fields (snd st) \<and>
     index_fields (snd st') = index_fields (snd st) \<and>
     set L \<subseteq> set cs \<union> fmran' (index_to_child (snd st)) \<and>
     (\<forall>x\<in>set L. x \<in> set cs \<or> (\<exists>y\<in>set L. x \<in> kids (snd st) y))"

lemma BuildNodesDepthFirst_spec:
  "BuildNodesDepthFirst s st = Inr st' \<Longrightarrow> build_inv (snd st) \<Longrightarrow>
     (\<forall>x\<in>fst st - set (bitsets (snd st)). count_bits s < count_bits x) \<Longrightarrow>
     \<exists>L. node_built s st st' L"
  "BuildNodesDepthFirst_children cs st2 = Inr st2' \<Longrightarrow> build_inv (snd st2) \<Longrightarrow>
     (\<forall>c\<in>set cs. count_bits c < r) \<Longrightarrow>
     (\<forall>x\<in>fst st2 - set (bitsets (snd st2)). r \<le> count_bits x) \<Longrightarrow>
     \<exists>L. children_built cs st2 st2' L"
proof (induct s st and cs st2 arbitrary: st' and st2' r
    rule: BuildNodesDepthFirst_BuildNodesDepthFirst_children.induct)
  case (1 s V d)
  from 1(3) obtain cs1 st1 cs2 st2 d3 where
    c1: "GetChildrenSubsplits d s False = Inr cs1" and
    l1: "BuildNodesDepthFirst_children cs1 (insert s V, d) = Inr st1" and
    c2: "GetChildrenSubsplits (snd st1) (RotateSubsplit s) False = Inr cs2" and
    l2: "BuildNodesDepthFirst_children cs2 st1 = Inr st2" and
    cr: "CreateAndInsertNode s (snd st2) = Inr d3" and v: "st' = (fst st2, d3)"
    by (auto simp: BuildNodesDepthFirst.simps bind_err_eq_Inr split: prod.splits)
  from 1(4) have inv: "build_inv d" by simp
  then have rk: "ranked d" by (simp add: build_inv_def)
  have k1: "\<forall>c\<in>set cs1. count_bits c < count_bits s"
    using rk c1 by (auto simp: ranked_def kids_def)
  have ip0: "count_bits s \<le> count_bits x" if "x \<in> insert s V" "x \<notin> set (bitsets d)" for x
  proof (cases "x = s")
    case True
    then show ?thesis by simp
  next
    case False
    with that have "x \<in> fst (V, d) - set (bitsets (snd (V, d)))" by simp
    with 1(5) have "count_bits s < count_bits x" by blast
    then show ?thesis by simp
  qed
  then have ip1: "\<forall>x\<in>fst (insert s V, d) - set (bitsets (snd (insert s V, d))). count_bits s \<le> count_bits x"
    by simp
  from 1(1)[OF c1 l1 _ k1 ip1] inv obtain L1 where
    b1: "children_built cs1 (insert s V, d) st1 L1" by auto
  then have h1: "harvest_fields (snd st1) = harvest_fields d"
    and inv1: "build_inv (snd st1)"
    and bs1: "bitsets (snd st1) = bitsets d @ L1"
    and v1: "fst st1 = insert s V \<union> set L1"
    by (simp_all add: children_built_def)
  from c2 have c2': "GetChildrenSubsplits d (RotateSubsplit s) False = Inr cs2"
    by (simp only: GetChildrenSubsplits_cong[OF h1])
  have k2: "\<forall>c\<in>set cs2. count_bits c < count_bits s"
    using rk c2' by (auto simp: ranked_def kids_def)
  have ip2: "\<forall>x\<in>fst st1 - set (bitsets (snd st1)). count_bits s \<le> count_bits x"
    using ip0 v1 bs1 by auto
  have e: "(fst st1, snd st1) = st1" by simp
  from 1(2)[OF c1 l1 e c2, of st2 "count_bits s"] l2 inv1 k2 ip2 obtain L2 where
    b2: "children_built cs2 st1 st2 L2" by auto
  then have h2: "harvest_fields (snd st2) = harvest_fields (snd st1)"
    and inv2: "build_inv (snd st2)"
    and bs2: "bitsets (snd st2) = bitsets (snd st1) @ L2"
    and v2: "fst st2 = fst st1 \<union> set L2"
    by (simp_all add: children_built_def)
  from inv2 have wf2: "nodes_wf (snd st2)" by (simp add: build_inv_def)
  note c = CreateAndInsertNode_result[OF cr wf2]
  have hd: "harvest_fields (snd st2) = harvest_fields d" using h1 h2 by simp
  have h3: "harvest_fields d3 = harvest_fields d" using c hd by simp
  have kd: "kids d s = set cs1 \<union> set cs2" by (rule kids_eq[OF c1 c2'])
  have "set cs1 \<subseteq> set (bitsets (snd st1))" using b1 unfolding children_built_def by blast
  moreover have "set cs2 \<subseteq> set (bitsets (snd st2))" using b2 unfolding children_built_def by blast
  ultimately have ks: "kids (snd st2) s \<subseteq> set (bitsets (snd st2))"
    unfolding kids_cong[OF hd] kd using bs2 by auto
  have po3: "postorder d3"
    by (rule postorder_extend[where d = "snd st2" and s = s])
       (use inv2 c ks in \<open>simp_all add: build_inv_def\<close>)
  have inv3: "build_inv d3"
    using c inv2 po3 ranked_cong[of d3 "snd st2"]
    by (auto simp: build_inv_def harvest_fields_def)
  have ran1: "set L1 \<subseteq> fmran' (index_to_child d)"
  proof -
    from b1 have "set L1 \<subseteq> set cs1 \<union> fmran' (index_to_child d)"
      by (simp add: children_built_def)
    with GetChildrenSubsplits_ran[OF c1] show ?thesis by auto
  qed
  have ran2: "set L2 \<subseteq> fmran' (index_to_child d)"
  proof -
    from b2 have "set L2 \<subseteq> set cs2 \<union> fmran' (index_to_child (snd st1))"
      by (simp add: children_built_def)
    moreover from h1 have "index_to_child (snd st1) = index_to_child d"
      by (simp add: harvest_fields_def)
    ultimately show ?thesis using GetChildrenSubsplits_ran[OF c2'] by auto
  qed
  have reach: "\<forall>x\<in>set (L1 @ L2). \<exists>y\<in>set ((L1 @ L2) @ [s]). x \<in> kids d y"
  proof
    fix x assume "x \<in> set (L1 @ L2)"
    then consider "x \<in> set L1" | "x \<in> set L2" by auto
    then show "\<exists>y\<in>set ((L1 @ L2) @ [s]). x \<in> kids d y"
    proof cases
      case 1
      with b1 have "x \<in> set cs1 \<or> (\<exists>y\<in>set L1. x \<in> kids d y)"
        by (simp add: children_built_def)
      with kd show ?thesis by auto
    next
      case 2
      with b2 have "x \<in> set cs2 \<or> (\<exists>y\<in>set L2. x \<in> kids (snd st1) y)"
        by (simp add: children_built_def)
      with kd show ?thesis unfolding kids_cong[OF h1] by auto
    qed
  qed
  have "node_built s (V, d) st' (L1 @ L2)"
    unfolding node_built_def
    using c bs1 bs2 v v1 v2 inv3 h3 ran1 ran2 reach b1 b2
    by (auto simp: children_built_def)
  then show ?case by blast
next
  case (2 st)
  then have "children_built [] st st2' []"
    by (auto simp: children_built_def)
  then show ?case by blast
next
  case (3 c rest V d)
  from 3(5) have inv: "build_inv d" by simp
  show ?case
  proof (cases "c \<in> V")
    case True
    with 3(4) have l: "BuildNodesDepthFirst_children rest (V, d) = Inr st2'" by simp
    from 3(6) have kr: "\<forall>c\<in>set rest. count_bits c < r" by simp
    from 3(1)[OF True l 3(5) kr 3(7)] obtain L where
      b: "children_built rest (V, d) st2' L" by blast
    have "c \<in> set (bitsets d)"
    proof (rule ccontr)
      assume "c \<notin> set (bitsets d)"
      with True 3(7) have "r \<le> count_bits c" by auto
      with 3(6) show False by auto
    qed
    with b have "children_built (c # rest) (V, d) st2' L"
      by (auto simp: children_built_def)
    then show ?thesis by blast
  next
    case False
    with 3(4) obtain st1 where
      d1: "BuildNodesDepthFirst c (V, d) = Inr st1" and
      d2: "BuildNodesDepthFirst_children rest st1 = Inr st2'"
      by (auto simp: bind_err_eq_Inr)
    have pc: "\<forall>x\<in>fst (V, d) - set (bitsets (snd (V, d))). count_bits c < count_bits x"
    proof
      fix x assume "x \<in> fst (V, d) - set (bitsets (snd (V, d)))"
      with 3(7) have "r \<le> count_bits x" by blast
      moreover from 3(6) have "count_bits c < r" by simp
      ultimately show "count_bits c < count_bits x" by simp
    qed
    from 3(2)[OF False d1 3(5) pc] obtain Lc where
      bc: "node_built c (V, d) st1 Lc" by blast
    then have h1: "harvest_fields (snd st1) = harvest_fields d"
      and inv1: "build_inv (snd st1)"
      and bs1: "bitsets (snd st1) = bitsets d @ Lc @ [c]"
      and v1: "fst st1 = V \<union> set Lc \<union> {c}"
      by (simp_all add: node_built_def)
    from 3(6) have kr: "\<forall>c\<in>set rest. count_bits c < r" by simp
    have ipr: "\<forall>x\<in>fst st1 - set (bitsets (snd st1)). r \<le> count_bits x"
      using 3(7) v1 bs1 by auto
    from 3(3)[OF False d1 d2 inv1 kr ipr] obtain Lr where
      br: "children_built rest st1 st2' Lr" by blast
    have i1: "index_to_child (snd st1) = index_to_child d"
      using h1 by (simp add: harvest_fields_def)
    have reach: "\<forall>x\<in>set (Lc @ [c] @ Lr). x \<in> set (c # rest) \<or>
        (\<exists>y\<in>set (Lc @ [c] @ Lr). x \<in> kids d y)"
    proof
      fix x assume "x \<in> set (Lc @ [c] @ Lr)"
      then consider "x \<in> set Lc" | "x = c" | "x \<in> set Lr" by auto
      then show "x \<in> set (c # rest) \<or> (\<exists>y\<in>set (Lc @ [c] @ Lr). x \<in> kids d y)"
      proof cases
        case 1
        with bc have "\<exists>y\<in>set (Lc @ [c]). x \<in> kids d y" by (simp add: node_built_def)
        then show ?thesis by auto
      next
        case 2
        then show ?thesis by simp
      next
        case 3
        with br have "x \<in> set rest \<or> (\<exists>y\<in>set Lr. x \<in> kids (snd st1) y)"
          by (simp add: children_built_def)
        then show ?thesis unfolding kids_cong[OF h1] by auto
      qed
    qed
    have "children_built (c # rest) (V, d) st2' (Lc @ [c] @ Lr)"
      unfolding children_built_def
      using bc br h1 i1 reach
      by (auto simp: children_built_def node_built_def)
    then show ?thesis by blast
  qed
qed


definition fake_subsplit :: "nat \<Rightarrow> nat \<Rightarrow> Bitset" where
  "fake_subsplit T i = Bitset_plus (Bitset_zero T) (Bitset_set (Bitset_zero T) i)"

lemma BuildNodes_fake_loop:
  assumes "fold_err
          (\<lambda>taxon_idx dag.
             let zero = Bitset_zero (taxon_count dag);
                 fake = Bitset_set (Bitset_zero (taxon_count dag)) taxon_idx;
                 fake_subsplit = Bitset_plus zero fake
             in CreateAndInsertNode fake_subsplit dag) idxs d = Inr d'"
    "nodes_wf d"
  shows "nodes_wf d' \<and> bitsets d' = bitsets d @ map (fake_subsplit (taxon_count d)) idxs \<and>
         harvest_fields d' = harvest_fields d \<and> index_fields d' = index_fields d"
  using assms
proof (induction idxs arbitrary: d)
  case Nil
  then show ?case by simp
next
  case (Cons i idxs)
  from Cons.prems(1) obtain d1 where
    a: "CreateAndInsertNode (fake_subsplit (taxon_count d) i) d = Inr d1" and
    b: "fold_err
          (\<lambda>taxon_idx dag.
             let zero = Bitset_zero (taxon_count dag);
                 fake = Bitset_set (Bitset_zero (taxon_count dag)) taxon_idx;
                 fake_subsplit = Bitset_plus zero fake
             in CreateAndInsertNode fake_subsplit dag) idxs d1 = Inr d'"
    by (auto simp: bind_err_eq_Inr Let_def fake_subsplit_def)
  note c = CreateAndInsertNode_result[OF a Cons.prems(2)]
  then have t: "taxon_count d1 = taxon_count d" by (simp add: harvest_fields_def)
  from Cons.IH[OF b] c show ?case by (simp add: t)
qed

text \<open>
  What the loop over the rootsplits of \<open>BuildNodes\<close> does: the new subsplits \<open>M\<close> are root
  subsplits or harvested children of new subsplits, and the root subsplits stand at
  increasing positions.
\<close>

definition roots_built ::
  "Bitset list \<Rightarrow> Bitset set \<times> GPDAG \<Rightarrow> Bitset set \<times> GPDAG \<Rightarrow> bool" where
  "roots_built rs st st' \<longleftrightarrow>
     build_inv (snd st') \<and> fst st' \<subseteq> set (bitsets (snd st')) \<and>
     harvest_fields (snd st') = harvest_fields (snd st) \<and>
     index_fields (snd st') = index_fields (snd st) \<and>
     (\<exists>M. bitsets (snd st') = bitsets (snd st) @ M \<and>
          set M \<subseteq> root_subsplit ` set rs \<union> fmran' (index_to_child (snd st)) \<and>
          (\<forall>x\<in>set M. x \<in> root_subsplit ` set rs \<or> (\<exists>y\<in>set M. x \<in> kids (snd st) y))) \<and>
     (\<exists>ps. length ps = length rs \<and> sorted_wrt (<) ps \<and>
          (\<forall>k<length rs. length (dag_nodes (snd st)) \<le> ps ! k \<and>
               ps ! k < length (dag_nodes (snd st')) \<and>
               bitsets (snd st') ! (ps ! k) = root_subsplit (rs ! k)))"

lemma BuildNodes_root_loop:
  assumes "fold_err (\<lambda>rootsplit. BuildNodesDepthFirst (root_subsplit rootsplit)) rs st = Inr st'"
    "build_inv (snd st)" "fst st \<subseteq> set (bitsets (snd st))"
  shows "roots_built rs st st'"
  using assms
proof (induction rs arbitrary: st)
  case Nil
  then show ?case by (simp add: roots_built_def)
next
  case (Cons r rs)
  from Cons.prems(1) obtain st1 where
    a: "BuildNodesDepthFirst (root_subsplit r) st = Inr st1" and
    b: "fold_err (\<lambda>rootsplit. BuildNodesDepthFirst (root_subsplit rootsplit)) rs st1 = Inr st'"
    by (auto simp: bind_err_eq_Inr)
  have ip: "\<forall>x\<in>fst st - set (bitsets (snd st)). count_bits (root_subsplit r) < count_bits x"
    using Cons.prems(3) by auto
  from BuildNodesDepthFirst_spec(1)[OF a Cons.prems(2) ip] obtain L where
    nb: "node_built (root_subsplit r) st st1 L" by blast
  then have bs1: "bitsets (snd st1) = bitsets (snd st) @ L @ [root_subsplit r]"
    and v1: "fst st1 = fst st \<union> set L \<union> {root_subsplit r}"
    and inv1: "build_inv (snd st1)"
    and h1: "harvest_fields (snd st1) = harvest_fields (snd st)"
    and x1: "index_fields (snd st1) = index_fields (snd st)"
    and ran1: "set L \<subseteq> fmran' (index_to_child (snd st))"
    and re1: "\<forall>x\<in>set L. \<exists>y\<in>set (L @ [root_subsplit r]). x \<in> kids (snd st) y"
    by (simp_all add: node_built_def)
  have vs1: "fst st1 \<subseteq> set (bitsets (snd st1))"
    using v1 bs1 Cons.prems(3) by auto
  from Cons.IH[OF b inv1 vs1] have rb: "roots_built rs st1 st'" .
  then obtain M ps where
    inv': "build_inv (snd st')" and vs': "fst st' \<subseteq> set (bitsets (snd st'))" and
    h': "harvest_fields (snd st') = harvest_fields (snd st1)" and
    x': "index_fields (snd st') = index_fields (snd st1)" and
    bs': "bitsets (snd st') = bitsets (snd st1) @ M" and
    ranM: "set M \<subseteq> root_subsplit ` set rs \<union> fmran' (index_to_child (snd st1))" and
    reM: "\<forall>x\<in>set M. x \<in> root_subsplit ` set rs \<or> (\<exists>y\<in>set M. x \<in> kids (snd st1) y)" and
    lps: "length ps = length rs" and sps: "sorted_wrt (<) ps" and
    pk: "\<forall>k<length rs. length (dag_nodes (snd st1)) \<le> ps ! k \<and>
               ps ! k < length (dag_nodes (snd st')) \<and>
               bitsets (snd st') ! (ps ! k) = root_subsplit (rs ! k)"
    unfolding roots_built_def by blast
  have i1: "index_to_child (snd st1) = index_to_child (snd st)"
    using h1 by (simp add: harvest_fields_def)
  let ?M = "L @ [root_subsplit r] @ M"
  let ?p = "length (dag_nodes (snd st)) + length L"
  have len1: "length (dag_nodes (snd st1)) = Suc ?p"
    using arg_cong[OF bs1, of length] by simp
  have len': "length (dag_nodes (snd st')) = Suc ?p + length M"
    using arg_cong[OF bs', of length] len1 by simp
  have m1: "bitsets (snd st') = bitsets (snd st) @ ?M" using bs1 bs' by simp
  have m2: "set ?M \<subseteq> root_subsplit ` set (r # rs) \<union> fmran' (index_to_child (snd st))"
    using ran1 ranM i1 by auto
  have m3: "\<forall>x\<in>set ?M. x \<in> root_subsplit ` set (r # rs) \<or> (\<exists>y\<in>set ?M. x \<in> kids (snd st) y)"
  proof
    fix x assume "x \<in> set ?M"
    then consider "x \<in> set L" | "x = root_subsplit r" | "x \<in> set M" by auto
    then show "x \<in> root_subsplit ` set (r # rs) \<or> (\<exists>y\<in>set ?M. x \<in> kids (snd st) y)"
    proof cases
      case 1
      with re1 show ?thesis by auto
    next
      case 2
      then show ?thesis by simp
    next
      case 3
      with reM have "x \<in> root_subsplit ` set rs \<or> (\<exists>y\<in>set M. x \<in> kids (snd st1) y)" by blast
      then show ?thesis unfolding kids_cong[OF h1] by auto
    qed
  qed
  have p0: "bitsets (snd st') ! ?p = root_subsplit r"
    using m1 by (simp add: nth_append)
  have p1: "sorted_wrt (<) (?p # ps)"
  proof -
    have "?p < q" if "q \<in> set ps" for q
    proof -
      from that obtain k where "k < length ps" "ps ! k = q" by (auto simp: in_set_conv_nth)
      with pk lps len1 show ?thesis by auto
    qed
    with sps show ?thesis by auto
  qed
  have p2: "\<forall>k<length (r # rs). length (dag_nodes (snd st)) \<le> (?p # ps) ! k \<and>
               (?p # ps) ! k < length (dag_nodes (snd st')) \<and>
               bitsets (snd st') ! ((?p # ps) ! k) = root_subsplit ((r # rs) ! k)"
  proof (intro allI impI)
    fix k assume k: "k < length (r # rs)"
    show "length (dag_nodes (snd st)) \<le> (?p # ps) ! k \<and>
               (?p # ps) ! k < length (dag_nodes (snd st')) \<and>
               bitsets (snd st') ! ((?p # ps) ! k) = root_subsplit ((r # rs) ! k)"
    proof (cases k)
      case 0
      with p0 len' show ?thesis by simp
    next
      case (Suc k')
      with k pk len1 show ?thesis by auto
    qed
  qed
  show ?case
    unfolding roots_built_def
  proof (intro conjI)
    show "\<exists>M. bitsets (snd st') = bitsets (snd st) @ M \<and>
          set M \<subseteq> root_subsplit ` set (r # rs) \<union> fmran' (index_to_child (snd st)) \<and>
          (\<forall>x\<in>set M. x \<in> root_subsplit ` set (r # rs) \<or> (\<exists>y\<in>set M. x \<in> kids (snd st) y))"
      using m1 m2 m3 by blast
    show "\<exists>ps. length ps = length (r # rs) \<and> sorted_wrt (<) ps \<and>
          (\<forall>k<length (r # rs). length (dag_nodes (snd st)) \<le> ps ! k \<and>
               ps ! k < length (dag_nodes (snd st')) \<and>
               bitsets (snd st') ! (ps ! k) = root_subsplit ((r # rs) ! k))"
      using p1 p2 lps by (intro exI[of _ "?p # ps"]) simp
  qed (use inv' vs' h' h1 x' x1 in simp_all)
qed


text \<open>The non-fake nodes after \<open>BuildNodes\<close>.\<close>

definition parented :: "GPDAG \<Rightarrow> bool" where
  "parented d \<longleftrightarrow>
     (\<forall>i. taxon_count d \<le> i \<and> i < length (dag_nodes d) \<longrightarrow>
          bitsets d ! i \<in> root_subsplit ` set (rootsplits d) \<or>
          (\<exists>j. taxon_count d \<le> j \<and> j < length (dag_nodes d) \<and>
               bitsets d ! i \<in> kids d (bitsets d ! j)))"

definition from_harvest :: "GPDAG \<Rightarrow> bool" where
  "from_harvest d \<longleftrightarrow>
     (\<forall>i. taxon_count d \<le> i \<and> i < length (dag_nodes d) \<longrightarrow>
          bitsets d ! i \<in> root_subsplit ` set (rootsplits d) \<union> fmran' (index_to_child d))"

definition roots_placed :: "GPDAG \<Rightarrow> bool" where
  "roots_placed d \<longleftrightarrow>
     (\<exists>ps. length ps = length (rootsplits d) \<and> sorted_wrt (<) ps \<and>
          (\<forall>k<length (rootsplits d). taxon_count d \<le> ps ! k \<and> ps ! k < length (dag_nodes d) \<and>
               bitsets d ! (ps ! k) = root_subsplit (rootsplits d ! k)))"

definition fakes_first :: "GPDAG \<Rightarrow> bool" where
  "fakes_first d \<longleftrightarrow>
     take (taxon_count d) (bitsets d) = map (fake_subsplit (taxon_count d)) [0..<taxon_count d]"

lemma BuildNodes_result:
  assumes "BuildNodes d = Inr d'" "node_fields d = (fmempty, [])" "ranked d"
  shows "build_inv d' \<and> harvest_fields d' = harvest_fields d \<and> index_fields d' = index_fields d \<and>
         fakes_first d' \<and> from_harvest d' \<and> parented d' \<and> roots_placed d'"
proof -
  let ?T = "taxon_count d"
  from assms(1) obtain dF V' where
    a: "fold_err
          (\<lambda>taxon_idx dag.
             let zero = Bitset_zero (taxon_count dag);
                 fake = Bitset_set (Bitset_zero (taxon_count dag)) taxon_idx;
                 fake_subsplit = Bitset_plus zero fake
             in CreateAndInsertNode fake_subsplit dag) [0..<?T] d = Inr dF" and
    b: "fold_err (\<lambda>rootsplit. BuildNodesDepthFirst (root_subsplit rootsplit))
          (rootsplits dF) ({}, dF) = Inr (V', d')"
    by (auto simp: BuildNodes_def bind_err_eq_Inr)
  from assms(2) have wf0: "nodes_wf d" and b0: "bitsets d = []"
    by (simp_all add: nodes_wf_def node_fields_def bitsets_def)
  from BuildNodes_fake_loop[OF a wf0] b0 have
    wfF: "nodes_wf dF" and bF: "bitsets dF = map (fake_subsplit ?T) [0..<?T]" and
    hF: "harvest_fields dF = harvest_fields d" and xF: "index_fields dF = index_fields d"
    by simp_all
  from hF have tF: "taxon_count dF = ?T" and rF: "rootsplits dF = rootsplits d"
    and iF: "index_to_child dF = index_to_child d"
    by (simp_all add: harvest_fields_def)
  have lF: "length (dag_nodes dF) = ?T"
    using arg_cong[OF bF, of length] by simp
  have invF: "build_inv dF"
    using wfF lF tF assms(3) ranked_cong[OF hF]
    by (auto simp: build_inv_def postorder_def)
  from BuildNodes_root_loop[OF b] invF have rb: "roots_built (rootsplits dF) ({}, dF) (V', d')"
    by simp
  then obtain M ps where
    inv': "build_inv d'" and
    h': "harvest_fields d' = harvest_fields dF" and
    x': "index_fields d' = index_fields dF" and
    bs': "bitsets d' = bitsets dF @ M" and
    ranM: "set M \<subseteq> root_subsplit ` set (rootsplits dF) \<union> fmran' (index_to_child dF)" and
    reM: "\<forall>x\<in>set M. x \<in> root_subsplit ` set (rootsplits dF) \<or> (\<exists>y\<in>set M. x \<in> kids dF y)" and
    lps: "length ps = length (rootsplits dF)" and sps: "sorted_wrt (<) ps" and
    pk: "\<forall>k<length (rootsplits dF). length (dag_nodes dF) \<le> ps ! k \<and>
               ps ! k < length (dag_nodes d') \<and>
               bitsets d' ! (ps ! k) = root_subsplit (rootsplits dF ! k)"
    unfolding roots_built_def by auto
  from h' hF have hd: "harvest_fields d' = harvest_fields d" by simp
  then have t': "taxon_count d' = ?T" and r': "rootsplits d' = rootsplits d"
    and i': "index_to_child d' = index_to_child d"
    by (simp_all add: harvest_fields_def)
  have len': "length (dag_nodes d') = ?T + length M"
    using arg_cong[OF bs', of length] lF by simp
  have nthM: "bitsets d' ! i = M ! (i - ?T)" if "?T \<le> i" for i
    using that bs' lF by (simp add: nth_append)
  have ff: "fakes_first d'"
    using bs' bF lF by (simp add: fakes_first_def t')
  have fh: "from_harvest d'"
    unfolding from_harvest_def
  proof (intro allI impI)
    fix i assume i: "taxon_count d' \<le> i \<and> i < length (dag_nodes d')"
    with t' len' have "M ! (i - ?T) \<in> set M" by auto
    with ranM nthM[of i] i t' rF iF r' i'
    show "bitsets d' ! i \<in> root_subsplit ` set (rootsplits d') \<union> fmran' (index_to_child d')"
      by auto
  qed
  have pa: "parented d'"
    unfolding parented_def
  proof (intro allI impI)
    fix i assume i: "taxon_count d' \<le> i \<and> i < length (dag_nodes d')"
    with t' len' have m: "M ! (i - ?T) \<in> set M" by auto
    from reM m have "M ! (i - ?T) \<in> root_subsplit ` set (rootsplits dF) \<or>
        (\<exists>y\<in>set M. M ! (i - ?T) \<in> kids dF y)" by blast
    then show "bitsets d' ! i \<in> root_subsplit ` set (rootsplits d') \<or>
          (\<exists>j. taxon_count d' \<le> j \<and> j < length (dag_nodes d') \<and>
               bitsets d' ! i \<in> kids d' (bitsets d' ! j))"
    proof
      assume "M ! (i - ?T) \<in> root_subsplit ` set (rootsplits dF)"
      with nthM[of i] i t' rF r' show ?thesis by simp
    next
      assume "\<exists>y\<in>set M. M ! (i - ?T) \<in> kids dF y"
      then obtain q where q: "q < length M" "M ! (i - ?T) \<in> kids dF (M ! q)"
        by (auto simp: in_set_conv_nth)
      have "bitsets d' ! (?T + q) = M ! q" using nthM[of "?T + q"] by simp
      with q nthM[of i] i t' len' have "taxon_count d' \<le> ?T + q \<and> ?T + q < length (dag_nodes d') \<and>
               bitsets d' ! i \<in> kids d' (bitsets d' ! (?T + q))"
        unfolding kids_cong[OF h'] by simp
      then show ?thesis by blast
    qed
  qed
  have rp: "roots_placed d'"
    unfolding roots_placed_def
    using lps sps pk lF by (intro exI[of _ ps]) (simp add: t' r' rF)
  from inv' hd x' xF ff fh pa rp show ?thesis by simp
qed


subsection \<open>BuildEdges\<close>

text \<open>The leafward and the rootward adjacency list of a class (sorted or rotated).\<close>

definition leafward :: "bool \<Rightarrow> GPDAGNode \<Rightarrow> nat list" where
  "leafward rotated node = (if rotated then leafward_rotated node else leafward_sorted node)"

definition rootward :: "bool \<Rightarrow> GPDAGNode \<Rightarrow> nat list" where
  "rootward rotated node = (if rotated then rootward_rotated node else rootward_sorted node)"

definition the_index :: "GPDAG \<Rightarrow> Bitset \<Rightarrow> nat" where
  "the_index d s = the (fmlookup (subsplit_to_index d) s)"

text \<open>
  \<open>edges_added r i ks d d'\<close>: the DAG \<open>d'\<close> is \<open>d\<close> with the edges from node \<open>i\<close> to the
  nodes \<open>ks\<close> added to the adjacency lists of class \<open>r\<close>, and nothing else changed.
\<close>

definition edges_added :: "bool \<Rightarrow> nat \<Rightarrow> nat list \<Rightarrow> GPDAG \<Rightarrow> GPDAG \<Rightarrow> bool" where
  "edges_added r i ks d d' \<longleftrightarrow>
     length (dag_nodes d') = length (dag_nodes d) \<and>
     harvest_fields d' = harvest_fields d \<and> index_fields d' = index_fields d \<and>
     subsplit_to_index d' = subsplit_to_index d \<and>
     (\<forall>n<length (dag_nodes d).
        Id (dag_nodes d' ! n) = Id (dag_nodes d ! n) \<and>
        bitset (dag_nodes d' ! n) = bitset (dag_nodes d ! n) \<and>
        leafward (\<not> r) (dag_nodes d' ! n) = leafward (\<not> r) (dag_nodes d ! n) \<and>
        rootward (\<not> r) (dag_nodes d' ! n) = rootward (\<not> r) (dag_nodes d ! n) \<and>
        leafward r (dag_nodes d' ! n) = leafward r (dag_nodes d ! n) @ (if n = i then ks else []) \<and>
        rootward r (dag_nodes d' ! n) =
          rootward r (dag_nodes d ! n) @ replicate (count_list ks n) i)"

lemma edges_added_Nil [simp]: "edges_added r i [] d d"
  by (simp add: edges_added_def)

lemma edges_added_trans:
  assumes "edges_added r i ks d d1" "edges_added r i ks' d1 d2"
  shows "edges_added r i (ks @ ks') d d2"
  using assms unfolding edges_added_def
  by (auto simp: replicate_add)

definition ids_ok :: "GPDAG \<Rightarrow> bool" where
  "ids_ok d \<longleftrightarrow> (\<forall>n<length (dag_nodes d). Id (dag_nodes d ! n) = n)"

lemma edges_added_ids_ok: "edges_added r i ks d d' \<Longrightarrow> ids_ok d \<Longrightarrow> ids_ok d'"
  by (simp add: edges_added_def ids_ok_def)

lemma ConnectNodes_child_result:
  assumes "ConnectNodes_child i r cb d = Inr d'" "i < length (dag_nodes d)" "ids_ok d"
  shows "\<exists>c. fmlookup (subsplit_to_index d) cb = Some c \<and> c < length (dag_nodes d) \<and>
             edges_added r i [c] d d'"
proof -
  from assms(1) obtain c where
    l: "fmlookup (subsplit_to_index d) cb = Some c" and c: "c < length (dag_nodes d)" and
    d': "d' = (if r
       then (let dag1 = update_node i (AddLeafwardRotated (Id (dag_nodes d ! c))) d
             in update_node c (AddRootwardRotated (Id (dag_nodes dag1 ! i))) dag1)
       else (let dag1 = update_node i (AddLeafwardSorted (Id (dag_nodes d ! c))) d
             in update_node c (AddRootwardSorted (Id (dag_nodes dag1 ! i))) dag1))"
    by (auto simp: ConnectNodes_child_def bind_err_eq_Inr map_at_def vector_at_def Let_def
        split: option.splits if_splits)
  from assms(3) c assms(2) have ic: "Id (dag_nodes d ! c) = c" "Id (dag_nodes d ! i) = i"
    by (simp_all add: ids_ok_def)
  have "edges_added r i [c] d d'"
    unfolding edges_added_def d'
    using c assms(2) ic
    by (auto simp: update_node_def Let_def nth_list_update harvest_fields_def index_fields_def
        leafward_def rootward_def AddLeafwardRotated_def AddLeafwardSorted_def
        AddRootwardRotated_def AddRootwardSorted_def)
  with l c show ?thesis by blast
qed

lemma ConnectNodes_children_result:
  assumes "fold_err (ConnectNodes_child i r) cs d = Inr d'" "i < length (dag_nodes d)" "ids_ok d"
  shows "(\<forall>cb\<in>set cs. \<exists>c. fmlookup (subsplit_to_index d) cb = Some c \<and> c < length (dag_nodes d)) \<and>
         edges_added r i (map (the_index d) cs) d d'"
  using assms
proof (induction cs arbitrary: d)
  case Nil
  then show ?case by simp
next
  case (Cons cb cs)
  from Cons.prems(1) obtain d1 where
    a: "ConnectNodes_child i r cb d = Inr d1" and
    b: "fold_err (ConnectNodes_child i r) cs d1 = Inr d'"
    by (auto simp: bind_err_eq_Inr)
  from ConnectNodes_child_result[OF a Cons.prems(2,3)] obtain c where
    l: "fmlookup (subsplit_to_index d) cb = Some c" and c: "c < length (dag_nodes d)" and
    e: "edges_added r i [c] d d1" by blast
  from e have len: "length (dag_nodes d1) = length (dag_nodes d)"
    and sti: "subsplit_to_index d1 = subsplit_to_index d"
    by (simp_all add: edges_added_def)
  from Cons.IH[OF b] Cons.prems(2) len edges_added_ids_ok[OF e Cons.prems(3)]
  have ih: "\<forall>cb\<in>set cs. \<exists>c. fmlookup (subsplit_to_index d1) cb = Some c \<and> c < length (dag_nodes d1)"
    "edges_added r i (map (the_index d1) cs) d1 d'" by simp_all
  have ti: "the_index d1 = the_index d" by (rule ext) (simp add: the_index_def sti)
  from edges_added_trans[OF e ih(2)] have "edges_added r i (map (the_index d) (cb # cs)) d d'"
    using l by (simp add: ti the_index_def)
  with ih(1) l c len sti show ?case by auto
qed

text \<open>The ids \<open>ConnectNodes\<close> gives node \<open>i\<close> as children of a class.\<close>

definition child_ids :: "GPDAG \<Rightarrow> bool \<Rightarrow> nat \<Rightarrow> nat list" where
  "child_ids d r i =
     map (the_index d) (projr (GetChildrenSubsplits d (GetBitset (dag_nodes d ! i) r) True))"

definition children_indexed :: "GPDAG \<Rightarrow> bool \<Rightarrow> nat \<Rightarrow> bool" where
  "children_indexed d r i \<longleftrightarrow>
     (\<exists>cs. GetChildrenSubsplits d (GetBitset (dag_nodes d ! i) r) True = Inr cs \<and>
           (\<forall>cb\<in>set cs. \<exists>c. fmlookup (subsplit_to_index d) cb = Some c \<and>
                             c < length (dag_nodes d)))"

lemma ConnectNodes_result:
  assumes "ConnectNodes i r d = Inr d'" "ids_ok d"
  shows "i < length (dag_nodes d) \<and> children_indexed d r i \<and>
         edges_added r i (child_ids d r i) d d'"
proof -
  from assms(1) obtain cs where
    i: "i < length (dag_nodes d)" and
    g: "GetChildrenSubsplits d (GetBitset (dag_nodes d ! i) r) True = Inr cs" and
    f: "fold_err (ConnectNodes_child i r) cs d = Inr d'"
    by (auto simp: ConnectNodes_def bind_err_eq_Inr vector_at_def split: if_splits)
  from ConnectNodes_children_result[OF f i assms(2)] g i show ?thesis
    by (auto simp: child_ids_def children_indexed_def)
qed


definition same_skeleton :: "GPDAG \<Rightarrow> GPDAG \<Rightarrow> bool" where
  "same_skeleton d d' \<longleftrightarrow>
     length (dag_nodes d') = length (dag_nodes d) \<and>
     harvest_fields d' = harvest_fields d \<and> index_fields d' = index_fields d \<and>
     subsplit_to_index d' = subsplit_to_index d \<and>
     (\<forall>n<length (dag_nodes d).
        Id (dag_nodes d' ! n) = Id (dag_nodes d ! n) \<and>
        bitset (dag_nodes d' ! n) = bitset (dag_nodes d ! n))"

lemma same_skeleton_refl [simp]: "same_skeleton d d"
  by (simp add: same_skeleton_def)

lemma same_skeleton_trans:
  "same_skeleton d d1 \<Longrightarrow> same_skeleton d1 d2 \<Longrightarrow> same_skeleton d d2"
  by (simp add: same_skeleton_def)

lemma edges_added_skeleton: "edges_added r i ks d d' \<Longrightarrow> same_skeleton d d'"
  by (simp add: edges_added_def same_skeleton_def)

lemma same_skeleton_ids_ok: "same_skeleton d d' \<Longrightarrow> ids_ok d \<Longrightarrow> ids_ok d'"
  by (simp add: same_skeleton_def ids_ok_def)

lemma same_skeleton_child_ids:
  assumes "same_skeleton d d'" "i < length (dag_nodes d)"
  shows "child_ids d' r i = child_ids d r i" "children_indexed d' r i = children_indexed d r i"
proof -
  from assms have h: "harvest_fields d' = harvest_fields d"
    and s: "subsplit_to_index d' = subsplit_to_index d"
    and b: "bitset (dag_nodes d' ! i) = bitset (dag_nodes d ! i)"
    and l: "length (dag_nodes d') = length (dag_nodes d)"
    by (simp_all add: same_skeleton_def)
  have g: "GetBitset (dag_nodes d' ! i) r = GetBitset (dag_nodes d ! i) r"
    by (simp add: GetBitset_def b)
  have t: "the_index d' = the_index d" by (rule ext) (simp add: the_index_def s)
  show "child_ids d' r i = child_ids d r i"
    unfolding child_ids_def GetChildrenSubsplits_cong[OF h] g t ..
  show "children_indexed d' r i = children_indexed d r i"
    unfolding children_indexed_def GetChildrenSubsplits_cong[OF h] g s l ..
qed

text \<open>One iteration of the loop of \<open>BuildEdges\<close>: node \<open>i\<close> is connected in both classes.\<close>

definition node_connected :: "nat \<Rightarrow> GPDAG \<Rightarrow> GPDAG \<Rightarrow> bool" where
  "node_connected i d d' \<longleftrightarrow>
     same_skeleton d d' \<and>
     (\<forall>n<length (dag_nodes d). \<forall>r.
        leafward r (dag_nodes d' ! n) =
          leafward r (dag_nodes d ! n) @ (if n = i then child_ids d r i else []) \<and>
        rootward r (dag_nodes d' ! n) =
          rootward r (dag_nodes d ! n) @ replicate (count_list (child_ids d r i) n) i)"

lemma BuildEdges_step:
  assumes "bind_err (ConnectNodes i False d) (ConnectNodes i True) = Inr d'" "ids_ok d"
  shows "i < length (dag_nodes d) \<and> children_indexed d False i \<and> children_indexed d True i \<and>
         node_connected i d d'"
proof -
  from assms(1) obtain d1 where
    a: "ConnectNodes i False d = Inr d1" and b: "ConnectNodes i True d1 = Inr d'"
    by (auto simp: bind_err_eq_Inr)
  from ConnectNodes_result[OF a assms(2)] have
    i: "i < length (dag_nodes d)" and ci1: "children_indexed d False i" and
    e1: "edges_added False i (child_ids d False i) d d1" by simp_all
  note sk1 = edges_added_skeleton[OF e1]
  from ConnectNodes_result[OF b same_skeleton_ids_ok[OF sk1 assms(2)]] have
    ci2: "children_indexed d1 True i" and
    e2: "edges_added True i (child_ids d1 True i) d1 d'" by simp_all
  note sk2 = edges_added_skeleton[OF e2]
  note cc = same_skeleton_child_ids[OF sk1 i, of True]
  from e1 have len1: "length (dag_nodes d1) = length (dag_nodes d)" by (simp add: edges_added_def)
  have "node_connected i d d'"
    unfolding node_connected_def
  proof (intro conjI allI impI)
    show "same_skeleton d d'" by (rule same_skeleton_trans[OF sk1 sk2])
  next
    fix n r assume n: "n < length (dag_nodes d)"
    show "leafward r (dag_nodes d' ! n) =
          leafward r (dag_nodes d ! n) @ (if n = i then child_ids d r i else [])"
      using e1 e2 n len1 cc(1) unfolding edges_added_def by (cases r) auto
  next
    fix n r assume n: "n < length (dag_nodes d)"
    show "rootward r (dag_nodes d' ! n) =
          rootward r (dag_nodes d ! n) @ replicate (count_list (child_ids d r i) n) i"
      using e1 e2 n len1 cc(1) unfolding edges_added_def by (cases r) auto
  qed
  with i ci1 ci2 cc(2) show ?thesis by simp
qed

lemma BuildEdges_loop:
  assumes "fold_err (\<lambda>i dag. bind_err (ConnectNodes i False dag) (ConnectNodes i True)) idxs d
             = Inr d'" "ids_ok d"
  shows "same_skeleton d d' \<and>
         (\<forall>i\<in>set idxs. i < length (dag_nodes d) \<and>
              children_indexed d False i \<and> children_indexed d True i) \<and>
         (\<forall>n<length (dag_nodes d). \<forall>r.
            leafward r (dag_nodes d' ! n) =
              leafward r (dag_nodes d ! n) @
              concat (map (\<lambda>i. if i = n then child_ids d r i else []) idxs) \<and>
            rootward r (dag_nodes d' ! n) =
              rootward r (dag_nodes d ! n) @
              concat (map (\<lambda>i. replicate (count_list (child_ids d r i) n) i) idxs))"
  using assms
proof (induction idxs arbitrary: d)
  case Nil
  then show ?case by simp
next
  case (Cons i idxs)
  from Cons.prems(1) obtain d1 where
    a: "bind_err (ConnectNodes i False d) (ConnectNodes i True) = Inr d1" and
    b: "fold_err (\<lambda>i dag. bind_err (ConnectNodes i False dag) (ConnectNodes i True)) idxs d1
          = Inr d'"
    by (auto simp: bind_err_eq_Inr)
  from BuildEdges_step[OF a Cons.prems(2)] have
    i: "i < length (dag_nodes d)" and ci: "children_indexed d False i" "children_indexed d True i"
    and nc: "node_connected i d d1" by simp_all
  from nc have sk1: "same_skeleton d d1" by (simp add: node_connected_def)
  then have len1: "length (dag_nodes d1) = length (dag_nodes d)" by (simp add: same_skeleton_def)
  note ih = Cons.IH[OF b same_skeleton_ids_ok[OF sk1 Cons.prems(2)]]
  from ih have sk2: "same_skeleton d1 d'" by simp
  have in_range: "\<forall>j\<in>set idxs. j < length (dag_nodes d)" using ih len1 by simp
  have cid: "child_ids d1 r j = child_ids d r j" if "j \<in> set idxs" for r j
    using same_skeleton_child_ids(1)[OF sk1] in_range that by simp
  have cin: "children_indexed d1 r j = children_indexed d r j" if "j \<in> set idxs" for r j
    using same_skeleton_child_ids(2)[OF sk1] in_range that by simp
  have m1: "map (\<lambda>j. if j = n then child_ids d1 r j else []) idxs
          = map (\<lambda>j. if j = n then child_ids d r j else []) idxs" for n r
    by (rule map_cong) (auto simp: cid)
  have m2: "map (\<lambda>j. replicate (count_list (child_ids d1 r j) n) j) idxs
          = map (\<lambda>j. replicate (count_list (child_ids d r j) n) j) idxs" for n r
    by (rule map_cong) (simp_all add: cid)
  show ?case
  proof (intro conjI ballI allI impI)
    show "same_skeleton d d'" by (rule same_skeleton_trans[OF sk1 sk2])
  next
    fix j assume "j \<in> set (i # idxs)"
    then show "j < length (dag_nodes d)" using i in_range by auto
  next
    fix j assume "j \<in> set (i # idxs)"
    then show "children_indexed d False j" using ci ih cin by auto
  next
    fix j assume "j \<in> set (i # idxs)"
    then show "children_indexed d True j" using ci ih cin by auto
  next
    fix n r assume n: "n < length (dag_nodes d)"
    from ih n len1 have "leafward r (dag_nodes d' ! n) =
              leafward r (dag_nodes d1 ! n) @
              concat (map (\<lambda>i. if i = n then child_ids d1 r i else []) idxs)" by simp
    with nc n show "leafward r (dag_nodes d' ! n) =
              leafward r (dag_nodes d ! n) @
              concat (map (\<lambda>i. if i = n then child_ids d r i else []) (i # idxs))"
      unfolding m1 by (simp add: node_connected_def)
  next
    fix n r assume n: "n < length (dag_nodes d)"
    from ih n len1 have "rootward r (dag_nodes d' ! n) =
              rootward r (dag_nodes d1 ! n) @
              concat (map (\<lambda>i. replicate (count_list (child_ids d1 r i) n) i) idxs)" by simp
    with nc n show "rootward r (dag_nodes d' ! n) =
              rootward r (dag_nodes d ! n) @
              concat (map (\<lambda>i. replicate (count_list (child_ids d r i) n) i) (i # idxs))"
      unfolding m2 by (simp add: node_connected_def)
  qed
qed


lemma concat_map_if_eq:
  "concat (map (\<lambda>i. if i = n then X i else []) [a..<b]) = (if a \<le> n \<and> n < b then X n else [])"
proof (induction b)
  case 0
  then show ?case by simp
next
  case (Suc b)
  then show ?case by (cases "a \<le> b") auto
qed

lemma set_concat_replicate:
  "set (concat (map (\<lambda>i. replicate (k i) i) xs)) = {i \<in> set xs. 0 < k i}"
  by (induction xs) auto

lemma count_list_pos_iff: "0 < count_list xs x \<longleftrightarrow> x \<in> set xs"
  by (induction xs) auto

lemma nodes_wf_initial:
  assumes "nodes_wf d" "n < length (dag_nodes d)"
  shows "leafward r (dag_nodes d ! n) = []" "rootward r (dag_nodes d ! n) = []"
    "Id (dag_nodes d ! n) = n"
proof -
  from assms have e: "dag_nodes d ! n = new_GPDAGNode n (bitset (dag_nodes d ! n))"
    by (simp add: nodes_wf_def)
  show "leafward r (dag_nodes d ! n) = []"
    by (subst e) (simp add: leafward_def new_GPDAGNode_def)
  show "rootward r (dag_nodes d ! n) = []"
    by (subst e) (simp add: rootward_def new_GPDAGNode_def)
  show "Id (dag_nodes d ! n) = n"
    by (subst e) (simp add: new_GPDAGNode_def)
qed

lemma BuildEdges_result:
  assumes "BuildEdges d = Inr d'" "nodes_wf d"
  shows "same_skeleton d d' \<and>
         (\<forall>i r. taxon_count d \<le> i \<and> i < length (dag_nodes d) \<longrightarrow> children_indexed d r i) \<and>
         (\<forall>n<length (dag_nodes d). \<forall>r.
            leafward r (dag_nodes d' ! n) = (if taxon_count d \<le> n then child_ids d r n else []) \<and>
            set (rootward r (dag_nodes d' ! n)) =
              {p. taxon_count d \<le> p \<and> p < length (dag_nodes d) \<and> n \<in> set (child_ids d r p)})"
proof -
  let ?T = "taxon_count d" and ?N = "length (dag_nodes d)"
  from assms(2) have io: "ids_ok d" by (simp add: ids_ok_def nodes_wf_initial)
  from assms(1) have f: "fold_err (\<lambda>i dag. bind_err (ConnectNodes i False dag) (ConnectNodes i True))
      [?T..<?N] d = Inr d'" by (simp add: BuildEdges_def)
  note r = BuildEdges_loop[OF f io]
  from r have sk: "same_skeleton d d'" by simp
  from r have ci: "\<forall>i\<in>set [?T..<?N]. children_indexed d False i \<and> children_indexed d True i"
    by simp
  have c1: "\<forall>i r. ?T \<le> i \<and> i < ?N \<longrightarrow> children_indexed d r i"
  proof (intro allI impI)
    fix i r assume "?T \<le> i \<and> i < ?N"
    with ci show "children_indexed d r i" by (cases r) auto
  qed
  have c2: "\<forall>n<?N. \<forall>r.
            leafward r (dag_nodes d' ! n) = (if ?T \<le> n then child_ids d r n else []) \<and>
            set (rootward r (dag_nodes d' ! n)) =
              {p. ?T \<le> p \<and> p < ?N \<and> n \<in> set (child_ids d r p)}"
  proof (intro allI impI)
    fix n r assume n: "n < ?N"
    from r n have l: "leafward r (dag_nodes d' ! n) =
              leafward r (dag_nodes d ! n) @
              concat (map (\<lambda>i. if i = n then child_ids d r i else []) [?T..<?N])"
      and w: "rootward r (dag_nodes d' ! n) =
              rootward r (dag_nodes d ! n) @
              concat (map (\<lambda>i. replicate (count_list (child_ids d r i) n) i) [?T..<?N])"
      by simp_all
    have "leafward r (dag_nodes d' ! n) = (if ?T \<le> n then child_ids d r n else [])"
      unfolding l concat_map_if_eq using n nodes_wf_initial(1)[OF assms(2) n] by simp
    moreover have "set (rootward r (dag_nodes d' ! n)) =
              {p. ?T \<le> p \<and> p < ?N \<and> n \<in> set (child_ids d r p)}"
      unfolding w set_append set_concat_replicate
      using nodes_wf_initial(2)[OF assms(2) n] by (auto simp: count_list_pos_iff)
    ultimately show "leafward r (dag_nodes d' ! n) = (if ?T \<le> n then child_ids d r n else []) \<and>
            set (rootward r (dag_nodes d' ! n)) =
              {p. ?T \<le> p \<and> p < ?N \<and> n \<in> set (child_ids d r p)}" by simp
  qed
  from sk c1 c2 show ?thesis by simp
qed


subsection \<open>The indexer starts from empty maps\<close>

lemma CreateAndInsertNode_frame_fields:
  "CreateAndInsertNode s d = Inr d' \<Longrightarrow>
     harvest_fields d' = harvest_fields d \<and> index_fields d' = index_fields d"
  by (auto simp: CreateAndInsertNode_def Let_def bind_err_eq_Inr harvest_fields_def
      index_fields_def)

lemma BuildNodesDepthFirst_frame_fields:
  "BuildNodesDepthFirst s st = Inr st' \<Longrightarrow>
     harvest_fields (snd st') = harvest_fields (snd st) \<and>
     index_fields (snd st') = index_fields (snd st)"
  "BuildNodesDepthFirst_children cs st2 = Inr st2' \<Longrightarrow>
     harvest_fields (snd st2') = harvest_fields (snd st2) \<and>
     index_fields (snd st2') = index_fields (snd st2)"
proof (induct s st and cs st2 arbitrary: st' and st2'
    rule: BuildNodesDepthFirst_BuildNodesDepthFirst_children.induct)
  case (1 s V d)
  from 1(3) obtain cs1 st1 cs2 st2 d3 where
    c1: "GetChildrenSubsplits d s False = Inr cs1" and
    l1: "BuildNodesDepthFirst_children cs1 (insert s V, d) = Inr st1" and
    c2: "GetChildrenSubsplits (snd st1) (RotateSubsplit s) False = Inr cs2" and
    l2: "BuildNodesDepthFirst_children cs2 st1 = Inr st2" and
    cr: "CreateAndInsertNode s (snd st2) = Inr d3" and v: "st' = (fst st2, d3)"
    by (auto simp: BuildNodesDepthFirst.simps bind_err_eq_Inr split: prod.splits)
  have e: "(fst st1, snd st1) = st1" by simp
  from 1(1)[OF c1 l1] 1(2)[OF c1 l1 e c2] l2 CreateAndInsertNode_frame_fields[OF cr] v
  show ?case by simp
next
  case (2 st)
  then show ?case by auto
next
  case (3 c rest V d)
  show ?case
  proof (cases "c \<in> V")
    case True
    with 3(1)[OF True] 3(4) show ?thesis by simp
  next
    case False
    with 3(4) obtain st1 where
      d1: "BuildNodesDepthFirst c (V, d) = Inr st1" and
      d2: "BuildNodesDepthFirst_children rest st1 = Inr st2'"
      by (auto simp: bind_err_eq_Inr)
    from 3(2)[OF False d1] 3(3)[OF False d1 d2] show ?thesis by simp
  qed
qed

lemma BuildNodes_frame_fields:
  assumes "BuildNodes d = Inr d'"
  shows "harvest_fields d' = harvest_fields d \<and> index_fields d' = index_fields d"
proof -
  from assms obtain dF V' where
    a: "fold_err
          (\<lambda>taxon_idx dag.
             let zero = Bitset_zero (taxon_count dag);
                 fake = Bitset_set (Bitset_zero (taxon_count dag)) taxon_idx;
                 fake_subsplit = Bitset_plus zero fake
             in CreateAndInsertNode fake_subsplit dag) [0..<taxon_count d] d = Inr dF" and
    b: "fold_err (\<lambda>rootsplit. BuildNodesDepthFirst (root_subsplit rootsplit))
          (rootsplits dF) ({}, dF) = Inr (V', d')"
    by (auto simp: BuildNodes_def bind_err_eq_Inr)
  have f1: "harvest_fields dF = harvest_fields d \<and> index_fields dF = index_fields d"
    by (rule fold_err_invariant[OF a])
       (auto simp: Let_def dest!: CreateAndInsertNode_frame_fields)
  have f2: "harvest_fields (snd (V', d')) = harvest_fields dF \<and>
            index_fields (snd (V', d')) = index_fields dF"
    by (rule fold_err_invariant[OF b]) (auto dest!: BuildNodesDepthFirst_frame_fields(1))
  from f1 f2 show ?thesis by simp
qed

lemma ConnectNodes_frame_fields:
  assumes "ConnectNodes i r d = Inr d'"
  shows "harvest_fields d' = harvest_fields d \<and> index_fields d' = index_fields d"
proof -
  from assms obtain cs where
    f: "fold_err (ConnectNodes_child i r) cs d = Inr d'"
    by (auto simp: ConnectNodes_def bind_err_eq_Inr)
  show ?thesis
    by (rule fold_err_invariant[OF f])
       (auto simp: ConnectNodes_child_def bind_err_eq_Inr update_node_def Let_def
          harvest_fields_def index_fields_def split: if_splits)
qed

lemma BuildEdges_frame_fields:
  assumes "BuildEdges d = Inr d'"
  shows "harvest_fields d' = harvest_fields d \<and> index_fields d' = index_fields d"
  by (rule fold_err_invariant[OF assms[unfolded BuildEdges_def]])
     (auto simp: bind_err_eq_Inr dest!: ConnectNodes_frame_fields)

text \<open>The four steps of the constructor, as the states they run through.\<close>

lemma GPDAG_of_steps:
  assumes "GPDAG_of tc = Inr dag"
  obtains d1 d2 d3 where
    "ProcessTrees tc empty_GPDAG = Inr d1" "BuildNodes d1 = Inr d2" "BuildEdges d2 = Inr d3"
    "BuildPCSPIndexer d3 = Inr dag"
  using assms by (auto simp: GPDAG_of_def bind_err_eq_Inr)

lemma GPDAG_of_indexer:
  assumes "GPDAG_of tc = Inr dag"
  shows "appended fmempty 0 (pcsp_keys dag) (gpcsp_indexer dag) \<and>
         rootsplits dag = RootsplitCounterOf tc \<and> taxon_count dag = TaxonCount tc \<and>
         taxon_count dag < length (dag_nodes dag)"
proof -
  from assms obtain d1 d2 d3 where
    s1: "ProcessTrees tc empty_GPDAG = Inr d1" and s2: "BuildNodes d1 = Inr d2" and
    s3: "BuildEdges d2 = Inr d3" and s4: "BuildPCSPIndexer d3 = Inr dag"
    by (rule GPDAG_of_steps)
  note r1 = ProcessTrees_result[OF s1]
  note r2 = BuildNodes_frame_fields[OF s2]
  note r3 = BuildEdges_frame_fields[OF s3]
  note r4 = BuildPCSPIndexer_result[OF s4]
  from r1 r2 r3 have g: "gpcsp_indexer d3 = fmempty"
    by (simp add: index_fields_def)
  from r1 r2 r3 have h: "rootsplits d3 = RootsplitCounterOf tc" "taxon_count d3 = TaxonCount tc"
    by (simp_all add: harvest_fields_def)
  from r4 have sg: "same_graph d3 dag" by simp
  then have "node_pcsp_keys dag = node_pcsp_keys d3"
    by (intro ext) (simp add: node_pcsp_keys_def same_graph_def)
  with sg have k: "pcsp_keys dag = pcsp_keys d3"
    by (simp add: pcsp_keys_def same_graph_def)
  from r4 sg g h k show ?thesis by (simp add: same_graph_def)
qed


section \<open>The generalized-PCSP index is dense\<close>

text \<open>
  The keys of the rootsplits and of the harvested PCSPs alone: the root subsplits, and
  each harvested parent concatenated with each of its child subsplits.
\<close>

definition harvested_keys :: "RootedTreeCollection \<Rightarrow> Bitset list" where
  "harvested_keys tc =
     map root_subsplit (RootsplitCounterOf tc) @
     concat (map (\<lambda>(parent, children). map (Bitset_plus parent) children) (PCSSCounterOf tc))"

lemma appended_bij:
  assumes "appended fmempty 0 ks m"
  shows "bij_betw (\<lambda>k. the (fmlookup m k)) (fmdom' m) {0..<length ks}"
proof -
  from assms have d: "distinct ks" and
    l: "\<And>j. j < length ks \<Longrightarrow> fmlookup m (ks ! j) = Some j"
    by (simp_all add: appended_def)
  from appended_dom[OF assms] have dom: "fmdom' m = set ks" by simp
  have inj: "inj_on (\<lambda>k. the (fmlookup m k)) (set ks)"
  proof (rule inj_onI)
    fix x y assume x: "x \<in> set ks" and y: "y \<in> set ks"
      and e: "the (fmlookup m x) = the (fmlookup m y)"
    from x obtain i where i: "i < length ks" "ks ! i = x" by (auto simp: in_set_conv_nth)
    from y obtain j where j: "j < length ks" "ks ! j = y" by (auto simp: in_set_conv_nth)
    from l[OF i(1)] l[OF j(1)] i j e have "i = j" by simp
    with i j show "x = y" by simp
  qed
  have img: "(\<lambda>k. the (fmlookup m k)) ` set ks = {0..<length ks}"
  proof (rule set_eqI)
    fix v
    show "v \<in> (\<lambda>k. the (fmlookup m k)) ` set ks \<longleftrightarrow> v \<in> {0..<length ks}"
    proof
      assume "v \<in> (\<lambda>k. the (fmlookup m k)) ` set ks"
      then obtain x where x: "x \<in> set ks" "v = the (fmlookup m x)" by auto
      from x(1) obtain i where i: "i < length ks" "ks ! i = x" by (auto simp: in_set_conv_nth)
      from l[OF i(1)] i x show "v \<in> {0..<length ks}" by simp
    next
      assume "v \<in> {0..<length ks}"
      then have v: "v < length ks" by simp
      from l[OF v] have "the (fmlookup m (ks ! v)) = v" by simp
      moreover from v have "ks ! v \<in> set ks" by simp
      ultimately show "v \<in> (\<lambda>k. the (fmlookup m k)) ` set ks" by force
    qed
  qed
  from inj img show ?thesis unfolding dom by (simp add: bij_betw_def)
qed

lemma length_pcsp_keys:
  "length (pcsp_keys dag) =
     length (rootsplits dag) +
     sum_list (map (\<lambda>node. length (leafward_sorted node) + length (leafward_rotated node))
                (drop (taxon_count dag) (dag_nodes dag)))"
  by (simp add: pcsp_keys_def node_pcsp_keys_def length_concat comp_def)


section \<open>Rootsplit indices in the operations\<close>

lemma UpdateRHat_no_rootsplit:
  assumes "UpdateRHat dag n r = Inr ops" "op \<in> set ops"
  shows "\<not> carries_rootsplit_index op"
  using assms unfolding UpdateRHat_def
  by (auto simp: bind_err_eq_Inr Let_def dest!: for_each_Inr_set)

lemma Schedule_nonroot_block_no_rootsplit:
  assumes "Schedule_nonroot_block dag node n = Inr ops" "op \<in> set ops"
  shows "\<not> carries_rootsplit_index op"
  using assms
  by (auto simp: Schedule_nonroot_block_def bind_err_eq_Inr split: if_splits
      dest: UpdateRHat_no_rootsplit)

lemma UpdatePHatComputeLikelihood_no_rootsplit:
  assumes "UpdatePHatComputeLikelihood dag n c r = Inr ops" "op \<in> set ops"
  shows "\<not> carries_rootsplit_index op"
  using assms by (auto simp: UpdatePHatComputeLikelihood_def bind_err_eq_Inr Let_def)

lemma range_update_ops_no_rootsplit:
  "op \<in> set (range_update_ops dag s) \<Longrightarrow> \<not> carries_rootsplit_index op"
  by (auto simp: range_update_ops_def split: option.splits if_splits)

lemma ScheduleSBNParametersOptimization_no_rootsplit:
  "ScheduleSBNParametersOptimization dag node_id V = Inr (V', ops) \<Longrightarrow>
     \<forall>op\<in>set ops. \<not> carries_rootsplit_index op"
  "ScheduleSBNParametersOptimization_children dag node_id rotated cs V = Inr (V', ops) \<Longrightarrow>
     \<forall>op\<in>set ops. \<not> carries_rootsplit_index op"
proof (induct dag node_id V and dag node_id rotated cs V arbitrary: V' ops and V' ops
    rule: ScheduleSBNParametersOptimization_ScheduleSBNParametersOptimization_children.induct)
  case (1 dag node_id V)
  from ScheduleSBNParametersOptimization_unfold[OF 1(3)] obtain node ops0 where
    nd: "vector_at (dag_nodes dag) node_id = Inr node" and
    b0: "Schedule_nonroot_block dag node node_id = Inr ops0" and
    r: "if IsLeaf dag node then (V', ops) = (insert node_id V, ops0)
        else \<exists>V1 ops1 V2 ops2.
          ScheduleSBNParametersOptimization_children dag node_id False (leafward_sorted node)
            (insert node_id V) = Inr (V1, ops1) \<and>
          ScheduleSBNParametersOptimization_children dag node_id True (leafward_rotated node) V1
            = Inr (V2, ops2) \<and>
          (V', ops) = (V2, ops0 @ [Zero (plv_index dag P_HAT node_id)] @ ops1 @
                      range_update_ops dag (bitset node) @
                      [Multiply (plv_index dag R_TILDE node_id) (plv_index dag R_HAT node_id)
                         (plv_index dag P_HAT node_id),
                       Zero (plv_index dag P_HAT_TILDE node_id)] @ ops2 @
                      range_update_ops dag (RotateSubsplit (bitset node)) @
                      [Multiply (plv_index dag R node_id) (plv_index dag R_HAT node_id)
                         (plv_index dag P_HAT_TILDE node_id),
                       Multiply (plv_index dag P node_id) (plv_index dag P_HAT node_id)
                         (plv_index dag P_HAT_TILDE node_id)])"
    by blast
  show ?case
  proof (cases "IsLeaf dag node")
    case True
    with r b0 show ?thesis by (auto dest: Schedule_nonroot_block_no_rootsplit)
  next
    case False
    with r obtain V1 ops1 V2 ops2 where
      c1: "ScheduleSBNParametersOptimization_children dag node_id False (leafward_sorted node)
            (insert node_id V) = Inr (V1, ops1)" and
      c2: "ScheduleSBNParametersOptimization_children dag node_id True (leafward_rotated node) V1
            = Inr (V2, ops2)" and
      e: "ops = ops0 @ [Zero (plv_index dag P_HAT node_id)] @ ops1 @
                      range_update_ops dag (bitset node) @
                      [Multiply (plv_index dag R_TILDE node_id) (plv_index dag R_HAT node_id)
                         (plv_index dag P_HAT node_id),
                       Zero (plv_index dag P_HAT_TILDE node_id)] @ ops2 @
                      range_update_ops dag (RotateSubsplit (bitset node)) @
                      [Multiply (plv_index dag R node_id) (plv_index dag R_HAT node_id)
                         (plv_index dag P_HAT_TILDE node_id),
                       Multiply (plv_index dag P node_id) (plv_index dag P_HAT node_id)
                         (plv_index dag P_HAT_TILDE node_id)]"
      by auto
    have i1: "\<forall>op\<in>set ops1. \<not> carries_rootsplit_index op"
      by (rule 1(1)[OF nd b0 False _ c1]) simp
    have i2: "\<forall>op\<in>set ops2. \<not> carries_rootsplit_index op"
      by (rule 1(2)[OF nd b0 False _ c1 refl OptimizeSBNParameters_eq _ _ c2]) simp_all
    from e i1 i2 b0 show ?thesis
      by (auto dest: Schedule_nonroot_block_no_rootsplit range_update_ops_no_rootsplit)
  qed
next
  case (2 dag node_id rotated V)
  then show ?case by (simp add: ScheduleSBNParametersOptimization_children.simps)
next
  case (3 dag node_id rotated child_id rest V)
  from ScheduleSBNParametersOptimization_children_unfold[OF 3(3)] obtain V1 ops1 ops2 V2 ops3 where
    a: "if child_id \<notin> V then ScheduleSBNParametersOptimization dag child_id V = Inr (V1, ops1)
        else (V1, ops1) = (V, [])" and
    b: "UpdatePHatComputeLikelihood dag node_id child_id rotated = Inr ops2" and
    c: "ScheduleSBNParametersOptimization_children dag node_id rotated rest V1 = Inr (V2, ops3)" and
    e: "(V', ops) = (V2, ops1 @ ops2 @ ops3)"
    by blast
  have i1: "\<forall>op\<in>set ops1. \<not> carries_rootsplit_index op"
    using a 3(1) by (auto split: if_splits)
  have a': "(if child_id \<notin> V then ScheduleSBNParametersOptimization dag child_id V
             else Inr (V, [])) = Inr (V1, ops1)"
    using a by (auto split: if_splits)
  have i3: "\<forall>op\<in>set ops3. \<not> carries_rootsplit_index op"
    by (rule 3(2)[OF a' refl b c])
  from e i1 i3 b show ?case
    by (auto dest: UpdatePHatComputeLikelihood_no_rootsplit)
qed

lemma root_subsplit_index:
  assumes "GPDAG_of tc = Inr dag" "i < length (rootsplits dag)"
  shows "fmlookup (gpcsp_indexer dag) (root_subsplit (rootsplits dag ! i)) = Some i"
proof -
  from GPDAG_of_indexer[OF assms(1)]
  have a: "\<forall>j<length (pcsp_keys dag). fmlookup (gpcsp_indexer dag) (pcsp_keys dag ! j) = Some (0 + j)"
    by (simp add: appended_def)
  have "i < length (pcsp_keys dag)" using assms(2) by (simp add: pcsp_keys_def)
  moreover have "pcsp_keys dag ! i = root_subsplit (rootsplits dag ! i)"
    using assms(2) by (simp add: pcsp_keys_def nth_append)
  ultimately show ?thesis using a by auto
qed

lemma filter_concat_marginal:
  assumes "\<forall>k<n. \<forall>op\<in>set (segs ! k). \<not> carries_rootsplit_index op"
  shows "filter carries_rootsplit_index
           (concat (map (\<lambda>k. segs ! k @ [marginal_likelihood_op dag k]) [0..<n]))
         = map (marginal_likelihood_op dag) [0..<n]"
  using assms
proof (induction n)
  case 0
  then show ?case by simp
next
  case (Suc n)
  from Suc.prems have "filter carries_rootsplit_index (segs ! n) = []"
    by (auto simp: filter_empty_conv)
  moreover from Suc.prems have "\<forall>k<n. \<forall>op\<in>set (segs ! k). \<not> carries_rootsplit_index op"
    by (auto simp: less_Suc_eq)
  note Suc.IH[OF this]
  ultimately show ?case by (simp add: marginal_likelihood_op_def)
qed

lemma SBNParameterOptimization_rootsplit_ops:
  assumes "SBNParameterOptimization dag = Inr ops"
  shows "filter carries_rootsplit_index ops
         = map (marginal_likelihood_op dag) [0..<length (rootsplits dag)]"
proof -
  let ?R = "length (rootsplits dag)"
  from assms obtain V' ops' where
    f: "fold_err (SBNParameterOptimization_rootsplit dag) [0..<?R] ({}, []) = Inr (V', ops')" and
    o: "ops = ops' @ [UpdateSBNProbabilities 0 ?R]"
    by (auto simp: SBNParameterOptimization_def bind_err_eq_Inr)
  from SBNParameterOptimization_fold[OF f] obtain segs Vs where
    sc: "\<forall>k<?R. ScheduleSBNParametersOptimization dag (root_id dag ([0..<?R] ! k)) (Vs ! k)
                 = Inr (Vs ! Suc k, segs ! k)" and
    e: "ops' = concat (map (\<lambda>k. segs ! k @ [marginal_likelihood_op dag ([0..<?R] ! k)]) [0..<?R])"
    by auto
  have m: "map (\<lambda>k. segs ! k @ [marginal_likelihood_op dag ([0..<?R] ! k)]) [0..<?R]
      = map (\<lambda>k. segs ! k @ [marginal_likelihood_op dag k]) [0..<?R]"
    by (rule map_cong) simp_all
  have "\<forall>k<?R. \<forall>op\<in>set (segs ! k). \<not> carries_rootsplit_index op"
    using sc ScheduleSBNParametersOptimization_no_rootsplit(1) by blast
  from filter_concat_marginal[OF this] e o show ?thesis
    unfolding m by simp
qed

text \<open>
  Claim C10. The index \<open>BuildPCSPIndexer\<close> gives the root subsplit of the rootsplit at
  position \<open>i\<close> of \<open>rootsplits_\<close> is \<open>i\<close>; and the operations that carry a rootsplit index
  in the vectors of \<open>MarginalLikelihood\<close>, \<open>SetRhatToStationary\<close> and
  \<open>SBNParameterOptimization\<close> are, in order, one per position \<open>i\<close>, on the buffers of the
  root node of the rootsplit at position \<open>i\<close> and carrying the index \<open>i\<close>.
\<close>

theorem rootsplit_index_agreement:
  assumes "GPDAG_of tree_collection = Inr dag"
  shows "(\<forall>i<length (rootsplits dag).
            fmlookup (gpcsp_indexer dag) (root_subsplit (rootsplits dag ! i)) = Some i) \<and>
         (\<forall>ops. MarginalLikelihood dag = Inr ops \<longrightarrow>
            ops = map (\<lambda>i. IncrementMarginalLikelihood
                             (plv_index dag R_HAT (root_index dag (rootsplits dag ! i))) i
                             (plv_index dag P (root_index dag (rootsplits dag ! i))))
                    [0..<length (rootsplits dag)]) \<and>
         (\<forall>ops. SetRhatToStationary dag = Inr ops \<longrightarrow>
            ops = map (\<lambda>i. SetToStationaryDistribution
                             (plv_index dag R_HAT (root_index dag (rootsplits dag ! i))) (Some i))
                    [0..<length (rootsplits dag)]) \<and>
         (\<forall>ops. SBNParameterOptimization dag = Inr ops \<longrightarrow>
            filter carries_rootsplit_index ops
              = map (\<lambda>i. IncrementMarginalLikelihood
                             (plv_index dag R_HAT (root_index dag (rootsplits dag ! i))) i
                             (plv_index dag P (root_index dag (rootsplits dag ! i))))
                    [0..<length (rootsplits dag)])"
proof (intro conjI allI impI)
  fix i assume "i < length (rootsplits dag)"
  with assms show "fmlookup (gpcsp_indexer dag) (root_subsplit (rootsplits dag ! i)) = Some i"
    by (rule root_subsplit_index)
next
  fix ops assume "MarginalLikelihood dag = Inr ops"
  from MarginalLikelihood_eq[OF this]
  show "ops = map (\<lambda>i. IncrementMarginalLikelihood
                             (plv_index dag R_HAT (root_index dag (rootsplits dag ! i))) i
                             (plv_index dag P (root_index dag (rootsplits dag ! i))))
                    [0..<length (rootsplits dag)]"
    by (simp add: marginal_likelihood_op_def root_id_def)
next
  fix ops assume "SetRhatToStationary dag = Inr ops"
  from SetRhatToStationary_eq[OF this]
  show "ops = map (\<lambda>i. SetToStationaryDistribution
                             (plv_index dag R_HAT (root_index dag (rootsplits dag ! i))) (Some i))
                    [0..<length (rootsplits dag)]"
    by (simp add: root_id_def)
next
  fix ops assume "SBNParameterOptimization dag = Inr ops"
  from SBNParameterOptimization_rootsplit_ops[OF this]
  show "filter carries_rootsplit_index ops
              = map (\<lambda>i. IncrementMarginalLikelihood
                             (plv_index dag R_HAT (root_index dag (rootsplits dag ! i))) i
                             (plv_index dag P (root_index dag (rootsplits dag ! i))))
                    [0..<length (rootsplits dag)]"
    by (simp add: marginal_likelihood_op_def root_id_def)
qed

lemma example_MarginalLikelihood:
  "MarginalLikelihood example_dag =
     Inr [IncrementMarginalLikelihood 25 0 4, IncrementMarginalLikelihood 27 1 6]"
  by code_simp

lemma example_SetRhatToStationary:
  "SetRhatToStationary example_dag =
     Inr [SetToStationaryDistribution 25 (Some 0), SetToStationaryDistribution 27 (Some 1)]"
  by code_simp

lemma example_rootsplit_count: "length (rootsplits example_dag) = 2"
  by code_simp

theorem rootsplit_index_agreement_witness:
  "GPDAG_of example_trees = Inr example_dag \<and>
   (1::nat) < length (rootsplits example_dag) \<and>
   fmlookup (gpcsp_indexer example_dag) (root_subsplit (rootsplits example_dag ! 1)) = Some 1 \<and>
   MarginalLikelihood example_dag =
     Inr [IncrementMarginalLikelihood 25 0 4, IncrementMarginalLikelihood 27 1 6] \<and>
   SetRhatToStationary example_dag =
     Inr [SetToStationaryDistribution 25 (Some 0), SetToStationaryDistribution 27 (Some 1)] \<and>
   SBNParameterOptimization example_dag = Inr example_sbn_operations \<and>
   filter carries_rootsplit_index example_sbn_operations =
     map (\<lambda>i. IncrementMarginalLikelihood
                 (plv_index example_dag R_HAT (root_index example_dag (rootsplits example_dag ! i))) i
                 (plv_index example_dag P (root_index example_dag (rootsplits example_dag ! i))))
       [0..<length (rootsplits example_dag)]"
  using rootsplit_index_agreement [OF example_dag_built] example_dag_built
    example_MarginalLikelihood example_SetRhatToStationary example_SBNParameterOptimization
    example_rootsplit_count
  by auto


section \<open>Well-formed tree collections and the graph they give\<close>

text \<open>
  Modelled from the spec: the counters of a tree collection are computed outside the source
  files at hand. The specification (3) makes every subsplit two disjoint, non-empty
  clades, and an edge descends from one half of the parent's subsplit: so the first clade
  of a root subsplit and of a harvested child subsplit is non-empty, and a harvested child
  subsplit has fewer taxa than its parent.
\<close>

definition wf_trees :: "RootedTreeCollection \<Rightarrow> bool" where
  "wf_trees tc \<longleftrightarrow>
     (\<forall>r\<in>set (RootsplitCounterOf tc). Any (SplitChunk (root_subsplit r) 0)) \<and>
     (\<forall>(p, cs)\<in>set (PCSSCounterOf tc). \<forall>c\<in>set cs.
        count_bits c < count_bits p \<and> Any (SplitChunk c 0))"

lemma example_trees_wf: "wf_trees example_trees"
  unfolding wf_trees_def by code_simp

lemma wf_trees_harvested:
  assumes "wf_trees tc" "(p, c) \<in> harvested tc"
  shows "count_bits c < count_bits p" "Any (SplitChunk c 0)"
  using assms by (auto simp: wf_trees_def harvested_def)

lemma GetChildrenSubsplits_harvested:
  assumes h: "\<forall>p a b i c. fmlookup (parent_to_range d) p = Some (a, b) \<and> a \<le> i \<and> i < b \<and>
              fmlookup (index_to_child d) i = Some c \<longrightarrow> (p, c) \<in> X"
    and g: "GetChildrenSubsplits d s False = Inr cs" and c: "c \<in> set cs"
  shows "(s, c) \<in> X"
proof (cases "fmlookup (parent_to_range d) s")
  case None
  with g c show ?thesis by (simp add: GetChildrenSubsplits_def)
next
  case (Some ab)
  obtain a b where ab: "ab = (a, b)" by (cases ab)
  from g Some ab have "for_each (\<lambda>idx. bind_err (map_at (index_to_child d) idx)
                             (\<lambda>child_subsplit. Inr [child_subsplit])) [a..<b] = Inr cs"
    by (simp add: GetChildrenSubsplits_def)
  from for_each_Inr_set[OF this c] obtain idx zs where
    i: "idx \<in> set [a..<b]" and
    "bind_err (map_at (index_to_child d) idx) (\<lambda>child_subsplit. Inr [child_subsplit]) = Inr zs"
    "c \<in> set zs"
    by blast
  then have "fmlookup (index_to_child d) idx = Some c"
    by (auto simp: bind_err_eq_Inr map_at_def split: option.splits)
  with h Some ab i show ?thesis by auto
qed

lemma ProcessTrees_ranked:
  assumes "ProcessTrees tc empty_GPDAG = Inr d" "wf_trees tc"
  shows "ranked d"
proof -
  from ProcessTrees_result[OF assms(1)]
  have h: "\<forall>p a b i c. fmlookup (parent_to_range d) p = Some (a, b) \<and> a \<le> i \<and> i < b \<and>
              fmlookup (index_to_child d) i = Some c \<longrightarrow> (p, c) \<in> harvested tc"
    by blast
  show ?thesis unfolding ranked_def
  proof (intro allI impI)
    fix s c assume "c \<in> kids d s"
    then obtain cs where "GetChildrenSubsplits d s False = Inr cs \<or>
               GetChildrenSubsplits d (RotateSubsplit s) False = Inr cs" "c \<in> set cs"
      by (auto simp: kids_def)
    then have "(s, c) \<in> harvested tc \<or> (RotateSubsplit s, c) \<in> harvested tc"
      using GetChildrenSubsplits_harvested[OF h] by blast
    then show "count_bits c < count_bits s"
    proof
      assume "(s, c) \<in> harvested tc"
      with assms(2) show ?thesis by (rule wf_trees_harvested(1))
    next
      assume "(RotateSubsplit s, c) \<in> harvested tc"
      with assms(2) have "count_bits c < count_bits (RotateSubsplit s)"
        by (rule wf_trees_harvested(1))
      then show ?thesis by simp
    qed
  qed
qed

lemma fake_child_first_chunk:
  "\<not> Any (SplitChunk (Bitset_plus (Bitset_zero (length s div 2)) (SplitChunk s 1)) 0)"
proof -
  let ?h = "length s div 2"
  have l: "length (SplitChunk s 1) = ?h"
    by (simp add: SplitChunk_def)
  then have "length (Bitset_plus (Bitset_zero ?h) (SplitChunk s 1)) div 2 = ?h"
    by (simp add: Bitset_plus_def Bitset_zero_def)
  then have "SplitChunk (Bitset_plus (Bitset_zero ?h) (SplitChunk s 1)) 0 = Bitset_zero ?h"
    unfolding SplitChunk_def[of "Bitset_plus (Bitset_zero ?h) (SplitChunk s 1)"]
    by (simp add: Bitset_plus_def Bitset_zero_def)
  then show ?thesis by (simp add: Any_def Bitset_zero_def)
qed

text \<open>The first clade of every subsplit that has a non-fake node is non-empty.\<close>

definition real_first_chunks :: "GPDAG \<Rightarrow> bool" where
  "real_first_chunks d \<longleftrightarrow>
     (\<forall>i. taxon_count d \<le> i \<and> i < length (dag_nodes d) \<longrightarrow> Any (SplitChunk (bitsets d ! i) 0))"

lemma child_ids_below:
  assumes wf: "nodes_wf d" and po: "postorder d" and fc: "real_first_chunks d"
    and ci: "children_indexed d r n" and n: "taxon_count d \<le> n" "n < length (dag_nodes d)"
    and c: "c \<in> set (child_ids d r n)"
  shows "c < n"
proof -
  let ?s = "GetBitset (dag_nodes d ! n) r"
  from ci obtain cs where
    g: "GetChildrenSubsplits d ?s True = Inr cs" and
    ix: "\<forall>cb\<in>set cs. \<exists>c. fmlookup (subsplit_to_index d) cb = Some c \<and> c < length (dag_nodes d)"
    by (auto simp: children_indexed_def)
  from c g obtain cb where cb: "cb \<in> set cs" and ce: "c = the_index d cb"
    by (auto simp: child_ids_def)
  from ix cb ce have lk: "fmlookup (subsplit_to_index d) cb = Some c" and cN: "c < length (dag_nodes d)"
    by (auto simp: the_index_def)
  from lk wf have bc: "bitsets d ! c = cb" by (simp add: nodes_wf_lookup)
  show ?thesis
  proof (cases "fmlookup (parent_to_range d) ?s")
    case (Some ab)
    with g have "GetChildrenSubsplits d ?s False = Inr cs"
      by (simp add: GetChildrenSubsplits_def)
    with cb have "cb \<in> kids d (bitset (dag_nodes d ! n))"
      by (cases r) (auto simp: kids_def GetBitset_def)
    with po n have "cb \<in> set (take n (bitsets d))"
      by (auto simp: postorder_def nth_bitsets)
    then obtain k where k: "k < n" "bitsets d ! k = cb"
      using n by (auto simp: in_set_conv_nth)
    with wf n have "fmlookup (subsplit_to_index d) cb = Some k"
      by (simp add: nodes_wf_lookup)
    with lk k show ?thesis by simp
  next
    case None
    with g cb have "cb = Bitset_plus (Bitset_zero (length ?s div 2)) (SplitChunk ?s 1)"
      by (auto simp: GetChildrenSubsplits_def split: if_splits)
    then have "\<not> Any (SplitChunk cb 0)" by (simp only: fake_child_first_chunk not_False_eq_True)
    with fc bc cN have "c < taxon_count d"
      unfolding real_first_chunks_def by (metis not_le_imp_less)
    with n show ?thesis by simp
  qed
qed

lemma kids_child_ids:
  assumes wf: "nodes_wf d" and i: "i < length (dag_nodes d)"
    and k: "bitsets d ! i \<in> kids d (bitsets d ! j)" and j: "j < length (dag_nodes d)"
  shows "\<exists>r. i \<in> set (child_ids d r j)"
proof -
  from k obtain cs where
    "GetChildrenSubsplits d (GetBitset (dag_nodes d ! j) False) False = Inr cs \<or>
     GetChildrenSubsplits d (GetBitset (dag_nodes d ! j) True) False = Inr cs"
    and c: "bitsets d ! i \<in> set cs"
    unfolding kids_def GetBitset_def nth_bitsets[OF j] by auto
  then obtain r where
    g: "GetChildrenSubsplits d (GetBitset (dag_nodes d ! j) r) False = Inr cs"
    by blast
  from g c have "fmlookup (parent_to_range d) (GetBitset (dag_nodes d ! j) r) \<noteq> None"
    by (auto simp: GetChildrenSubsplits_def split: option.splits)
  with g have "GetChildrenSubsplits d (GetBitset (dag_nodes d ! j) r) True = Inr cs"
    by (auto simp: GetChildrenSubsplits_def)
  moreover from wf i have "fmlookup (subsplit_to_index d) (bitsets d ! i) = Some i"
    by (simp add: nodes_wf_lookup)
  then have "the_index d (bitsets d ! i) = i"
    by (simp add: the_index_def)
  ultimately have "i \<in> set (child_ids d r j)"
    using c by (force simp: child_ids_def)
  then show ?thesis ..
qed


text \<open>
  What the generators and the traversals rely on in a constructed DAG: node \<open>n\<close> is at
  position \<open>n\<close>; leafward edges leave non-fake nodes only and lead to smaller ids; the
  rootward lists mirror the leafward ones; every edge has its PCSP in the indexer; every
  rootsplit has its root node, the root nodes come in the order of the rootsplits, and
  every non-fake node is a root node or the child of a node; the fake subsplits come
  first.
\<close>

definition dag_wf :: "GPDAG \<Rightarrow> bool" where
  "dag_wf dag \<longleftrightarrow>
     taxon_count dag < length (dag_nodes dag) \<and> ids_ok dag \<and>
     (\<forall>n<length (dag_nodes dag). \<forall>r. \<forall>c\<in>set (leafward r (dag_nodes dag ! n)).
        taxon_count dag \<le> n \<and> c < n) \<and>
     (\<forall>n<length (dag_nodes dag). \<forall>r.
        set (rootward r (dag_nodes dag ! n)) =
          {p. p < length (dag_nodes dag) \<and> n \<in> set (leafward r (dag_nodes dag ! p))}) \<and>
     (\<forall>p<length (dag_nodes dag). \<forall>r. \<forall>c\<in>set (leafward r (dag_nodes dag ! p)).
        fmlookup (gpcsp_indexer dag)
          (Bitset_plus (GetBitset (dag_nodes dag ! p) r) (bitset (dag_nodes dag ! c))) \<noteq> None) \<and>
     (\<forall>k<length (rootsplits dag).
        fmlookup (subsplit_to_index dag) (root_subsplit (rootsplits dag ! k)) = Some (root_id dag k) \<and>
        taxon_count dag \<le> root_id dag k \<and> root_id dag k < length (dag_nodes dag)) \<and>
     (\<forall>j k. j < k \<and> k < length (rootsplits dag) \<longrightarrow> root_id dag j < root_id dag k) \<and>
     (\<forall>n. taxon_count dag \<le> n \<and> n < length (dag_nodes dag) \<longrightarrow>
        (\<exists>k<length (rootsplits dag). n = root_id dag k) \<or>
        (\<exists>p<length (dag_nodes dag). \<exists>r. n \<in> set (leafward r (dag_nodes dag ! p)))) \<and>
     distinct (bitsets dag) \<and>
     take (taxon_count dag) (bitsets dag) = map (fake_subsplit (taxon_count dag)) [0..<taxon_count dag]"

lemma edge_key_indexed:
  assumes a: "appended m 0 (pcsp_keys dag) (gpcsp_indexer dag)"
    and p: "taxon_count dag \<le> p" "p < length (dag_nodes dag)"
    and c: "c \<in> set (leafward r (dag_nodes dag ! p))"
  shows "fmlookup (gpcsp_indexer dag)
           (Bitset_plus (GetBitset (dag_nodes dag ! p) r) (bitset (dag_nodes dag ! c))) \<noteq> None"
proof -
  let ?k = "Bitset_plus (GetBitset (dag_nodes dag ! p) r) (bitset (dag_nodes dag ! c))"
  from c have "?k \<in> set (node_pcsp_keys dag (dag_nodes dag ! p))"
    by (cases r) (auto simp: node_pcsp_keys_def leafward_def GetBitset_def)
  moreover from p have "dag_nodes dag ! p \<in> set (drop (taxon_count dag) (dag_nodes dag))"
    by (auto simp: in_set_conv_nth intro!: exI[of _ "p - taxon_count dag"])
  ultimately have "?k \<in> set (pcsp_keys dag)"
    by (auto simp: pcsp_keys_def)
  then obtain j where "j < length (pcsp_keys dag)" "pcsp_keys dag ! j = ?k"
    by (auto simp: in_set_conv_nth)
  with a have "fmlookup (gpcsp_indexer dag) ?k = Some (0 + j)"
    by (auto simp: appended_def)
  then show ?thesis by simp
qed

lemma GPDAG_of_dag_wf:
  assumes g: "GPDAG_of tc = Inr dag" and w: "wf_trees tc"
  shows "dag_wf dag"
proof -
  from g obtain d1 d2 d3 where
    s1: "ProcessTrees tc empty_GPDAG = Inr d1" and s2: "BuildNodes d1 = Inr d2" and
    s3: "BuildEdges d2 = Inr d3" and s4: "BuildPCSPIndexer d3 = Inr dag"
    by (rule GPDAG_of_steps)
  let ?T = "taxon_count dag" and ?N = "length (dag_nodes dag)" and ?R = "length (rootsplits dag)"
  note r1 = ProcessTrees_result[OF s1]
  from r1 have nf: "node_fields d1 = (fmempty, [])" by blast
  from r1 have rs1: "rootsplits d1 = RootsplitCounterOf tc" by blast
  from r1 have ran1: "fmran' (index_to_child d1) \<subseteq> snd ` harvested tc" by blast
  note r2 = BuildNodes_result[OF s2 nf ProcessTrees_ranked[OF s1 w]]
  from r2 have wf2: "nodes_wf d2" and po2: "postorder d2" and
    tn2: "taxon_count d2 \<le> length (dag_nodes d2)"
    by (simp_all add: build_inv_def)
  from r2 have h2: "harvest_fields d2 = harvest_fields d1" and ff2: "fakes_first d2" and
    fh2: "from_harvest d2" and pa2: "parented d2" and rp2: "roots_placed d2"
    by blast+
  note r3 = BuildEdges_result[OF s3 wf2]
  from r3 have sk: "same_skeleton d2 d3" by blast
  from r3 have ci: "\<And>i r. taxon_count d2 \<le> i \<Longrightarrow> i < length (dag_nodes d2) \<Longrightarrow> children_indexed d2 r i"
    by blast
  from r3 have lw3: "\<And>n r. n < length (dag_nodes d2) \<Longrightarrow>
       leafward r (dag_nodes d3 ! n) = (if taxon_count d2 \<le> n then child_ids d2 r n else [])"
    by blast
  from r3 have rw3: "\<And>n r. n < length (dag_nodes d2) \<Longrightarrow>
       set (rootward r (dag_nodes d3 ! n)) =
         {p. taxon_count d2 \<le> p \<and> p < length (dag_nodes d2) \<and> n \<in> set (child_ids d2 r p)}"
    by blast
  note r4 = BuildPCSPIndexer_result[OF s4]
  from r4 have sg: "same_graph d3 dag" and tN: "taxon_count d3 < length (dag_nodes d3)" by blast+
  from GPDAG_of_indexer[OF g] have ap: "appended fmempty 0 (pcsp_keys dag) (gpcsp_indexer dag)"
    by blast
  from sg have nodes: "dag_nodes dag = dag_nodes d3" by (simp add: same_graph_def)
  from sk have len: "length (dag_nodes d3) = length (dag_nodes d2)" by (simp add: same_skeleton_def)
  from sk sg h2 have T: "?T = taxon_count d2"
    by (simp add: same_skeleton_def same_graph_def harvest_fields_def)
  from sk sg h2 rs1 have rs: "rootsplits dag = rootsplits d2" "rootsplits d2 = RootsplitCounterOf tc"
    by (simp_all add: same_skeleton_def same_graph_def harvest_fields_def)
  from sk sg have sti: "subsplit_to_index dag = subsplit_to_index d2"
    by (simp add: same_skeleton_def same_graph_def)
  from h2 have itc: "index_to_child d2 = index_to_child d1" by (simp add: harvest_fields_def)
  have N: "?N = length (dag_nodes d2)" using nodes len by simp
  have bs: "bitsets dag = bitsets d2"
    unfolding bitsets_def nodes using sk
    by (intro nth_equalityI) (simp_all add: same_skeleton_def)
  have bn: "\<And>n. n < ?N \<Longrightarrow> bitset (dag_nodes dag ! n) = bitsets d2 ! n"
    using bs N by (metis nth_bitsets)
  have lk: "\<And>s i. fmlookup (subsplit_to_index dag) s = Some i \<longleftrightarrow> i < ?N \<and> bitsets d2 ! i = s"
    unfolding sti N using wf2 by (rule nodes_wf_lookup)
  have c1: "?T < ?N" using tN nodes sg by (simp add: same_graph_def)
  have c2: "ids_ok dag"
    unfolding ids_ok_def nodes
    using sk wf2 by (simp add: same_skeleton_def nodes_wf_initial)
  have fc: "real_first_chunks d2"
    unfolding real_first_chunks_def
  proof (intro allI impI)
    fix i assume i: "taxon_count d2 \<le> i \<and> i < length (dag_nodes d2)"
    with fh2 have "bitsets d2 ! i \<in> root_subsplit ` set (rootsplits d2) \<union> fmran' (index_to_child d2)"
      by (simp add: from_harvest_def)
    then show "Any (SplitChunk (bitsets d2 ! i) 0)"
    proof
      assume "bitsets d2 ! i \<in> root_subsplit ` set (rootsplits d2)"
      with w rs show ?thesis by (auto simp: wf_trees_def)
    next
      assume "bitsets d2 ! i \<in> fmran' (index_to_child d2)"
      with ran1 itc obtain p where "(p, bitsets d2 ! i) \<in> harvested tc" by auto
      with w show ?thesis by (rule wf_trees_harvested(2))
    qed
  qed
  have c3: "\<forall>n<?N. \<forall>r. \<forall>c\<in>set (leafward r (dag_nodes dag ! n)). ?T \<le> n \<and> c < n"
  proof (intro allI impI ballI)
    fix n r c assume n: "n < ?N" and c: "c \<in> set (leafward r (dag_nodes dag ! n))"
    from n c lw3[of n r] have tn: "taxon_count d2 \<le> n" and cc: "c \<in> set (child_ids d2 r n)"
      unfolding nodes len by (auto split: if_splits)
    from child_ids_below[OF wf2 po2 fc ci[OF tn] tn _ cc] n N tn T
    show "?T \<le> n \<and> c < n" by simp
  qed
  have c4: "\<forall>n<?N. \<forall>r. set (rootward r (dag_nodes dag ! n)) =
          {p. p < ?N \<and> n \<in> set (leafward r (dag_nodes dag ! p))}"
  proof (intro allI impI)
    fix n r assume n: "n < ?N"
    have "{p. taxon_count d2 \<le> p \<and> p < length (dag_nodes d2) \<and> n \<in> set (child_ids d2 r p)}
        = {p. p < ?N \<and> n \<in> set (leafward r (dag_nodes dag ! p))}"
      unfolding nodes len using lw3 by auto
    with rw3[of n r] n show "set (rootward r (dag_nodes dag ! n)) =
          {p. p < ?N \<and> n \<in> set (leafward r (dag_nodes dag ! p))}"
      unfolding nodes len by simp
  qed
  have c5: "\<forall>p<?N. \<forall>r. \<forall>c\<in>set (leafward r (dag_nodes dag ! p)).
        fmlookup (gpcsp_indexer dag)
          (Bitset_plus (GetBitset (dag_nodes dag ! p) r) (bitset (dag_nodes dag ! c))) \<noteq> None"
  proof (intro allI impI ballI)
    fix p r c assume p: "p < ?N" and c: "c \<in> set (leafward r (dag_nodes dag ! p))"
    from c3 p c have "?T \<le> p" by blast
    from edge_key_indexed[OF ap this p c]
    show "fmlookup (gpcsp_indexer dag)
          (Bitset_plus (GetBitset (dag_nodes dag ! p) r) (bitset (dag_nodes dag ! c))) \<noteq> None" .
  qed
  from rp2 obtain ps where
    pl: "length ps = length (rootsplits d2)" and so: "sorted_wrt (<) ps" and
    pk: "\<And>k. k < length (rootsplits d2) \<Longrightarrow>
           taxon_count d2 \<le> ps ! k \<and> ps ! k < length (dag_nodes d2) \<and>
           bitsets d2 ! (ps ! k) = root_subsplit (rootsplits d2 ! k)"
    unfolding roots_placed_def by blast
  have ri: "\<And>k. k < ?R \<Longrightarrow>
      fmlookup (subsplit_to_index dag) (root_subsplit (rootsplits dag ! k)) = Some (ps ! k)"
    using pk unfolding lk rs(1) N by simp
  then have rid: "\<And>k. k < ?R \<Longrightarrow> root_id dag k = ps ! k"
    by (simp add: root_id_def root_index_def)
  have c6: "\<forall>k<?R.
        fmlookup (subsplit_to_index dag) (root_subsplit (rootsplits dag ! k)) = Some (root_id dag k) \<and>
        ?T \<le> root_id dag k \<and> root_id dag k < ?N"
    using ri rid pk unfolding rs(1) N T by simp
  have c7: "\<forall>j k. j < k \<and> k < ?R \<longrightarrow> root_id dag j < root_id dag k"
    using so pl rid unfolding rs(1) by (auto simp: sorted_wrt_iff_nth_less)
  have c8: "\<forall>n. ?T \<le> n \<and> n < ?N \<longrightarrow>
        (\<exists>k<?R. n = root_id dag k) \<or>
        (\<exists>p<?N. \<exists>r. n \<in> set (leafward r (dag_nodes dag ! p)))"
  proof (intro allI impI)
    fix n assume n: "?T \<le> n \<and> n < ?N"
    with pa2 have "bitsets d2 ! n \<in> root_subsplit ` set (rootsplits d2) \<or>
          (\<exists>j. taxon_count d2 \<le> j \<and> j < length (dag_nodes d2) \<and>
               bitsets d2 ! n \<in> kids d2 (bitsets d2 ! j))"
      unfolding parented_def T N by blast
    then show "(\<exists>k<?R. n = root_id dag k) \<or>
        (\<exists>p<?N. \<exists>r. n \<in> set (leafward r (dag_nodes dag ! p)))"
    proof
      assume "bitsets d2 ! n \<in> root_subsplit ` set (rootsplits d2)"
      then obtain k where k: "k < ?R" "bitsets d2 ! n = root_subsplit (rootsplits dag ! k)"
        unfolding rs(1) by (auto simp: in_set_conv_nth)
      with n have "fmlookup (subsplit_to_index dag) (root_subsplit (rootsplits dag ! k)) = Some n"
        unfolding lk by simp
      with ri[OF k(1)] rid[OF k(1)] k(1) show ?thesis by auto
    next
      assume "\<exists>j. taxon_count d2 \<le> j \<and> j < length (dag_nodes d2) \<and>
               bitsets d2 ! n \<in> kids d2 (bitsets d2 ! j)"
      then obtain j where j: "taxon_count d2 \<le> j" "j < length (dag_nodes d2)"
        "bitsets d2 ! n \<in> kids d2 (bitsets d2 ! j)" by blast
      from n N have "n < length (dag_nodes d2)" by simp
      from kids_child_ids[OF wf2 this j(3) j(2)] obtain r where "n \<in> set (child_ids d2 r j)" ..
      with lw3[OF j(2), of r] j(1) have "n \<in> set (leafward r (dag_nodes dag ! j))"
        unfolding nodes by simp
      with j(2) N show ?thesis by auto
    qed
  qed
  have c9: "distinct (bitsets dag)"
    unfolding bs using wf2 by (rule nodes_wf_distinct)
  have c10: "take ?T (bitsets dag) = map (fake_subsplit ?T) [0..<?T]"
    unfolding bs T using ff2 by (simp add: fakes_first_def)
  from c1 c2 c3 c4 c5 c6 c7 c8 c9 c10 show ?thesis
    unfolding dag_wf_def by blast
qed

lemma example_dag_wf: "dag_wf example_dag"
  using GPDAG_of_dag_wf[OF example_dag_built example_trees_wf] .


lemma dag_wf_D:
  assumes "dag_wf dag"
  shows "taxon_count dag < length (dag_nodes dag)"
    and "ids_ok dag"
    and "\<And>n r c. n < length (dag_nodes dag) \<Longrightarrow> c \<in> set (leafward r (dag_nodes dag ! n)) \<Longrightarrow>
           taxon_count dag \<le> n \<and> c < n"
    and "\<And>n r. n < length (dag_nodes dag) \<Longrightarrow>
           set (rootward r (dag_nodes dag ! n)) =
             {p. p < length (dag_nodes dag) \<and> n \<in> set (leafward r (dag_nodes dag ! p))}"
    and "\<And>p r c. p < length (dag_nodes dag) \<Longrightarrow> c \<in> set (leafward r (dag_nodes dag ! p)) \<Longrightarrow>
           fmlookup (gpcsp_indexer dag)
             (Bitset_plus (GetBitset (dag_nodes dag ! p) r) (bitset (dag_nodes dag ! c))) \<noteq> None"
    and "\<And>k. k < length (rootsplits dag) \<Longrightarrow>
           fmlookup (subsplit_to_index dag) (root_subsplit (rootsplits dag ! k)) = Some (root_id dag k) \<and>
           taxon_count dag \<le> root_id dag k \<and> root_id dag k < length (dag_nodes dag)"
    and "\<And>j k. j < k \<Longrightarrow> k < length (rootsplits dag) \<Longrightarrow> root_id dag j < root_id dag k"
    and "\<And>n. taxon_count dag \<le> n \<Longrightarrow> n < length (dag_nodes dag) \<Longrightarrow>
           (\<exists>k<length (rootsplits dag). n = root_id dag k) \<or>
           (\<exists>p<length (dag_nodes dag). \<exists>r. n \<in> set (leafward r (dag_nodes dag ! p)))"
    and "distinct (bitsets dag)"
    and "take (taxon_count dag) (bitsets dag) = map (fake_subsplit (taxon_count dag)) [0..<taxon_count dag]"
proof -
  note a = assms[unfolded dag_wf_def]
  from a show "taxon_count dag < length (dag_nodes dag)" by (elim conjE)
  from a show "ids_ok dag" by (elim conjE)
  from a show "distinct (bitsets dag)" by (elim conjE)
  from a show "take (taxon_count dag) (bitsets dag) = map (fake_subsplit (taxon_count dag)) [0..<taxon_count dag]"
    by (elim conjE)
  from a have "\<forall>n<length (dag_nodes dag). \<forall>r. \<forall>c\<in>set (leafward r (dag_nodes dag ! n)).
        taxon_count dag \<le> n \<and> c < n" by (elim conjE)
  then show "\<And>n r c. n < length (dag_nodes dag) \<Longrightarrow> c \<in> set (leafward r (dag_nodes dag ! n)) \<Longrightarrow>
           taxon_count dag \<le> n \<and> c < n" by blast
  from a have "\<forall>n<length (dag_nodes dag). \<forall>r.
        set (rootward r (dag_nodes dag ! n)) =
          {p. p < length (dag_nodes dag) \<and> n \<in> set (leafward r (dag_nodes dag ! p))}"
    by (elim conjE)
  then show "\<And>n r. n < length (dag_nodes dag) \<Longrightarrow>
           set (rootward r (dag_nodes dag ! n)) =
             {p. p < length (dag_nodes dag) \<and> n \<in> set (leafward r (dag_nodes dag ! p))}"
    by simp
  from a have "\<forall>p<length (dag_nodes dag). \<forall>r. \<forall>c\<in>set (leafward r (dag_nodes dag ! p)).
        fmlookup (gpcsp_indexer dag)
          (Bitset_plus (GetBitset (dag_nodes dag ! p) r) (bitset (dag_nodes dag ! c))) \<noteq> None"
    by (elim conjE)
  then show "\<And>p r c. p < length (dag_nodes dag) \<Longrightarrow> c \<in> set (leafward r (dag_nodes dag ! p)) \<Longrightarrow>
           fmlookup (gpcsp_indexer dag)
             (Bitset_plus (GetBitset (dag_nodes dag ! p) r) (bitset (dag_nodes dag ! c))) \<noteq> None"
    by blast
  from a have "\<forall>k<length (rootsplits dag).
        fmlookup (subsplit_to_index dag) (root_subsplit (rootsplits dag ! k)) = Some (root_id dag k) \<and>
        taxon_count dag \<le> root_id dag k \<and> root_id dag k < length (dag_nodes dag)"
    by (elim conjE)
  then show "\<And>k. k < length (rootsplits dag) \<Longrightarrow>
           fmlookup (subsplit_to_index dag) (root_subsplit (rootsplits dag ! k)) = Some (root_id dag k) \<and>
           taxon_count dag \<le> root_id dag k \<and> root_id dag k < length (dag_nodes dag)"
    by blast
  from a have "\<forall>j k. j < k \<and> k < length (rootsplits dag) \<longrightarrow> root_id dag j < root_id dag k"
    by (elim conjE)
  then show "\<And>j k. j < k \<Longrightarrow> k < length (rootsplits dag) \<Longrightarrow> root_id dag j < root_id dag k"
    by blast
  from a have "\<forall>n. taxon_count dag \<le> n \<and> n < length (dag_nodes dag) \<longrightarrow>
        (\<exists>k<length (rootsplits dag). n = root_id dag k) \<or>
        (\<exists>p<length (dag_nodes dag). \<exists>r. n \<in> set (leafward r (dag_nodes dag ! p)))"
    by (elim conjE)
  then show "\<And>n. taxon_count dag \<le> n \<Longrightarrow> n < length (dag_nodes dag) \<Longrightarrow>
           (\<exists>k<length (rootsplits dag). n = root_id dag k) \<or>
           (\<exists>p<length (dag_nodes dag). \<exists>r. n \<in> set (leafward r (dag_nodes dag ! p)))"
    by blast
qed


section \<open>Post-order ids\<close>

definition leafward_edges :: "GPDAG \<Rightarrow> (nat \<times> nat) set" where
  "leafward_edges dag =
     {(n, c). n < length (dag_nodes dag) \<and>
        c \<in> set (leafward_sorted (dag_nodes dag ! n)) \<union> set (leafward_rotated (dag_nodes dag ! n))}"

lemma dag_wf_leafward_edge:
  assumes "dag_wf dag" "(n, c) \<in> leafward_edges dag"
  shows "c < n \<and> n < length (dag_nodes dag) \<and> taxon_count dag \<le> n"
proof -
  from assms(2) have n: "n < length (dag_nodes dag)" and
    "c \<in> set (leafward False (dag_nodes dag ! n)) \<or> c \<in> set (leafward True (dag_nodes dag ! n))"
    by (auto simp: leafward_edges_def leafward_def)
  then obtain r where "c \<in> set (leafward r (dag_nodes dag ! n))" by blast
  from dag_wf_D(3)[OF assms(1) n this] n show ?thesis by simp
qed

lemma dag_wf_leafward_path:
  assumes "dag_wf dag" "(n, m) \<in> (leafward_edges dag)\<^sup>+"
  shows "m < n \<and> n < length (dag_nodes dag) \<and> taxon_count dag \<le> n"
  using assms(2)
proof (induction rule: trancl_induct)
  case (base c)
  with assms(1) show ?case by (simp add: dag_wf_leafward_edge)
next
  case (step c k)
  from dag_wf_leafward_edge[OF assms(1) step.hyps(2)] step.IH show ?case by simp
qed

lemma dag_wf_fakes:
  assumes "dag_wf dag" "n < length (dag_nodes dag)"
  shows "bitset (dag_nodes dag ! n) \<in> fake_subsplit (taxon_count dag) ` {0..<taxon_count dag}
           \<longleftrightarrow> n < taxon_count dag"
    and "n < taxon_count dag \<Longrightarrow> bitset (dag_nodes dag ! n) = fake_subsplit (taxon_count dag) n"
proof -
  let ?T = "taxon_count dag"
  note d = dag_wf_D(9)[OF assms(1)] and t = dag_wf_D(10)[OF assms(1)] and
    tn = dag_wf_D(1)[OF assms(1)]
  have f: "bitsets dag ! j = fake_subsplit ?T j" if "j < ?T" for j
  proof -
    from that tn have "bitsets dag ! j = take ?T (bitsets dag) ! j" by simp
    also have "\<dots> = fake_subsplit ?T j" unfolding t using that by simp
    finally show ?thesis .
  qed
  show "n < ?T \<Longrightarrow> bitset (dag_nodes dag ! n) = fake_subsplit ?T n"
    using f[of n] assms(2) by (simp add: nth_bitsets)
  show "bitset (dag_nodes dag ! n) \<in> fake_subsplit ?T ` {0..<?T} \<longleftrightarrow> n < ?T"
  proof
    assume "bitset (dag_nodes dag ! n) \<in> fake_subsplit ?T ` {0..<?T}"
    then obtain j where j: "j < ?T" "bitset (dag_nodes dag ! n) = fake_subsplit ?T j" by auto
    with f[of j] assms(2) have "bitsets dag ! n = bitsets dag ! j" by (simp add: nth_bitsets)
    with d assms(2) j(1) tn have "n = j" by (simp add: nth_eq_iff_index_eq)
    with j show "n < ?T" by simp
  next
    assume "n < ?T"
    with f[of n] assms(2) show "bitset (dag_nodes dag ! n) \<in> fake_subsplit ?T ` {0..<?T}"
      by (simp add: nth_bitsets)
  qed
qed

text \<open>
  Claim C3. In the DAG built from a well-formed tree collection the node at position \<open>n\<close>
  has id \<open>n\<close>; every node reachable from a node by one or more leafward edges has a
  strictly smaller id; and the nodes of the fake subsplits are exactly those with the ids
  \<open>0, ..., T - 1\<close>, the fake subsplit of taxon \<open>j\<close> at id \<open>j\<close>.
\<close>

theorem postorder_ids:
  assumes "GPDAG_of tree_collection = Inr dag" "wf_trees tree_collection"
  shows "(\<forall>n m. (n, m) \<in> (leafward_edges dag)\<^sup>+ \<longrightarrow>
            Id (dag_nodes dag ! m) < Id (dag_nodes dag ! n)) \<and>
         taxon_count dag \<le> length (dag_nodes dag) \<and>
         (\<forall>n<length (dag_nodes dag). Id (dag_nodes dag ! n) = n \<and>
            (bitset (dag_nodes dag ! n) \<in> fake_subsplit (taxon_count dag) ` {0..<taxon_count dag}
               \<longleftrightarrow> n < taxon_count dag)) \<and>
         (\<forall>j<taxon_count dag. bitset (dag_nodes dag ! j) = fake_subsplit (taxon_count dag) j)"
proof -
  from assms have w: "dag_wf dag" by (rule GPDAG_of_dag_wf)
  note io = dag_wf_D(2)[OF w] and tn = dag_wf_D(1)[OF w]
  have "Id (dag_nodes dag ! m) < Id (dag_nodes dag ! n)"
    if "(n, m) \<in> (leafward_edges dag)\<^sup>+" for n m
  proof -
    from dag_wf_leafward_path[OF w that] have "m < n" "n < length (dag_nodes dag)" by simp_all
    with io show ?thesis by (simp add: ids_ok_def)
  qed
  moreover have "\<forall>n<length (dag_nodes dag). Id (dag_nodes dag ! n) = n \<and>
            (bitset (dag_nodes dag ! n) \<in> fake_subsplit (taxon_count dag) ` {0..<taxon_count dag}
               \<longleftrightarrow> n < taxon_count dag)"
    using io dag_wf_fakes(1)[OF w] by (simp add: ids_ok_def)
  moreover have "\<forall>j<taxon_count dag. bitset (dag_nodes dag ! j) = fake_subsplit (taxon_count dag) j"
    using dag_wf_fakes(2)[OF w] tn by simp
  ultimately show ?thesis using tn by simp
qed

lemma example_leafward_edges:
  "(4, 3) \<in> leafward_edges example_dag" "(3, 0) \<in> leafward_edges example_dag"
  "(2::nat) < taxon_count example_dag" "(2::nat) < length (dag_nodes example_dag)"
  unfolding leafward_edges_def mem_Collect_eq prod.case Un_iff
  by code_simp+

lemma example_leafward_path: "(4, 0) \<in> (leafward_edges example_dag)\<^sup>+"
  using example_leafward_edges(1,2) by (rule trancl_into_trancl[OF r_into_trancl])

theorem postorder_ids_witness:
  "GPDAG_of example_trees = Inr example_dag \<and> wf_trees example_trees \<and>
   (4, 0) \<in> (leafward_edges example_dag)\<^sup>+ \<and>
   Id (dag_nodes example_dag ! 0) < Id (dag_nodes example_dag ! 4) \<and>
   (2::nat) < taxon_count example_dag \<and> (2::nat) < length (dag_nodes example_dag) \<and>
   Id (dag_nodes example_dag ! 2) = 2 \<and>
   bitset (dag_nodes example_dag ! 2) = fake_subsplit (taxon_count example_dag) 2"
proof -
  note t = postorder_ids [OF example_dag_built example_trees_wf]
  from t have a: "\<forall>n m. (n, m) \<in> (leafward_edges example_dag)\<^sup>+ \<longrightarrow>
            Id (dag_nodes example_dag ! m) < Id (dag_nodes example_dag ! n)"
    by (elim conjE)
  from t have b: "\<forall>n<length (dag_nodes example_dag). Id (dag_nodes example_dag ! n) = n \<and>
            (bitset (dag_nodes example_dag ! n)
               \<in> fake_subsplit (taxon_count example_dag) ` {0..<taxon_count example_dag}
               \<longleftrightarrow> n < taxon_count example_dag)"
    by (elim conjE)
  from t have c: "\<forall>j<taxon_count example_dag.
      bitset (dag_nodes example_dag ! j) = fake_subsplit (taxon_count example_dag) j"
    by (elim conjE)
  from a example_leafward_path
  have "Id (dag_nodes example_dag ! 0) < Id (dag_nodes example_dag ! 4)" by blast
  moreover from b example_leafward_edges(4) have "Id (dag_nodes example_dag ! 2) = 2" by blast
  moreover from c example_leafward_edges(3)
  have "bitset (dag_nodes example_dag ! 2) = fake_subsplit (taxon_count example_dag) 2" by blast
  ultimately show ?thesis
    using example_dag_built example_trees_wf example_leafward_path example_leafward_edges(3,4)
    by simp
qed


section \<open>The parameter ranges of the children\<close>

text \<open>The indexer pass only adds entries to \<open>gpcsp_indexer_\<close> and \<open>subsplit_to_range_\<close>.\<close>

definition indexer_grows :: "GPDAG \<Rightarrow> GPDAG \<Rightarrow> bool" where
  "indexer_grows d d' \<longleftrightarrow>
     same_graph d d' \<and>
     (\<forall>k v. fmlookup (gpcsp_indexer d) k = Some v \<longrightarrow> fmlookup (gpcsp_indexer d') k = Some v) \<and>
     (\<forall>k v. fmlookup (subsplit_to_range d) k = Some v \<longrightarrow>
            fmlookup (subsplit_to_range d') k = Some v)"

lemma indexer_grows_refl [simp]: "indexer_grows d d"
  by (simp add: indexer_grows_def)

lemma indexer_grows_trans:
  assumes "indexer_grows d d1" "indexer_grows d1 d2"
  shows "indexer_grows d d2"
  using assms same_graph_trans unfolding indexer_grows_def by blast

lemma appended_grows:
  assumes "appended m idx ks m'" "fmlookup m k = Some v"
  shows "fmlookup m' k = Some v"
proof -
  from assms have "k \<notin> set ks" unfolding appended_def by force
  with assms show ?thesis unfolding appended_def by metis
qed

text \<open>
  \<open>block_recorded d pb cs\<close>: the children \<open>cs\<close> of the parent bitset \<open>pb\<close>, when there are
  any, have consecutive parameter indices, and \<open>subsplit_to_range_\<close> maps \<open>pb\<close> to the
  range of these indices.
\<close>

definition block_recorded :: "GPDAG \<Rightarrow> Bitset \<Rightarrow> nat list \<Rightarrow> bool" where
  "block_recorded d pb cs \<longleftrightarrow>
     (cs \<noteq> [] \<longrightarrow>
        (\<exists>a. fmlookup (subsplit_to_range d) pb = Some (a, a + length cs) \<and>
             (\<forall>j<length cs.
                fmlookup (gpcsp_indexer d) (Bitset_plus pb (bitset (dag_nodes d ! (cs ! j))))
                  = Some (a + j))))"

lemma block_recorded_grows:
  assumes "indexer_grows d d'" "block_recorded d pb cs"
  shows "block_recorded d' pb cs"
proof -
  from assms(1) have n: "dag_nodes d' = dag_nodes d"
    by (simp add: indexer_grows_def same_graph_def)
  from assms(1) have
    g: "\<And>k v. fmlookup (gpcsp_indexer d) k = Some v \<Longrightarrow> fmlookup (gpcsp_indexer d') k = Some v" and
    r: "\<And>k v. fmlookup (subsplit_to_range d) k = Some v \<Longrightarrow>
            fmlookup (subsplit_to_range d') k = Some v"
    unfolding indexer_grows_def by blast+
  show ?thesis
    unfolding block_recorded_def n
  proof
    assume "cs \<noteq> []"
    with assms(2) obtain a where
      a: "fmlookup (subsplit_to_range d) pb = Some (a, a + length cs)" and
      b: "\<forall>j<length cs.
                fmlookup (gpcsp_indexer d) (Bitset_plus pb (bitset (dag_nodes d ! (cs ! j))))
                  = Some (a + j)"
      unfolding block_recorded_def by blast
    from r[OF a] b g
    show "\<exists>a. fmlookup (subsplit_to_range d') pb = Some (a, a + length cs) \<and>
             (\<forall>j<length cs.
                fmlookup (gpcsp_indexer d') (Bitset_plus pb (bitset (dag_nodes d ! (cs ! j))))
                  = Some (a + j))"
      by blast
  qed
qed

lemma BuildPCSPIndexer_child_range:
  "BuildPCSPIndexer_child pb c (idx, d) = Inr (idx', d') \<Longrightarrow>
     subsplit_to_range d' = subsplit_to_range d"
  by (auto simp: BuildPCSPIndexer_child_def bind_err_eq_Inr)

lemma BuildPCSPIndexer_block_range:
  assumes "BuildPCSPIndexer_block pb cs (idx, d) = Inr (idx', d')"
  shows "indexer_grows d d' \<and> block_recorded d' pb cs \<and>
         (\<forall>s v. fmlookup (subsplit_to_range d') s = Some v \<longrightarrow>
            fmlookup (subsplit_to_range d) s = Some v \<or> (s = pb \<and> cs \<noteq> []))"
proof (cases "cs = []")
  case True
  with assms show ?thesis by (simp add: BuildPCSPIndexer_block_def block_recorded_def)
next
  case False
  let ?ks = "map (\<lambda>c. Bitset_plus pb (bitset (dag_nodes d ! c))) cs"
  from BuildPCSPIndexer_block_step[OF assms] have
    sg: "same_graph d d'" and ap: "appended (gpcsp_indexer d) idx ?ks (gpcsp_indexer d')"
    by blast+
  from False assms obtain m where
    si: "SafeInsert (subsplit_to_range d) pb (idx, idx + length cs) = Inr m" and
    f: "fold_err (BuildPCSPIndexer_child pb) cs (idx, d\<lparr>subsplit_to_range := m\<rparr>) = Inr (idx', d')"
    by (auto simp: BuildPCSPIndexer_block_def Let_def bind_err_eq_Inr)
  have "subsplit_to_range (snd (idx', d')) = m"
    by (rule fold_err_invariant[OF f]) (auto dest: BuildPCSPIndexer_child_range)
  then have rm: "subsplit_to_range d' = m" by simp
  from si have m: "m = fmupd pb (idx, idx + length cs) (subsplit_to_range d)"
    and fresh: "fmlookup (subsplit_to_range d) pb = None"
    by (auto simp: SafeInsert_def split: option.splits)
  from sg have n: "dag_nodes d' = dag_nodes d" by (simp add: same_graph_def)
  have g: "indexer_grows d d'"
    unfolding indexer_grows_def
  proof (intro conjI allI impI)
    show "same_graph d d'" by (rule sg)
  next
    fix k v assume "fmlookup (gpcsp_indexer d) k = Some v"
    with ap show "fmlookup (gpcsp_indexer d') k = Some v" by (rule appended_grows)
  next
    fix k v assume "fmlookup (subsplit_to_range d) k = Some v"
    with fresh show "fmlookup (subsplit_to_range d') k = Some v"
      unfolding rm m by auto
  qed
  have b: "block_recorded d' pb cs"
    unfolding block_recorded_def n
  proof (intro impI exI[of _ idx] conjI allI)
    show "fmlookup (subsplit_to_range d') pb = Some (idx, idx + length cs)"
      unfolding rm m by simp
  next
    fix j assume j: "j < length cs"
    with ap have "fmlookup (gpcsp_indexer d') (?ks ! j) = Some (idx + j)"
      unfolding appended_def by simp
    with j show "fmlookup (gpcsp_indexer d') (Bitset_plus pb (bitset (dag_nodes d ! (cs ! j))))
                  = Some (idx + j)" by simp
  qed
  have o: "\<forall>s v. fmlookup (subsplit_to_range d') s = Some v \<longrightarrow>
            fmlookup (subsplit_to_range d) s = Some v \<or> (s = pb \<and> cs \<noteq> [])"
    unfolding rm m using False by auto
  from g b o show ?thesis by blast
qed

text \<open>The same for both classes of children of a node.\<close>

definition ranges_recorded :: "GPDAG \<Rightarrow> GPDAGNode \<Rightarrow> bool" where
  "ranges_recorded d node \<longleftrightarrow>
     block_recorded d (bitset node) (leafward_sorted node) \<and>
     block_recorded d (RotateSubsplit (bitset node)) (leafward_rotated node)"

definition range_owner :: "Bitset \<Rightarrow> GPDAGNode \<Rightarrow> bool" where
  "range_owner s node \<longleftrightarrow>
     s = bitset node \<and> leafward_sorted node \<noteq> [] \<or>
     s = RotateSubsplit (bitset node) \<and> leafward_rotated node \<noteq> []"

lemma BuildPCSPIndexer_node_range:
  assumes "BuildPCSPIndexer_node node (idx, d) = Inr (idx', d')"
  shows "indexer_grows d d' \<and> ranges_recorded d' node \<and>
         (\<forall>s v. fmlookup (subsplit_to_range d') s = Some v \<longrightarrow>
            fmlookup (subsplit_to_range d) s = Some v \<or> range_owner s node)"
proof -
  from assms obtain st where
    a: "BuildPCSPIndexer_block (bitset node) (leafward_sorted node) (idx, d) = Inr st" and
    b: "BuildPCSPIndexer_block (RotateSubsplit (bitset node)) (leafward_rotated node) st
          = Inr (idx', d')"
    by (auto simp: BuildPCSPIndexer_node_def bind_err_eq_Inr)
  obtain idx1 d1 where st: "st = (idx1, d1)" by (cases st)
  note s1 = BuildPCSPIndexer_block_range[OF a[unfolded st]]
  note s2 = BuildPCSPIndexer_block_range[OF b[unfolded st]]
  from s1 s2 have g: "indexer_grows d d'" by (blast intro: indexer_grows_trans)
  from s1 s2 have r: "ranges_recorded d' node"
    unfolding ranges_recorded_def by (blast intro: block_recorded_grows)
  have o: "fmlookup (subsplit_to_range d) s = Some v \<or> range_owner s node"
    if "fmlookup (subsplit_to_range d') s = Some v" for s v
  proof -
    from s2 that have "fmlookup (subsplit_to_range d1) s = Some v \<or>
        (s = RotateSubsplit (bitset node) \<and> leafward_rotated node \<noteq> [])" by blast
    moreover from s1 have "fmlookup (subsplit_to_range d1) s = Some v \<Longrightarrow>
        fmlookup (subsplit_to_range d) s = Some v \<or> (s = bitset node \<and> leafward_sorted node \<noteq> [])"
      by blast
    ultimately show ?thesis unfolding range_owner_def by blast
  qed
  from g r o show ?thesis by blast
qed

lemma BuildPCSPIndexer_nodes_range:
  assumes "fold_err BuildPCSPIndexer_node xs (idx, d) = Inr (idx', d')"
  shows "indexer_grows d d' \<and> (\<forall>node\<in>set xs. ranges_recorded d' node) \<and>
         (\<forall>s v. fmlookup (subsplit_to_range d') s = Some v \<longrightarrow>
            fmlookup (subsplit_to_range d) s = Some v \<or> (\<exists>node\<in>set xs. range_owner s node))"
  using assms
proof (induction xs arbitrary: idx d)
  case Nil
  then show ?case by simp
next
  case (Cons x xs)
  from Cons.prems obtain st where
    a: "BuildPCSPIndexer_node x (idx, d) = Inr st" and
    b: "fold_err BuildPCSPIndexer_node xs st = Inr (idx', d')"
    by (auto simp: bind_err_eq_Inr)
  obtain idx1 d1 where st: "st = (idx1, d1)" by (cases st)
  note s1 = BuildPCSPIndexer_node_range[OF a[unfolded st]]
  note s2 = Cons.IH[OF b[unfolded st]]
  from s1 s2 have g: "indexer_grows d d'" by (blast intro: indexer_grows_trans)
  from s2 have g2: "indexer_grows d1 d'" by blast
  from s1 have "ranges_recorded d1 x" by blast
  with g2 have "ranges_recorded d' x"
    unfolding ranges_recorded_def by (blast intro: block_recorded_grows)
  with s2 have r: "\<forall>node\<in>set (x # xs). ranges_recorded d' node" by simp
  have o: "fmlookup (subsplit_to_range d) s = Some v \<or> (\<exists>node\<in>set (x # xs). range_owner s node)"
    if "fmlookup (subsplit_to_range d') s = Some v" for s v
  proof -
    from s2 that have "fmlookup (subsplit_to_range d1) s = Some v \<or>
        (\<exists>node\<in>set xs. range_owner s node)" by blast
    moreover from s1 have "fmlookup (subsplit_to_range d1) s = Some v \<Longrightarrow>
        fmlookup (subsplit_to_range d) s = Some v \<or> range_owner s x" by blast
    ultimately show ?thesis by auto
  qed
  from g r o show ?case by blast
qed

lemma BuildPCSPIndexer_rootsplit_range:
  "BuildPCSPIndexer_rootsplit r (idx, d) = Inr (idx', d') \<Longrightarrow>
     subsplit_to_range d' = subsplit_to_range d"
  by (auto simp: BuildPCSPIndexer_rootsplit_def bind_err_eq_Inr)

lemma BuildPCSPIndexer_ranges:
  assumes "BuildPCSPIndexer d = Inr d'" "subsplit_to_range d = fmempty"
  shows "\<forall>node\<in>set (drop (taxon_count d) (dag_nodes d)). ranges_recorded d' node"
    and "\<forall>s v. fmlookup (subsplit_to_range d') s = Some v \<longrightarrow>
           (\<exists>node\<in>set (drop (taxon_count d) (dag_nodes d)). range_owner s node)"
proof -
  from assms(1) obtain st idx' where
    a: "fold_err BuildPCSPIndexer_rootsplit (rootsplits d) (0, d) = Inr st" and
    b: "IterateOverRealNodes (snd st) BuildPCSPIndexer_node st = Inr (idx', d')"
    by (auto simp: BuildPCSPIndexer_def bind_err_eq_Inr)
  obtain idx1 d1 where st: "st = (idx1, d1)" by (cases st)
  have "subsplit_to_range (snd st) = fmempty \<and> dag_nodes (snd st) = dag_nodes d \<and>
        taxon_count (snd st) = taxon_count d"
    by (rule fold_err_invariant[OF a])
       (auto simp: assms(2) BuildPCSPIndexer_rootsplit_def bind_err_eq_Inr)
  with st have e: "subsplit_to_range d1 = fmempty" "dag_nodes d1 = dag_nodes d"
    "taxon_count d1 = taxon_count d" by simp_all
  from b st have
    c: "fold_err BuildPCSPIndexer_node (drop (taxon_count d1) (dag_nodes d1)) (idx1, d1)
          = Inr (idx', d')"
    by (auto simp: IterateOverRealNodes_def split: if_splits)
  note r = BuildPCSPIndexer_nodes_range[OF c, unfolded e]
  from r show "\<forall>node\<in>set (drop (taxon_count d) (dag_nodes d)). ranges_recorded d' node"
    by blast
  from r show "\<forall>s v. fmlookup (subsplit_to_range d') s = Some v \<longrightarrow>
           (\<exists>node\<in>set (drop (taxon_count d) (dag_nodes d)). range_owner s node)"
    by simp
qed


text \<open>In a constructed DAG the children of a class are determined by the parent bitset.\<close>

lemma GPDAG_of_leafward_bitset:
  assumes g: "GPDAG_of tc = Inr dag" and w: "wf_trees tc"
    and n: "taxon_count dag \<le> n" "n < length (dag_nodes dag)"
    and m: "taxon_count dag \<le> m" "m < length (dag_nodes dag)"
    and e: "GetBitset (dag_nodes dag ! n) r = GetBitset (dag_nodes dag ! m) r'"
  shows "leafward r (dag_nodes dag ! n) = leafward r' (dag_nodes dag ! m)"
proof -
  from g obtain d1 d2 d3 where
    s1: "ProcessTrees tc empty_GPDAG = Inr d1" and s2: "BuildNodes d1 = Inr d2" and
    s3: "BuildEdges d2 = Inr d3" and s4: "BuildPCSPIndexer d3 = Inr dag"
    by (rule GPDAG_of_steps)
  from ProcessTrees_result[OF s1] have nf: "node_fields d1 = (fmempty, [])" by blast
  note r2 = BuildNodes_result[OF s2 nf ProcessTrees_ranked[OF s1 w]]
  from r2 have wf2: "nodes_wf d2" by (simp add: build_inv_def)
  from r2 have h2: "harvest_fields d2 = harvest_fields d1" by blast
  note r3 = BuildEdges_result[OF s3 wf2]
  from r3 have sk: "same_skeleton d2 d3" by blast
  from r3 have lw3: "\<And>n r. n < length (dag_nodes d2) \<Longrightarrow>
       leafward r (dag_nodes d3 ! n) = (if taxon_count d2 \<le> n then child_ids d2 r n else [])"
    by blast
  from BuildPCSPIndexer_result[OF s4] have sg: "same_graph d3 dag" by blast
  from sg have nodes: "dag_nodes dag = dag_nodes d3" by (simp add: same_graph_def)
  from sk have len: "length (dag_nodes d3) = length (dag_nodes d2)" by (simp add: same_skeleton_def)
  from sk sg have T: "taxon_count dag = taxon_count d2"
    by (simp add: same_skeleton_def same_graph_def harvest_fields_def)
  have b: "bitset (dag_nodes d3 ! k) = bitset (dag_nodes d2 ! k)" if "k < length (dag_nodes d2)" for k
    using sk that by (simp add: same_skeleton_def)
  from n m have n2: "n < length (dag_nodes d2)" and m2: "m < length (dag_nodes d2)"
    unfolding nodes len by simp_all
  from e have "GetBitset (dag_nodes d2 ! n) r = GetBitset (dag_nodes d2 ! m) r'"
    unfolding nodes GetBitset_def b[OF n2, symmetric] b[OF m2, symmetric] .
  then have "child_ids d2 r n = child_ids d2 r' m" by (simp add: child_ids_def)
  with lw3[OF n2, of r] lw3[OF m2, of r'] n(1) m(1) show ?thesis
    unfolding nodes T by simp
qed

lemma GPDAG_of_ranges:
  assumes g: "GPDAG_of tc = Inr dag"
  shows "\<forall>node\<in>set (drop (taxon_count dag) (dag_nodes dag)). ranges_recorded dag node"
    and "\<forall>s v. fmlookup (subsplit_to_range dag) s = Some v \<longrightarrow>
           (\<exists>node\<in>set (drop (taxon_count dag) (dag_nodes dag)). range_owner s node)"
proof -
  from g obtain d1 d2 d3 where
    s1: "ProcessTrees tc empty_GPDAG = Inr d1" and s2: "BuildNodes d1 = Inr d2" and
    s3: "BuildEdges d2 = Inr d3" and s4: "BuildPCSPIndexer d3 = Inr dag"
    by (rule GPDAG_of_steps)
  from ProcessTrees_result[OF s1] BuildNodes_frame_fields[OF s2] BuildEdges_frame_fields[OF s3]
  have e: "subsplit_to_range d3 = fmempty" by (simp add: index_fields_def)
  from BuildPCSPIndexer_result[OF s4] have sg: "dag_nodes d3 = dag_nodes dag"
    "taxon_count d3 = taxon_count dag" by (simp_all add: same_graph_def)
  note r = BuildPCSPIndexer_ranges[OF s4 e, unfolded sg]
  from r(1) show "\<forall>node\<in>set (drop (taxon_count dag) (dag_nodes dag)). ranges_recorded dag node" .
  from r(2) show "\<forall>s v. fmlookup (subsplit_to_range dag) s = Some v \<longrightarrow>
           (\<exists>node\<in>set (drop (taxon_count dag) (dag_nodes dag)). range_owner s node)" .
qed

lemma appended_value_bound:
  assumes "appended fmempty 0 ks m" "fmlookup m k = Some v"
  shows "v < length ks"
proof (cases "k \<in> set ks")
  case True
  then obtain j where j: "j < length ks" "ks ! j = k" by (auto simp: in_set_conv_nth)
  with assms(1) have "fmlookup m k = Some (0 + j)" unfolding appended_def by blast
  with assms(2) j show ?thesis by simp
next
  case False
  with assms(1) have "fmlookup m k = fmlookup fmempty k" unfolding appended_def by blast
  with assms(2) show ?thesis by simp
qed

text \<open>
  The PCSP key of the edge to a child, the parameter index of the first child of a class,
  and the update a node's class of children gets: one over the indices of its children
  when there are at least two of them.
\<close>

definition child_key :: "GPDAG \<Rightarrow> GPDAGNode \<Rightarrow> bool \<Rightarrow> nat \<Rightarrow> Bitset" where
  "child_key dag node rotated child_id =
     Bitset_plus (GetBitset node rotated) (bitset (dag_nodes dag ! child_id))"

definition first_child_index :: "GPDAG \<Rightarrow> GPDAGNode \<Rightarrow> bool \<Rightarrow> nat" where
  "first_child_index dag node rotated =
     the (fmlookup (gpcsp_indexer dag) (child_key dag node rotated (hd (leafward rotated node))))"

definition children_update :: "GPDAG \<Rightarrow> GPDAGNode \<Rightarrow> bool \<Rightarrow> GPOperationVector" where
  "children_update dag node rotated =
     (if 1 < length (leafward rotated node)
      then [UpdateSBNProbabilities (first_child_index dag node rotated)
              (first_child_index dag node rotated + length (leafward rotated node))]
      else [])"

lemma size_t_range_guard:
  assumes "k < 2 ^ 64"
  shows "(1 < (of_nat (a + k) - of_nat a :: size_t)) \<longleftrightarrow> 1 < k"
proof -
  have "(of_nat (a + k) - of_nat a :: size_t) = of_nat k" by simp
  moreover have "unat (of_nat k :: size_t) = k" using assms by (simp add: unat_of_nat)
  ultimately show ?thesis by (simp add: word_less_nat_alt)
qed

lemma range_update_ops_children:
  assumes g: "GPDAG_of tc = Inr dag" and w: "wf_trees tc"
    and sz: "card (fmdom' (gpcsp_indexer dag)) < 2 ^ 64"
    and n: "taxon_count dag \<le> n" "n < length (dag_nodes dag)"
  shows "range_update_ops dag (GetBitset (dag_nodes dag ! n) r)
           = children_update dag (dag_nodes dag ! n) r \<and>
         (\<forall>j<length (leafward r (dag_nodes dag ! n)).
            fmlookup (gpcsp_indexer dag)
              (child_key dag (dag_nodes dag ! n) r (leafward r (dag_nodes dag ! n) ! j))
              = Some (first_child_index dag (dag_nodes dag ! n) r + j))"
proof -
  let ?node = "dag_nodes dag ! n" and ?T = "taxon_count dag"
  let ?cs = "leafward r ?node" and ?pb = "GetBitset ?node r"
  from n have mem: "?node \<in> set (drop ?T (dag_nodes dag))"
    by (auto simp: in_set_conv_nth intro!: exI[of _ "n - ?T"])
  with GPDAG_of_ranges(1)[OF g] have rr: "ranges_recorded dag ?node" by blast
  then have br: "block_recorded dag ?pb ?cs"
    by (cases r) (simp_all add: ranges_recorded_def GetBitset_def leafward_def)
  show ?thesis
  proof (cases "?cs = []")
    case True
    have "fmlookup (subsplit_to_range dag) ?pb = None"
    proof (rule ccontr)
      assume "fmlookup (subsplit_to_range dag) ?pb \<noteq> None"
      then obtain v where "fmlookup (subsplit_to_range dag) ?pb = Some v" by blast
      with GPDAG_of_ranges(2)[OF g] obtain node' where
        m: "node' \<in> set (drop ?T (dag_nodes dag))" and o: "range_owner ?pb node'" by blast
      from m obtain i where i: "i < length (dag_nodes dag) - ?T" "node' = dag_nodes dag ! (?T + i)"
        by (auto simp: in_set_conv_nth)
      define m' where "m' = ?T + i"
      from i have m': "?T \<le> m'" "m' < length (dag_nodes dag)" "node' = dag_nodes dag ! m'"
        by (simp_all add: m'_def)
      from o obtain r' where "?pb = GetBitset node' r'" "leafward r' node' \<noteq> []"
        unfolding range_owner_def GetBitset_def leafward_def by (metis (full_types))
      with GPDAG_of_leafward_bitset[OF g w n m'(1,2), of r r'] m'(3) True
      show False by simp
    qed
    with True show ?thesis
      by (simp add: range_update_ops_def children_update_def)
  next
    case False
    with br obtain a where
      ra: "fmlookup (subsplit_to_range dag) ?pb = Some (a, a + length ?cs)" and
      ix: "\<forall>j<length ?cs. fmlookup (gpcsp_indexer dag)
             (Bitset_plus ?pb (bitset (dag_nodes dag ! (?cs ! j)))) = Some (a + j)"
      unfolding block_recorded_def by blast
    from False have pos: "0 < length ?cs" by simp
    with ix have "fmlookup (gpcsp_indexer dag)
             (Bitset_plus ?pb (bitset (dag_nodes dag ! (?cs ! 0)))) = Some (a + 0)" by blast
    with False have fa: "first_child_index dag ?node r = a"
      by (simp add: first_child_index_def child_key_def hd_conv_nth)
    from GPDAG_of_indexer[OF g] have ap: "appended fmempty 0 (pcsp_keys dag) (gpcsp_indexer dag)"
      by blast
    from ap have "distinct (pcsp_keys dag)" by (simp add: appended_def)
    moreover from appended_dom[OF ap] have "fmdom' (gpcsp_indexer dag) = set (pcsp_keys dag)" by simp
    ultimately have "card (fmdom' (gpcsp_indexer dag)) = length (pcsp_keys dag)"
      by (simp add: distinct_card)
    with sz have P: "length (pcsp_keys dag) < 2 ^ 64" by simp
    from ix pos have "fmlookup (gpcsp_indexer dag)
             (Bitset_plus ?pb (bitset (dag_nodes dag ! (?cs ! (length ?cs - 1)))))
               = Some (a + (length ?cs - 1))" by simp
    from appended_value_bound[OF ap this] P pos have k: "length ?cs < 2 ^ 64" by simp
    from ra size_t_range_guard[OF k, of a] fa
    have "range_update_ops dag ?pb = children_update dag ?node r"
      by (simp add: range_update_ops_def children_update_def)
    with ix fa show ?thesis by (simp add: child_key_def)
  qed
qed


subsection \<open>A second example\<close>

text \<open>
  Four taxa and the two rooted topologies ((0,(1,2)),3) and ((1,(0,2)),3): one rootsplit,
  whose root subsplit has two harvested children.
\<close>

definition example2_trees :: RootedTreeCollection where
  "example2_trees = \<lparr>TaxonCount = 4,
     RootsplitCounterOf = [[False, False, False, True]],
     PCSSCounterOf =
       [([False, False, False, True, True, True, True, False],
           [[False, True, True, False, True, False, False, False],
            [False, True, False, False, True, False, True, False]]),
        ([True, False, False, False, False, True, True, False],
           [[False, False, True, False, False, True, False, False]]),
        ([False, True, False, False, True, False, True, False],
           [[False, False, True, False, True, False, False, False]])]\<rparr>"

definition example2_dag :: GPDAG where
  "example2_dag =
    \<lparr>taxon_count = 4, rootsplit_and_pcsp_count = 5, rootsplits = [[False, False, False,
    True]], parent_to_range = fmap_of_list [([False, False, False, True, True, True, True,
    False], 1, 3), ([True, False, False, False, False, True, True, False], 3, 4), ([False, True,
    False, False, True, False, True, False], 4, 5)], index_to_child = fmap_of_list [(1, [False,
    True, True, False, True, False, False, False]), (2, [False, True, False, False, True, False,
    True, False]), (3, [False, False, True, False, False, True, False, False]), (4, [False,
    False, True, False, True, False, False, False])], subsplit_to_index = fmap_of_list [([False,
    False, False, False, True, False, False, False], 0), ([False, False, False, False, False,
    True, False, False], 1), ([False, False, False, False, False, False, True, False], 2),
    ([False, False, False, False, False, False, False, True], 3), ([False, False, True, False,
    False, True, False, False], 4), ([False, True, True, False, True, False, False, False], 5),
    ([False, False, True, False, True, False, False, False], 6), ([False, True, False, False,
    True, False, True, False], 7), ([False, False, False, True, True, True, True, False], 8)],
    dag_nodes = [\<lparr>Id = 0, bitset = [False, False, False, False, True, False, False,
    False], leafward_sorted = [], leafward_rotated = [], rootward_sorted = [5, 6],
    rootward_rotated = []\<rparr>, \<lparr>Id = 1, bitset = [False, False, False, False, False,
    True, False, False], leafward_sorted = [], leafward_rotated = [], rootward_sorted = [4],
    rootward_rotated = [7]\<rparr>, \<lparr>Id = 2, bitset = [False, False, False, False, False,
    False, True, False], leafward_sorted = [], leafward_rotated = [], rootward_sorted = [],
    rootward_rotated = [4, 6]\<rparr>, \<lparr>Id = 3, bitset = [False, False, False, False,
    False, False, False, True], leafward_sorted = [], leafward_rotated = [], rootward_sorted =
    [], rootward_rotated = [8]\<rparr>, \<lparr>Id = 4, bitset = [False, False, True, False,
    False, True, False, False], leafward_sorted = [1], leafward_rotated = [2], rootward_sorted =
    [], rootward_rotated = [5]\<rparr>, \<lparr>Id = 5, bitset = [False, True, True, False,
    True, False, False, False], leafward_sorted = [0], leafward_rotated = [4], rootward_sorted =
    [8], rootward_rotated = []\<rparr>, \<lparr>Id = 6, bitset = [False, False, True, False,
    True, False, False, False], leafward_sorted = [0], leafward_rotated = [2], rootward_sorted =
    [7], rootward_rotated = []\<rparr>, \<lparr>Id = 7, bitset = [False, True, False, False,
    True, False, True, False], leafward_sorted = [6], leafward_rotated = [1], rootward_sorted =
    [8], rootward_rotated = []\<rparr>, \<lparr>Id = 8, bitset = [False, False, False, True,
    True, True, True, False], leafward_sorted = [5, 7], leafward_rotated = [3], rootward_sorted
    = [], rootward_rotated = []\<rparr>], gpcsp_indexer = fmap_of_list [([False, False, False,
    True, True, True, True, False], 0), ([False, False, True, False, False, True, False, False,
    False, False, False, False, False, True, False, False], 1), ([False, True, False, False,
    False, False, True, False, False, False, False, False, False, False, True, False], 2),
    ([False, True, True, False, True, False, False, False, False, False, False, False, True,
    False, False, False], 3), ([True, False, False, False, False, True, True, False, False,
    False, True, False, False, True, False, False], 4), ([False, False, True, False, True,
    False, False, False, False, False, False, False, True, False, False, False], 5), ([True,
    False, False, False, False, False, True, False, False, False, False, False, False, False,
    True, False], 6), ([False, True, False, False, True, False, True, False, False, False, True,
    False, True, False, False, False], 7), ([True, False, True, False, False, True, False,
    False, False, False, False, False, False, True, False, False], 8), ([False, False, False,
    True, True, True, True, False, False, True, True, False, True, False, False, False], 9),
    ([False, False, False, True, True, True, True, False, False, True, False, False, True,
    False, True, False], 10), ([True, True, True, False, False, False, False, True, False,
    False, False, False, False, False, False, True], 11)], subsplit_to_range = fmap_of_list
    [([False, False, True, False, False, True, False, False], 1, 2), ([False, True, False,
    False, False, False, True, False], 2, 3), ([False, True, True, False, True, False, False,
    False], 3, 4), ([True, False, False, False, False, True, True, False], 4, 5), ([False,
    False, True, False, True, False, False, False], 5, 6), ([True, False, False, False, False,
    False, True, False], 6, 7), ([False, True, False, False, True, False, True, False], 7, 8),
    ([True, False, True, False, False, True, False, False], 8, 9), ([False, False, False, True,
    True, True, True, False], 9, 11), ([True, True, True, False, False, False, False, True], 11,
    12)]\<rparr>"

lemma example2_dag_built: "GPDAG_of example2_trees = Inr example2_dag"
  by code_simp

lemma example2_trees_wf: "wf_trees example2_trees"
  unfolding wf_trees_def by code_simp

definition example2_sbn_operations :: GPOperationVector where
  "example2_sbn_operations =
    [Zero 17, Zero 32, EvolvePLVWeightedBySBNParameter 32 9 44, Multiply 41 32 23, Multiply 50
    32 14, Zero 14, Zero 27, EvolvePLVWeightedBySBNParameter 27 3 41,
    EvolvePLVWeightedBySBNParameter 27 5 42, Multiply 36 27 18, Multiply 45 27 9,
    EvolvePLVWeightedBySBNParameter 14 3 0, Likelihood 3 41 0, Multiply 50 32 14, Zero 23, Zero
    31, EvolvePLVWeightedBySBNParameter 31 4 50, Multiply 40 31 22, Multiply 49 31 13, Zero 13,
    Zero 28, EvolvePLVWeightedBySBNParameter 28 1 40, EvolvePLVWeightedBySBNParameter 28 8 52,
    Multiply 37 28 19, Multiply 46 28 10, EvolvePLVWeightedBySBNParameter 13 1 1, Likelihood 1
    40 1, Multiply 49 31 13, Zero 22, Zero 29, EvolvePLVWeightedBySBNParameter 29 2 49,
    EvolvePLVWeightedBySBNParameter 29 6 51, Multiply 38 29 20, Multiply 47 29 11,
    EvolvePLVWeightedBySBNParameter 22 2 2, Likelihood 2 49 2, Multiply 40 31 22, Multiply 4 13
    22, EvolvePLVWeightedBySBNParameter 23 4 4, Likelihood 4 50 4, Multiply 41 32 23, Multiply 5
    14 23, EvolvePLVWeightedBySBNParameter 17 9 5, Likelihood 9 44 5, Zero 34,
    EvolvePLVWeightedBySBNParameter 34 10 44, Multiply 43 34 25, Multiply 52 34 16, Zero 16,
    Zero 33, EvolvePLVWeightedBySBNParameter 33 7 43, Multiply 42 33 24, Multiply 51 33 15, Zero
    15, EvolvePLVWeightedBySBNParameter 15 5 0, Likelihood 5 42 0, Multiply 51 33 15, Zero 24,
    EvolvePLVWeightedBySBNParameter 24 6 2, Likelihood 6 51 2, Multiply 42 33 24, Multiply 6 15
    24, EvolvePLVWeightedBySBNParameter 16 7 6, Likelihood 7 43 6, Multiply 52 34 16, Zero 25,
    EvolvePLVWeightedBySBNParameter 25 8 1, Likelihood 8 52 1, Multiply 43 34 25, Multiply 7 16
    25, EvolvePLVWeightedBySBNParameter 17 10 7, Likelihood 10 44 7, UpdateSBNProbabilities 9
    11, Multiply 53 35 17, Zero 26, Zero 30, EvolvePLVWeightedBySBNParameter 30 11 53, Multiply
    39 30 21, Multiply 48 30 12, EvolvePLVWeightedBySBNParameter 26 11 3, Likelihood 11 53 3,
    Multiply 44 35 26, Multiply 8 17 26, IncrementMarginalLikelihood 35 0 8,
    UpdateSBNProbabilities 0 1]"

lemma example2_SBNParameterOptimization:
  "SBNParameterOptimization example2_dag = Inr example2_sbn_operations"
  by code_simp

lemma example2_schedule_root:
  "ScheduleSBNParametersOptimization example2_dag 8 {} =
     Inr ({0, 1, 2, 3, 4, 5, 6, 7, 8}, take 83 example2_sbn_operations)"
  by code_simp

lemma example2_node_8:
  "vector_at (dag_nodes example2_dag) 8 = Inr (dag_nodes example2_dag ! 8)"
  "\<not> IsLeaf example2_dag (dag_nodes example2_dag ! 8)"
  "children_update example2_dag (dag_nodes example2_dag ! 8) False = [UpdateSBNProbabilities 9 11]"
  "children_update example2_dag (dag_nodes example2_dag ! 8) True = []"
  "length (pcsp_keys example2_dag) = 12"
  by code_simp+

lemma example2_indexer_size: "card (fmdom' (gpcsp_indexer example2_dag)) < 2 ^ 64"
proof -
  from GPDAG_of_indexer[OF example2_dag_built]
  have ap: "appended fmempty 0 (pcsp_keys example2_dag) (gpcsp_indexer example2_dag)" by blast
  from ap have "distinct (pcsp_keys example2_dag)" by (simp add: appended_def)
  moreover from appended_dom[OF ap]
  have "fmdom' (gpcsp_indexer example2_dag) = set (pcsp_keys example2_dag)" by simp
  ultimately have "card (fmdom' (gpcsp_indexer example2_dag)) = length (pcsp_keys example2_dag)"
    by (simp add: distinct_card)
  with example2_node_8(5) show ?thesis by simp
qed


subsection \<open>The updates after the child loops\<close>

text \<open>
  Claim C5, as amended. In a DAG built from a well-formed tree collection, with fewer than
  \<open>2^64\<close> parameter indices, the operations of a scheduled node that is not a leaf are: the
  block of a node that is not a root, the zeroing of \<open>P_HAT\<close>, the operations of the
  sorted-child loop, immediately followed by one \<open>UpdateSBNProbabilities\<close> over the
  parameter indices of the sorted children when the node has at least two sorted children
  and by nothing otherwise, and likewise for the rotated children after the rotated-child
  loop. The parameter indices of the children of a class are consecutive, in the order of
  the adjacency list, so the range of the update covers exactly them.
\<close>

theorem ScheduleSBNParametersOptimization_node_shape:
  assumes "GPDAG_of tree_collection = Inr dag" and "wf_trees tree_collection"
    and "card (fmdom' (gpcsp_indexer dag)) < 2 ^ 64"
    and "ScheduleSBNParametersOptimization dag node_id V = Inr (V', ops)"
    and "vector_at (dag_nodes dag) node_id = Inr node"
    and "\<not> IsLeaf dag node"
  shows "\<exists>ops0 V1 ops1 ops2.
           Schedule_nonroot_block dag node node_id = Inr ops0 \<and>
           ScheduleSBNParametersOptimization_children dag node_id False (leafward_sorted node)
             (insert node_id V) = Inr (V1, ops1) \<and>
           ScheduleSBNParametersOptimization_children dag node_id True (leafward_rotated node) V1
             = Inr (V', ops2) \<and>
           ops = ops0 @ [Zero (plv_index dag P_HAT node_id)] @ ops1 @
                 children_update dag node False @
                 [Multiply (plv_index dag R_TILDE node_id) (plv_index dag R_HAT node_id)
                    (plv_index dag P_HAT node_id),
                  Zero (plv_index dag P_HAT_TILDE node_id)] @ ops2 @
                 children_update dag node True @
                 [Multiply (plv_index dag R node_id) (plv_index dag R_HAT node_id)
                    (plv_index dag P_HAT_TILDE node_id),
                  Multiply (plv_index dag P node_id) (plv_index dag P_HAT node_id)
                    (plv_index dag P_HAT_TILDE node_id)] \<and>
           (\<forall>rotated. \<forall>j<length (leafward rotated node).
              fmlookup (gpcsp_indexer dag) (child_key dag node rotated (leafward rotated node ! j))
                = Some (first_child_index dag node rotated + j))"
proof -
  from assms(5) have nd: "node = dag_nodes dag ! node_id" and nN: "node_id < length (dag_nodes dag)"
    by (auto simp: vector_at_def split: if_splits)
  from dag_wf_D(2)[OF GPDAG_of_dag_wf[OF assms(1,2)]] nN nd have "Id node = node_id"
    by (simp add: ids_ok_def)
  with assms(6) have nT: "taxon_count dag \<le> node_id" by (simp add: IsLeaf_def)
  note r = range_update_ops_children[OF assms(1,2,3) nT nN, folded nd]
  from r[of False] have u1: "range_update_ops dag (bitset node) = children_update dag node False"
    by (simp add: GetBitset_def)
  from r[of True]
  have u2: "range_update_ops dag (RotateSubsplit (bitset node)) = children_update dag node True"
    by (simp add: GetBitset_def)
  from r have ix: "\<forall>rotated. \<forall>j<length (leafward rotated node).
              fmlookup (gpcsp_indexer dag) (child_key dag node rotated (leafward rotated node ! j))
                = Some (first_child_index dag node rotated + j)" by blast
  from ScheduleSBNParametersOptimization_unfold[OF assms(4)] assms(5,6) ix
  show ?thesis by (auto simp: u1 u2)
qed

theorem ScheduleSBNParametersOptimization_node_shape_witness:
  "GPDAG_of example2_trees = Inr example2_dag \<and> wf_trees example2_trees \<and>
   card (fmdom' (gpcsp_indexer example2_dag)) < 2 ^ 64 \<and>
   ScheduleSBNParametersOptimization example2_dag 8 {} =
     Inr ({0, 1, 2, 3, 4, 5, 6, 7, 8}, take 83 example2_sbn_operations) \<and>
   vector_at (dag_nodes example2_dag) 8 = Inr (dag_nodes example2_dag ! 8) \<and>
   \<not> IsLeaf example2_dag (dag_nodes example2_dag ! 8) \<and>
   children_update example2_dag (dag_nodes example2_dag ! 8) False
     = [UpdateSBNProbabilities 9 11] \<and>
   children_update example2_dag (dag_nodes example2_dag ! 8) True = [] \<and>
   (\<exists>ops0 V1 ops1 ops2.
      Schedule_nonroot_block example2_dag (dag_nodes example2_dag ! 8) 8 = Inr ops0 \<and>
      ScheduleSBNParametersOptimization_children example2_dag 8 False
        (leafward_sorted (dag_nodes example2_dag ! 8)) (insert 8 {}) = Inr (V1, ops1) \<and>
      ScheduleSBNParametersOptimization_children example2_dag 8 True
        (leafward_rotated (dag_nodes example2_dag ! 8)) V1
        = Inr ({0, 1, 2, 3, 4, 5, 6, 7, 8}, ops2) \<and>
      take 83 example2_sbn_operations =
        ops0 @ [Zero (plv_index example2_dag P_HAT 8)] @ ops1 @
        [UpdateSBNProbabilities 9 11] @
        [Multiply (plv_index example2_dag R_TILDE 8) (plv_index example2_dag R_HAT 8)
           (plv_index example2_dag P_HAT 8),
         Zero (plv_index example2_dag P_HAT_TILDE 8)] @ ops2 @ [] @
        [Multiply (plv_index example2_dag R 8) (plv_index example2_dag R_HAT 8)
           (plv_index example2_dag P_HAT_TILDE 8),
         Multiply (plv_index example2_dag P 8) (plv_index example2_dag P_HAT 8)
           (plv_index example2_dag P_HAT_TILDE 8)])"
proof -
  note t = ScheduleSBNParametersOptimization_node_shape
             [OF example2_dag_built example2_trees_wf example2_indexer_size
                 example2_schedule_root example2_node_8(1,2)]
  from t obtain ops0 V1 ops1 ops2 where
    "Schedule_nonroot_block example2_dag (dag_nodes example2_dag ! 8) 8 = Inr ops0"
    "ScheduleSBNParametersOptimization_children example2_dag 8 False
        (leafward_sorted (dag_nodes example2_dag ! 8)) (insert 8 {}) = Inr (V1, ops1)"
    "ScheduleSBNParametersOptimization_children example2_dag 8 True
        (leafward_rotated (dag_nodes example2_dag ! 8)) V1
        = Inr ({0, 1, 2, 3, 4, 5, 6, 7, 8}, ops2)"
    "take 83 example2_sbn_operations =
        ops0 @ [Zero (plv_index example2_dag P_HAT 8)] @ ops1 @
        children_update example2_dag (dag_nodes example2_dag ! 8) False @
        [Multiply (plv_index example2_dag R_TILDE 8) (plv_index example2_dag R_HAT 8)
           (plv_index example2_dag P_HAT 8),
         Zero (plv_index example2_dag P_HAT_TILDE 8)] @ ops2 @
        children_update example2_dag (dag_nodes example2_dag ! 8) True @
        [Multiply (plv_index example2_dag R 8) (plv_index example2_dag R_HAT 8)
           (plv_index example2_dag P_HAT_TILDE 8),
         Multiply (plv_index example2_dag P 8) (plv_index example2_dag P_HAT 8)
           (plv_index example2_dag P_HAT_TILDE 8)]"
    by blast
  then have "\<exists>ops0 V1 ops1 ops2.
      Schedule_nonroot_block example2_dag (dag_nodes example2_dag ! 8) 8 = Inr ops0 \<and>
      ScheduleSBNParametersOptimization_children example2_dag 8 False
        (leafward_sorted (dag_nodes example2_dag ! 8)) (insert 8 {}) = Inr (V1, ops1) \<and>
      ScheduleSBNParametersOptimization_children example2_dag 8 True
        (leafward_rotated (dag_nodes example2_dag ! 8)) V1
        = Inr ({0, 1, 2, 3, 4, 5, 6, 7, 8}, ops2) \<and>
      take 83 example2_sbn_operations =
        ops0 @ [Zero (plv_index example2_dag P_HAT 8)] @ ops1 @
        [UpdateSBNProbabilities 9 11] @
        [Multiply (plv_index example2_dag R_TILDE 8) (plv_index example2_dag R_HAT 8)
           (plv_index example2_dag P_HAT 8),
         Zero (plv_index example2_dag P_HAT_TILDE 8)] @ ops2 @ [] @
        [Multiply (plv_index example2_dag R 8) (plv_index example2_dag R_HAT 8)
           (plv_index example2_dag P_HAT_TILDE 8),
         Multiply (plv_index example2_dag P 8) (plv_index example2_dag P_HAT 8)
           (plv_index example2_dag P_HAT_TILDE 8)]"
    unfolding example2_node_8(3,4) by blast
  with example2_dag_built example2_trees_wf example2_indexer_size example2_schedule_root
    example2_node_8(1,2,3,4)
  show ?thesis by blast
qed

fun is_UpdateSBNProbabilities :: "GPOperation \<Rightarrow> bool" where
  "is_UpdateSBNProbabilities (UpdateSBNProbabilities start stop) = True"
| "is_UpdateSBNProbabilities _ = False"


text \<open>
  Claim C5 as stated fails: node 4 of the example DAG is a non-fake non-leaf node, it is
  scheduled, its sorted children have the parameter range \<open>[4, 5)\<close>, and no
  \<open>UpdateSBNProbabilities\<close> over that range is emitted: the only update of the vector is
  the final one over the rootsplits.
\<close>

theorem OptimizeSBNParameters_single_child_counterexample:
  "GPDAG_of example_trees = Inr example_dag \<and>
   SBNParameterOptimization example_dag = Inr example_sbn_operations \<and>
   taxon_count example_dag \<le> 4 \<and> 4 < length (dag_nodes example_dag) \<and>
   \<not> IsLeaf example_dag (dag_nodes example_dag ! 4) \<and>
   Zero (plv_index example_dag P_HAT 4) \<in> set example_sbn_operations \<and>
   leafward_sorted (dag_nodes example_dag ! 4) = [3] \<and>
   fmlookup (subsplit_to_range example_dag) (bitset (dag_nodes example_dag ! 4)) = Some (4, 5) \<and>
   UpdateSBNProbabilities 4 5 \<notin> set example_sbn_operations \<and>
   filter is_UpdateSBNProbabilities example_sbn_operations = [UpdateSBNProbabilities 0 2]"
  by (intro conjI; code_simp)


section \<open>The harvested PCSPs in the indexer\<close>

text \<open>
  \<open>recorded d p cs\<close>: the parent \<open>p\<close> has a range in \<open>parent_to_range_\<close> whose indices hold,
  in order, the child subsplits \<open>cs\<close>.
\<close>

definition recorded :: "GPDAG \<Rightarrow> Bitset \<Rightarrow> Bitset list \<Rightarrow> bool" where
  "recorded d p cs \<longleftrightarrow>
     (\<exists>a. fmlookup (parent_to_range d) p = Some (a, a + length cs) \<and>
          (\<forall>j<length cs. fmlookup (index_to_child d) (a + j) = Some (cs ! j)))"

lemma ProcessTrees_parent_recorded:
  assumes s: "ProcessTrees_parent (p, cs) (index, d) = Inr (index', d')"
    and inv: "ProcessTrees_inv H (index, d)"
  shows "recorded d' p cs" and "\<And>q qs. recorded d q qs \<Longrightarrow> recorded d' q qs"
proof -
  from s obtain m where
    m: "SafeInsert (parent_to_range d) p (index, index + length cs) = Inr m" and
    f: "fold_err ProcessTrees_child cs (index, d\<lparr>parent_to_range := m\<rparr>) = Inr (index', d')"
    by (auto simp: ProcessTrees_parent_def bind_err_eq_Inr)
  from m have m': "m = fmupd p (index, index + length cs) (parent_to_range d)"
    and fresh: "fmlookup (parent_to_range d) p = None"
    by (auto simp: SafeInsert_def split: option.splits)
  note r = ProcessTrees_children_result[OF f]
  from r have r2: "\<And>i. fmlookup (index_to_child d') i =
                (if index \<le> i \<and> i < index + length cs then Some (cs ! (i - index))
                 else fmlookup (index_to_child d) i)"
    and r3: "parent_to_range d' = m" by simp_all
  from inv have i1: "\<And>i c. fmlookup (index_to_child d) i = Some c \<Longrightarrow> i < index"
    by (auto simp: ProcessTrees_inv_def)
  show "recorded d' p cs"
    unfolding recorded_def
  proof (intro exI[of _ index] conjI allI impI)
    show "fmlookup (parent_to_range d') p = Some (index, index + length cs)"
      unfolding r3 m' by simp
  next
    fix j assume "j < length cs"
    then show "fmlookup (index_to_child d') (index + j) = Some (cs ! j)"
      unfolding r2 by simp
  qed
  fix q qs assume "recorded d q qs"
  then obtain a where
    a: "fmlookup (parent_to_range d) q = Some (a, a + length qs)" and
    b: "\<forall>j<length qs. fmlookup (index_to_child d) (a + j) = Some (qs ! j)"
    unfolding recorded_def by blast
  from a fresh have "q \<noteq> p" by auto
  with a have a': "fmlookup (parent_to_range d') q = Some (a, a + length qs)"
    unfolding r3 m' by simp
  have b': "fmlookup (index_to_child d') (a + j) = Some (qs ! j)" if "j < length qs" for j
  proof -
    from b that have l: "fmlookup (index_to_child d) (a + j) = Some (qs ! j)" by blast
    from i1[OF l] have "a + j < index" .
    with l show ?thesis unfolding r2 by simp
  qed
  from a' b' show "recorded d' q qs" unfolding recorded_def by blast
qed

lemma ProcessTrees_parents_recorded:
  assumes "fold_err ProcessTrees_parent xs st = Inr st'" "ProcessTrees_inv H st"
    "\<forall>(p, cs)\<in>set xs. \<forall>c\<in>set cs. (p, c) \<in> H"
  shows "(\<forall>(p, cs)\<in>set xs. recorded (snd st') p cs) \<and>
         (\<forall>q qs. recorded (snd st) q qs \<longrightarrow> recorded (snd st') q qs)"
  using assms
proof (induction xs arbitrary: st)
  case Nil
  then show ?case by simp
next
  case (Cons x xs)
  obtain p cs where x: "x = (p, cs)" by (cases x)
  from Cons.prems(1) obtain st1 where
    a: "ProcessTrees_parent (p, cs) st = Inr st1" and
    b: "fold_err ProcessTrees_parent xs st1 = Inr st'"
    by (auto simp: bind_err_eq_Inr x)
  from Cons.prems(3) x have h: "\<And>c. c \<in> set cs \<Longrightarrow> (p, c) \<in> H" by auto
  from ProcessTrees_parent_inv[OF a Cons.prems(2) h] have inv1: "ProcessTrees_inv H st1" .
  from Cons.prems(3) have h': "\<forall>(p, cs)\<in>set xs. \<forall>c\<in>set cs. (p, c) \<in> H" by simp
  note ih = Cons.IH[OF b inv1 h']
  obtain index d where st: "st = (index, d)" by (cases st)
  obtain index1 d1 where st1: "st1 = (index1, d1)" by (cases st1)
  note s = ProcessTrees_parent_recorded[OF a[unfolded st st1] Cons.prems(2)[unfolded st]]
  from s(1) ih st1 have "recorded (snd st') p cs" by simp
  moreover from s(2) ih st st1 have "\<forall>q qs. recorded (snd st) q qs \<longrightarrow> recorded (snd st') q qs"
    by simp
  ultimately show ?case using ih x by simp
qed

lemma ProcessTrees_recorded:
  assumes "ProcessTrees tc empty_GPDAG = Inr d" "(p, cs) \<in> set (PCSSCounterOf tc)"
  shows "recorded d p cs"
proof -
  let ?d0 = "empty_GPDAG\<lparr>taxon_count := TaxonCount tc\<rparr>"
  let ?d1 = "?d0\<lparr>rootsplits := rootsplits ?d0 @ RootsplitCounterOf tc\<rparr>"
  from assms(1) obtain index d' where
    f: "fold_err ProcessTrees_parent (PCSSCounterOf tc) (length (RootsplitCounterOf tc), ?d1)
          = Inr (index, d')" and
    d: "d = d'\<lparr>rootsplit_and_pcsp_count := index\<rparr>"
    by (auto simp: ProcessTrees_def Let_def bind_err_eq_Inr)
  have i: "ProcessTrees_inv (harvested tc) (length (RootsplitCounterOf tc), ?d1)"
    by (simp add: ProcessTrees_inv_def empty_GPDAG_def)
  have h: "\<forall>(p, cs)\<in>set (PCSSCounterOf tc). \<forall>c\<in>set cs. (p, c) \<in> harvested tc"
    by (auto simp: harvested_def)
  from ProcessTrees_parents_recorded[OF f i h] assms(2) have "recorded d' p cs" by auto
  then show ?thesis unfolding d recorded_def by simp
qed

lemma recorded_children:
  assumes "recorded d p cs"
  shows "GetChildrenSubsplits d p b = Inr cs"
proof -
  from assms obtain a where
    a: "fmlookup (parent_to_range d) p = Some (a, a + length cs)" and
    c: "\<forall>j<length cs. fmlookup (index_to_child d) (a + j) = Some (cs ! j)"
    unfolding recorded_def by blast
  have "for_each (\<lambda>idx. bind_err (map_at (index_to_child d) idx)
                             (\<lambda>child_subsplit. Inr [child_subsplit])) [a..<a + length cs]
      = Inr (concat (map (\<lambda>i. [cs ! (i - a)]) [a..<a + length cs]))"
  proof (rule for_each_total)
    fix x assume "x \<in> set [a..<a + length cs]"
    then have "a \<le> x" "x - a < length cs" by auto
    with c have "fmlookup (index_to_child d) (a + (x - a)) = Some (cs ! (x - a))" by blast
    with \<open>a \<le> x\<close> show "bind_err (map_at (index_to_child d) x) (\<lambda>child_subsplit. Inr [child_subsplit])
        = Inr [cs ! (x - a)]"
      by (simp add: map_at_def)
  qed
  moreover have "concat (map (\<lambda>i. [cs ! (i - a)]) [a..<a + length cs]) = cs"
    unfolding concat_map_singleton by (rule nth_equalityI) simp_all
  ultimately show ?thesis using a by (simp add: GetChildrenSubsplits_def)
qed


text \<open>The subsplits of the counters: the root subsplits and the harvested child subsplits.\<close>

definition harvested_subsplits :: "RootedTreeCollection \<Rightarrow> Bitset list" where
  "harvested_subsplits tc =
     map root_subsplit (RootsplitCounterOf tc) @ concat (map snd (PCSSCounterOf tc))"

text \<open>
  Modelled from the spec: the counters of a tree collection are computed outside the source
  files at hand. The specification (4.2, step 1) derives a pair (parent subsplit, child
  subsplit) for every internal edge of a topology: the parent subsplit of an edge is the
  root subsplit or the child subsplit of the edge above it, in the orientation that puts
  the clade the edge splits second.
\<close>

definition harvest_connected :: "RootedTreeCollection \<Rightarrow> bool" where
  "harvest_connected tc \<longleftrightarrow>
     (\<forall>(p, cs)\<in>set (PCSSCounterOf tc). cs \<noteq> [] \<longrightarrow>
        (\<exists>s\<in>set (harvested_subsplits tc). p = s \<or> p = RotateSubsplit s))"

lemma fake_subsplit_first_chunk: "\<not> Any (SplitChunk (fake_subsplit T k) 0)"
proof -
  have "length (fake_subsplit T k) div 2 = T"
    by (simp add: fake_subsplit_def Bitset_plus_def Bitset_zero_def Bitset_set_def)
  then have "SplitChunk (fake_subsplit T k) 0 = Bitset_zero T"
    unfolding SplitChunk_def[of "fake_subsplit T k"]
    by (simp add: fake_subsplit_def Bitset_plus_def Bitset_zero_def)
  then show ?thesis by (simp add: Any_def Bitset_zero_def)
qed

lemma harvested_subsplit_node:
  assumes s1: "ProcessTrees tc empty_GPDAG = Inr d1" and s2: "BuildNodes d1 = Inr d2"
    and w: "wf_trees tc" and c: "harvest_connected tc"
    and s: "s \<in> set (harvested_subsplits tc)"
  shows "\<exists>k. taxon_count d2 \<le> k \<and> k < length (dag_nodes d2) \<and> bitsets d2 ! k = s"
proof -
  from ProcessTrees_result[OF s1] have nf: "node_fields d1 = (fmempty, [])"
    and rs1: "rootsplits d1 = RootsplitCounterOf tc" by blast+
  note r2 = BuildNodes_result[OF s2 nf ProcessTrees_ranked[OF s1 w]]
  from r2 have wf2: "nodes_wf d2" and po2: "postorder d2"
    by (simp_all add: build_inv_def)
  from r2 have h2: "harvest_fields d2 = harvest_fields d1" and ff2: "fakes_first d2" and
    rp2: "roots_placed d2" by blast+
  from h2 rs1 have rs2: "rootsplits d2 = RootsplitCounterOf tc" by (simp add: harvest_fields_def)
  from h2 have hf: "parent_to_range d2 = parent_to_range d1" "index_to_child d2 = index_to_child d1"
    by (simp_all add: harvest_fields_def)
  have rec: "recorded d2 p cs" if "(p, cs) \<in> set (PCSSCounterOf tc)" for p cs
    using ProcessTrees_recorded[OF s1 that] unfolding recorded_def hf .
  define M where "M = Max (count_bits ` set (harvested_subsplits tc))"
  have M: "count_bits x \<le> M" if "x \<in> set (harvested_subsplits tc)" for x
    unfolding M_def using that by (intro Max_ge) simp_all
  from s show ?thesis
  proof (induction "M - count_bits s" arbitrary: s rule: less_induct)
    case less
    from less.prems have "s \<in> root_subsplit ` set (RootsplitCounterOf tc) \<or>
        s \<in> set (concat (map snd (PCSSCounterOf tc)))"
      by (auto simp: harvested_subsplits_def)
    then show ?case
    proof
      assume "s \<in> root_subsplit ` set (RootsplitCounterOf tc)"
      then obtain k where k: "k < length (rootsplits d2)" "s = root_subsplit (rootsplits d2 ! k)"
        unfolding rs2[symmetric] by (auto simp: in_set_conv_nth)
      from rp2 obtain ps where
        "\<forall>k<length (rootsplits d2). taxon_count d2 \<le> ps ! k \<and> ps ! k < length (dag_nodes d2) \<and>
           bitsets d2 ! (ps ! k) = root_subsplit (rootsplits d2 ! k)"
        unfolding roots_placed_def by blast
      with k show ?thesis by blast
    next
      assume "s \<in> set (concat (map snd (PCSSCounterOf tc)))"
      then obtain p cs where pc: "(p, cs) \<in> set (PCSSCounterOf tc)" "s \<in> set cs" by auto
      then have ne: "cs \<noteq> []" by auto
      from c pc(1) ne obtain s0 where
        s0: "s0 \<in> set (harvested_subsplits tc)" "p = s0 \<or> p = RotateSubsplit s0"
        unfolding harvest_connected_def by blast
      from pc have "(p, s) \<in> harvested tc" by (auto simp: harvested_def)
      from wf_trees_harvested[OF w this] have lt: "count_bits s < count_bits p"
        and any: "Any (SplitChunk s 0)" .
      from s0(2) have "count_bits p = count_bits s0" by auto
      with lt M[OF s0(1)] have "M - count_bits s0 < M - count_bits s" by simp
      from less.hyps[OF this s0(1)] obtain j where
        j: "taxon_count d2 \<le> j" "j < length (dag_nodes d2)" "bitsets d2 ! j = s0" by blast
      from recorded_children[OF rec[OF pc(1)]]
      have "GetChildrenSubsplits d2 p False = Inr cs" .
      with s0(2) pc(2) have "s \<in> kids d2 s0" unfolding kids_def by blast
      with po2 j have "s \<in> set (take j (bitsets d2))"
        unfolding postorder_def by blast
      then obtain k where k: "k < j" "bitsets d2 ! k = s"
        using j(2) by (auto simp: in_set_conv_nth)
      have "taxon_count d2 \<le> k"
      proof (rule ccontr)
        assume "\<not> taxon_count d2 \<le> k"
        then have kt: "k < taxon_count d2" by simp
        with j k have "bitsets d2 ! k = take (taxon_count d2) (bitsets d2) ! k" by simp
        also from ff2 kt have "\<dots> = fake_subsplit (taxon_count d2) k"
          by (simp add: fakes_first_def)
        finally have "s = fake_subsplit (taxon_count d2) k" using k(2) by simp
        with any fake_subsplit_first_chunk show False by simp
      qed
      with k j show ?thesis by (intro exI[of _ k]) simp
    qed
  qed
qed


lemma ProcessTrees_parent_domain:
  assumes "ProcessTrees_parent (p, cs) (index, d) = Inr (index', d')"
    "fmlookup (parent_to_range d') q = Some v"
  shows "q = p \<or> fmlookup (parent_to_range d) q = Some v"
proof -
  from assms(1) obtain m where
    m: "SafeInsert (parent_to_range d) p (index, index + length cs) = Inr m" and
    f: "fold_err ProcessTrees_child cs (index, d\<lparr>parent_to_range := m\<rparr>) = Inr (index', d')"
    by (auto simp: ProcessTrees_parent_def bind_err_eq_Inr)
  from m have m': "m = fmupd p (index, index + length cs) (parent_to_range d)"
    by (auto simp: SafeInsert_def split: option.splits)
  from ProcessTrees_children_result[OF f] have "parent_to_range d' = m" by simp
  with assms(2) m' show ?thesis by (cases "q = p") simp_all
qed

lemma ProcessTrees_domain:
  assumes "ProcessTrees tc empty_GPDAG = Inr d" "fmlookup (parent_to_range d) q = Some v"
  shows "q \<in> fst ` set (PCSSCounterOf tc)"
proof -
  let ?d0 = "empty_GPDAG\<lparr>taxon_count := TaxonCount tc\<rparr>"
  let ?d1 = "?d0\<lparr>rootsplits := rootsplits ?d0 @ RootsplitCounterOf tc\<rparr>"
  from assms(1) obtain index d' where
    f: "fold_err ProcessTrees_parent (PCSSCounterOf tc) (length (RootsplitCounterOf tc), ?d1)
          = Inr (index, d')" and
    d: "d = d'\<lparr>rootsplit_and_pcsp_count := index\<rparr>"
    by (auto simp: ProcessTrees_def Let_def bind_err_eq_Inr)
  have "\<forall>q v. fmlookup (parent_to_range (snd (index, d'))) q = Some v \<longrightarrow>
          q \<in> fst ` set (PCSSCounterOf tc)"
  proof (rule fold_err_invariant[OF f])
    show "\<forall>q v. fmlookup (parent_to_range (snd (length (RootsplitCounterOf tc), ?d1))) q = Some v \<longrightarrow>
          q \<in> fst ` set (PCSSCounterOf tc)"
      by (simp add: empty_GPDAG_def)
  next
    fix x st st'
    assume x: "x \<in> set (PCSSCounterOf tc)" and
      i: "\<forall>q v. fmlookup (parent_to_range (snd st)) q = Some v \<longrightarrow> q \<in> fst ` set (PCSSCounterOf tc)"
      and s: "ProcessTrees_parent x st = Inr st'"
    obtain p cs where pc: "x = (p, cs)" by (cases x)
    obtain i0 d0 where st: "st = (i0, d0)" by (cases st)
    obtain i1 d1 where st': "st' = (i1, d1)" by (cases st')
    show "\<forall>q v. fmlookup (parent_to_range (snd st')) q = Some v \<longrightarrow>
            q \<in> fst ` set (PCSSCounterOf tc)"
    proof (intro allI impI)
      fix q v assume "fmlookup (parent_to_range (snd st')) q = Some v"
      with st' have "fmlookup (parent_to_range d1) q = Some v" by simp
      from ProcessTrees_parent_domain[OF s[unfolded pc st st'] this]
      show "q \<in> fst ` set (PCSSCounterOf tc)"
      proof
        assume "q = p"
        with x pc show ?thesis by force
      next
        assume "fmlookup (parent_to_range d0) q = Some v"
        with i st show ?thesis by simp
      qed
    qed
  qed
  with assms(2) d show ?thesis by simp
qed

lemma harvested_subsplits_children:
  "(p, c) \<in> harvested tc \<Longrightarrow> c \<in> set (harvested_subsplits tc)"
  by (force simp: harvested_def harvested_subsplits_def)

text \<open>What the construction gives about the edges, in terms of the harvest.\<close>

lemma GPDAG_of_edges:
  assumes g: "GPDAG_of tc = Inr dag" and w: "wf_trees tc"
  shows "\<exists>d.
    rootsplits dag = RootsplitCounterOf tc \<and>
    (\<forall>p cs. (p, cs) \<in> set (PCSSCounterOf tc) \<longrightarrow> recorded d p cs) \<and>
    (\<forall>s v. fmlookup (parent_to_range d) s = Some v \<longrightarrow> s \<in> fst ` set (PCSSCounterOf tc)) \<and>
    (\<forall>n r. taxon_count dag \<le> n \<and> n < length (dag_nodes dag) \<longrightarrow>
       GetChildrenSubsplits d (GetBitset (dag_nodes dag ! n) r) True
         = Inr (map (\<lambda>c. bitset (dag_nodes dag ! c)) (leafward r (dag_nodes dag ! n)))) \<and>
    (\<forall>n. taxon_count dag \<le> n \<and> n < length (dag_nodes dag) \<longrightarrow>
       bitset (dag_nodes dag ! n) \<in> set (harvested_subsplits tc)) \<and>
    (harvest_connected tc \<longrightarrow> (\<forall>s\<in>set (harvested_subsplits tc).
       \<exists>k. taxon_count dag \<le> k \<and> k < length (dag_nodes dag) \<and> bitset (dag_nodes dag ! k) = s))"
proof -
  from g obtain d1 d2 d3 where
    s1: "ProcessTrees tc empty_GPDAG = Inr d1" and s2: "BuildNodes d1 = Inr d2" and
    s3: "BuildEdges d2 = Inr d3" and s4: "BuildPCSPIndexer d3 = Inr dag"
    by (rule GPDAG_of_steps)
  note r1 = ProcessTrees_result[OF s1]
  from r1 have nf: "node_fields d1 = (fmempty, [])" by blast
  from r1 have rs1: "rootsplits d1 = RootsplitCounterOf tc" by blast
  from r1 have ran1: "fmran' (index_to_child d1) \<subseteq> snd ` harvested tc" by blast
  note r2 = BuildNodes_result[OF s2 nf ProcessTrees_ranked[OF s1 w]]
  from r2 have wf2: "nodes_wf d2" by (simp add: build_inv_def)
  from r2 have h2: "harvest_fields d2 = harvest_fields d1" and fh2: "from_harvest d2" by blast+
  note r3 = BuildEdges_result[OF s3 wf2]
  from r3 have sk: "same_skeleton d2 d3" by blast
  from r3 have ci: "\<And>i r. taxon_count d2 \<le> i \<Longrightarrow> i < length (dag_nodes d2) \<Longrightarrow> children_indexed d2 r i"
    by blast
  from r3 have lw3: "\<And>n r. n < length (dag_nodes d2) \<Longrightarrow>
       leafward r (dag_nodes d3 ! n) = (if taxon_count d2 \<le> n then child_ids d2 r n else [])"
    by blast
  from BuildPCSPIndexer_result[OF s4] have sg: "same_graph d3 dag" by blast
  from sg have nodes: "dag_nodes dag = dag_nodes d3" by (simp add: same_graph_def)
  from sk have len: "length (dag_nodes d3) = length (dag_nodes d2)" by (simp add: same_skeleton_def)
  from sk sg h2 have T: "taxon_count dag = taxon_count d2"
    by (simp add: same_skeleton_def same_graph_def harvest_fields_def)
  from sk sg h2 rs1 have rs: "rootsplits dag = RootsplitCounterOf tc" "rootsplits d2 = RootsplitCounterOf tc"
    by (simp_all add: same_skeleton_def same_graph_def harvest_fields_def)
  from h2 have hf: "parent_to_range d2 = parent_to_range d1" "index_to_child d2 = index_to_child d1"
    by (simp_all add: harvest_fields_def)
  have b: "bitset (dag_nodes dag ! k) = bitsets d2 ! k" if "k < length (dag_nodes d2)" for k
    unfolding nodes using sk that by (simp add: same_skeleton_def nth_bitsets)
  have f2: "recorded d2 p cs" if "(p, cs) \<in> set (PCSSCounterOf tc)" for p cs
    using ProcessTrees_recorded[OF s1 that] unfolding recorded_def hf .
  have f3: "s \<in> fst ` set (PCSSCounterOf tc)" if "fmlookup (parent_to_range d2) s = Some v" for s v
    using ProcessTrees_domain[OF s1] that unfolding hf by blast
  have f4: "GetChildrenSubsplits d2 (GetBitset (dag_nodes dag ! n) r) True
         = Inr (map (\<lambda>c. bitset (dag_nodes dag ! c)) (leafward r (dag_nodes dag ! n)))"
    if n: "taxon_count dag \<le> n" "n < length (dag_nodes dag)" for n r
  proof -
    from n have n2: "taxon_count d2 \<le> n" "n < length (dag_nodes d2)"
      unfolding nodes len T by simp_all
    have gb: "GetBitset (dag_nodes dag ! n) r = GetBitset (dag_nodes d2 ! n) r"
      unfolding GetBitset_def b[OF n2(2)] nth_bitsets[OF n2(2)] ..
    from ci[OF n2, of r] obtain cs where
      gc: "GetChildrenSubsplits d2 (GetBitset (dag_nodes d2 ! n) r) True = Inr cs" and
      ix: "\<forall>cb\<in>set cs. \<exists>c. fmlookup (subsplit_to_index d2) cb = Some c \<and> c < length (dag_nodes d2)"
      unfolding children_indexed_def by blast
    from lw3[OF n2(2), of r] n2(1) gc
    have lw: "leafward r (dag_nodes dag ! n) = map (the_index d2) cs"
      unfolding nodes by (simp add: child_ids_def)
    have "bitset (dag_nodes dag ! the_index d2 cb) = cb" if "cb \<in> set cs" for cb
    proof -
      from ix that obtain c where c: "fmlookup (subsplit_to_index d2) cb = Some c"
        "c < length (dag_nodes d2)" by blast
      from c(1) wf2 have "bitsets d2 ! c = cb" by (simp add: nodes_wf_lookup)
      with c b[OF c(2)] show ?thesis by (simp add: the_index_def)
    qed
    then have "map (\<lambda>c. bitset (dag_nodes dag ! c)) (map (the_index d2) cs) = cs"
      by (simp add: map_idI)
    with gc show ?thesis unfolding gb lw by simp
  qed
  have f5: "bitset (dag_nodes dag ! n) \<in> set (harvested_subsplits tc)"
    if n: "taxon_count dag \<le> n" "n < length (dag_nodes dag)" for n
  proof -
    from n have n2: "taxon_count d2 \<le> n" "n < length (dag_nodes d2)"
      unfolding nodes len T by simp_all
    with fh2 have "bitsets d2 ! n \<in> root_subsplit ` set (rootsplits d2) \<union> fmran' (index_to_child d2)"
      unfolding from_harvest_def by blast
    then have "bitsets d2 ! n \<in> set (harvested_subsplits tc)"
    proof
      assume "bitsets d2 ! n \<in> root_subsplit ` set (rootsplits d2)"
      then show ?thesis unfolding rs(2) by (simp add: harvested_subsplits_def)
    next
      assume "bitsets d2 ! n \<in> fmran' (index_to_child d2)"
      with ran1 hf obtain p where "(p, bitsets d2 ! n) \<in> harvested tc" by auto
      then show ?thesis by (rule harvested_subsplits_children)
    qed
    with b[OF n2(2)] show ?thesis by simp
  qed
  have f6: "\<exists>k. taxon_count dag \<le> k \<and> k < length (dag_nodes dag) \<and> bitset (dag_nodes dag ! k) = s"
    if "harvest_connected tc" "s \<in> set (harvested_subsplits tc)" for s
  proof -
    from harvested_subsplit_node[OF s1 s2 w that] obtain k where
      k: "taxon_count d2 \<le> k" "k < length (dag_nodes d2)" "bitsets d2 ! k = s" by blast
    with b[OF k(2)] show ?thesis unfolding nodes len T by (intro exI[of _ k]) simp
  qed
  show ?thesis
  proof (intro exI[of _ d2] conjI allI impI ballI)
    show "rootsplits dag = RootsplitCounterOf tc" by (rule rs(1))
  next
    fix p cs assume "(p, cs) \<in> set (PCSSCounterOf tc)"
    then show "recorded d2 p cs" by (rule f2)
  next
    fix s v assume "fmlookup (parent_to_range d2) s = Some v"
    then show "s \<in> fst ` set (PCSSCounterOf tc)" by (rule f3)
  next
    fix n r assume "taxon_count dag \<le> n \<and> n < length (dag_nodes dag)"
    then show "GetChildrenSubsplits d2 (GetBitset (dag_nodes dag ! n) r) True
         = Inr (map (\<lambda>c. bitset (dag_nodes dag ! c)) (leafward r (dag_nodes dag ! n)))"
      using f4 by blast
  next
    fix n assume "taxon_count dag \<le> n \<and> n < length (dag_nodes dag)"
    then show "bitset (dag_nodes dag ! n) \<in> set (harvested_subsplits tc)"
      using f5 by blast
  next
    fix s assume "harvest_connected tc" "s \<in> set (harvested_subsplits tc)"
    then show "\<exists>k. taxon_count dag \<le> k \<and> k < length (dag_nodes dag) \<and> bitset (dag_nodes dag ! k) = s"
      by (rule f6)
  qed
qed


text \<open>
  The edges to fake leaves. A subsplit of the counters, in either orientation, that was
  not harvested as a parent, whose first clade is not empty and whose second clade is a
  single taxon, gets the fake subsplit of that taxon as its only child.
\<close>

definition fake_child :: "Bitset \<Rightarrow> Bitset" where
  "fake_child s = Bitset_plus (Bitset_zero (length s div 2)) (SplitChunk s 1)"

definition has_fake_child :: "RootedTreeCollection \<Rightarrow> Bitset \<Rightarrow> bool" where
  "has_fake_child tc s \<longleftrightarrow>
     s \<notin> fst ` set (PCSSCounterOf tc) \<and> Any (SplitChunk s 0) \<and>
     SingletonOption (SplitChunk s 1) \<noteq> None"

definition fake_leaf_keys :: "RootedTreeCollection \<Rightarrow> Bitset list" where
  "fake_leaf_keys tc =
     map (\<lambda>s. Bitset_plus s (fake_child s))
       (filter (has_fake_child tc)
          (concat (map (\<lambda>s. [s, RotateSubsplit s]) (harvested_subsplits tc))))"

lemma set_harvested_keys:
  "set (harvested_keys tc) =
     root_subsplit ` set (RootsplitCounterOf tc) \<union>
     {Bitset_plus p c | p c. (p, c) \<in> harvested tc}"
  by (auto simp: harvested_keys_def harvested_def)

lemma set_fake_leaf_keys:
  "set (fake_leaf_keys tc) =
     {Bitset_plus s (fake_child s) | s.
        (\<exists>s0\<in>set (harvested_subsplits tc). s = s0 \<or> s = RotateSubsplit s0) \<and>
        has_fake_child tc s}"
  by (auto simp: fake_leaf_keys_def)

lemma children_keys:
  assumes rec: "\<And>p cs. (p, cs) \<in> set (PCSSCounterOf tc) \<Longrightarrow> recorded d p cs"
    and dom: "\<And>s v. fmlookup (parent_to_range d) s = Some v \<Longrightarrow> s \<in> fst ` set (PCSSCounterOf tc)"
    and g: "GetChildrenSubsplits d s True = Inr cs"
  shows "set cs = {c. (s, c) \<in> harvested tc} \<union> (if has_fake_child tc s then {fake_child s} else {})"
proof (cases "s \<in> fst ` set (PCSSCounterOf tc)")
  case True
  then obtain cs0 where c0: "(s, cs0) \<in> set (PCSSCounterOf tc)" by force
  from recorded_children[OF rec[OF c0], of True] g have e: "cs0 = cs" by simp
  have "{c. (s, c) \<in> harvested tc} = set cs"
  proof (intro set_eqI iffI)
    fix c assume "c \<in> {c. (s, c) \<in> harvested tc}"
    then obtain cs1 where c1: "(s, cs1) \<in> set (PCSSCounterOf tc)" "c \<in> set cs1"
      by (auto simp: harvested_def)
    from recorded_children[OF rec[OF c1(1)], of True] g have "cs1 = cs" by simp
    with c1(2) show "c \<in> set cs" by simp
  next
    fix c assume "c \<in> set cs"
    with c0 e show "c \<in> {c. (s, c) \<in> harvested tc}" by (auto simp: harvested_def)
  qed
  with True show ?thesis by (simp add: has_fake_child_def)
next
  case False
  have n: "fmlookup (parent_to_range d) s = None"
  proof (rule ccontr)
    assume "fmlookup (parent_to_range d) s \<noteq> None"
    then obtain v where "fmlookup (parent_to_range d) s = Some v" by blast
    from dom[OF this] False show False by simp
  qed
  from False have h: "{c. (s, c) \<in> harvested tc} = {}"
    by (force simp: harvested_def)
  from g n False show ?thesis
    unfolding h by (auto simp: GetChildrenSubsplits_def has_fake_child_def fake_child_def
        split: if_splits)
qed

lemma set_node_pcsp_keys:
  "set (node_pcsp_keys dag node) =
     (\<Union>r. Bitset_plus (GetBitset node r) ` set (map (\<lambda>c. bitset (dag_nodes dag ! c)) (leafward r node)))"
proof -
  have "(\<Union>r. Bitset_plus (GetBitset node r) ` set (map (\<lambda>c. bitset (dag_nodes dag ! c)) (leafward r node)))
      = Bitset_plus (GetBitset node False) ` set (map (\<lambda>c. bitset (dag_nodes dag ! c)) (leafward False node))
        \<union> Bitset_plus (GetBitset node True) ` set (map (\<lambda>c. bitset (dag_nodes dag ! c)) (leafward True node))"
    by (auto simp: UNIV_bool)
  then show ?thesis
    by (auto simp: node_pcsp_keys_def GetBitset_def leafward_def)
qed

lemma GPDAG_of_keys:
  assumes g: "GPDAG_of tc = Inr dag" and w: "wf_trees tc" and c: "harvest_connected tc"
  shows "set (pcsp_keys dag) = set (harvested_keys tc) \<union> set (fake_leaf_keys tc)"
proof -
  let ?T = "taxon_count dag" and ?N = "length (dag_nodes dag)"
  from GPDAG_of_edges[OF g w] obtain d where
    rs: "rootsplits dag = RootsplitCounterOf tc" and
    rec0: "\<forall>p cs. (p, cs) \<in> set (PCSSCounterOf tc) \<longrightarrow> recorded d p cs" and
    dom0: "\<forall>s v. fmlookup (parent_to_range d) s = Some v \<longrightarrow> s \<in> fst ` set (PCSSCounterOf tc)" and
    ch0: "\<forall>n r. ?T \<le> n \<and> n < ?N \<longrightarrow>
       GetChildrenSubsplits d (GetBitset (dag_nodes dag ! n) r) True
         = Inr (map (\<lambda>c. bitset (dag_nodes dag ! c)) (leafward r (dag_nodes dag ! n)))" and
    hs0: "\<forall>n. ?T \<le> n \<and> n < ?N \<longrightarrow> bitset (dag_nodes dag ! n) \<in> set (harvested_subsplits tc)" and
    nd0: "harvest_connected tc \<longrightarrow> (\<forall>s\<in>set (harvested_subsplits tc).
       \<exists>k. ?T \<le> k \<and> k < ?N \<and> bitset (dag_nodes dag ! k) = s)"
    by (elim exE conjE)
  from rec0 have rec: "\<And>p cs. (p, cs) \<in> set (PCSSCounterOf tc) \<Longrightarrow> recorded d p cs" by blast
  from dom0 have dom: "\<And>s v. fmlookup (parent_to_range d) s = Some v \<Longrightarrow>
      s \<in> fst ` set (PCSSCounterOf tc)" by blast
  from ch0 have ch: "\<And>n r. ?T \<le> n \<Longrightarrow> n < ?N \<Longrightarrow>
       GetChildrenSubsplits d (GetBitset (dag_nodes dag ! n) r) True
         = Inr (map (\<lambda>c. bitset (dag_nodes dag ! c)) (leafward r (dag_nodes dag ! n)))" by blast
  from hs0 have hs: "\<And>n. ?T \<le> n \<Longrightarrow> n < ?N \<Longrightarrow>
      bitset (dag_nodes dag ! n) \<in> set (harvested_subsplits tc)" by blast
  from nd0 have nd: "\<And>s. harvest_connected tc \<Longrightarrow> s \<in> set (harvested_subsplits tc) \<Longrightarrow>
       \<exists>k. ?T \<le> k \<and> k < ?N \<and> bitset (dag_nodes dag ! k) = s" by blast
  text \<open>The keys of the children of a non-fake node in one class.\<close>
  have ck: "set (map (\<lambda>c. bitset (dag_nodes dag ! c)) (leafward r (dag_nodes dag ! n)))
      = {c. (GetBitset (dag_nodes dag ! n) r, c) \<in> harvested tc} \<union>
        (if has_fake_child tc (GetBitset (dag_nodes dag ! n) r)
         then {fake_child (GetBitset (dag_nodes dag ! n) r)} else {})"
    if "?T \<le> n" "n < ?N" for n r
    by (rule children_keys[OF rec dom ch[OF that]])
  text \<open>Every orientation of a subsplit of the counters is the bitset of a class of a node.\<close>
  have side: "\<exists>n r. ?T \<le> n \<and> n < ?N \<and> GetBitset (dag_nodes dag ! n) r = s"
    if "s0 \<in> set (harvested_subsplits tc)" "s = s0 \<or> s = RotateSubsplit s0" for s s0
  proof -
    from nd[OF c that(1)] obtain k where
      k: "?T \<le> k" "k < ?N" "bitset (dag_nodes dag ! k) = s0" by blast
    from that(2) k(3) have "GetBitset (dag_nodes dag ! k) False = s \<or>
        GetBitset (dag_nodes dag ! k) True = s" by (auto simp: GetBitset_def)
    with k show ?thesis by blast
  qed
  have mem: "x \<in> set (pcsp_keys dag) \<longleftrightarrow>
      x \<in> root_subsplit ` set (RootsplitCounterOf tc) \<or>
      (\<exists>n r. ?T \<le> n \<and> n < ?N \<and>
         x \<in> Bitset_plus (GetBitset (dag_nodes dag ! n) r) `
               set (map (\<lambda>c. bitset (dag_nodes dag ! c)) (leafward r (dag_nodes dag ! n))))" for x
  proof
    assume "x \<in> set (pcsp_keys dag)"
    then have "x \<in> root_subsplit ` set (rootsplits dag) \<or>
        (\<exists>node\<in>set (drop ?T (dag_nodes dag)). x \<in> set (node_pcsp_keys dag node))"
      by (auto simp: pcsp_keys_def)
    then show "x \<in> root_subsplit ` set (RootsplitCounterOf tc) \<or>
      (\<exists>n r. ?T \<le> n \<and> n < ?N \<and>
         x \<in> Bitset_plus (GetBitset (dag_nodes dag ! n) r) `
               set (map (\<lambda>c. bitset (dag_nodes dag ! c)) (leafward r (dag_nodes dag ! n))))"
    proof
      assume "x \<in> root_subsplit ` set (rootsplits dag)"
      then show ?thesis unfolding rs by blast
    next
      assume "\<exists>node\<in>set (drop ?T (dag_nodes dag)). x \<in> set (node_pcsp_keys dag node)"
      then obtain node where nd1: "node \<in> set (drop ?T (dag_nodes dag))"
        "x \<in> set (node_pcsp_keys dag node)" by blast
      from nd1(1) obtain i where i0: "i < ?N - ?T" "node = dag_nodes dag ! (?T + i)"
        by (auto simp: in_set_conv_nth)
      with nd1(2) have i: "i < ?N - ?T" "x \<in> set (node_pcsp_keys dag (dag_nodes dag ! (?T + i)))"
        by simp_all
      from i(2) obtain r where "x \<in> Bitset_plus (GetBitset (dag_nodes dag ! (?T + i)) r) `
          set (map (\<lambda>c. bitset (dag_nodes dag ! c)) (leafward r (dag_nodes dag ! (?T + i))))"
        unfolding set_node_pcsp_keys by blast
      with i(1) show ?thesis by (intro disjI2 exI[of _ "?T + i"] exI[of _ r]) simp
    qed
  next
    assume "x \<in> root_subsplit ` set (RootsplitCounterOf tc) \<or>
      (\<exists>n r. ?T \<le> n \<and> n < ?N \<and>
         x \<in> Bitset_plus (GetBitset (dag_nodes dag ! n) r) `
               set (map (\<lambda>c. bitset (dag_nodes dag ! c)) (leafward r (dag_nodes dag ! n))))"
    then show "x \<in> set (pcsp_keys dag)"
    proof
      assume "x \<in> root_subsplit ` set (RootsplitCounterOf tc)"
      then show ?thesis unfolding rs[symmetric] by (simp add: pcsp_keys_def)
    next
      assume "\<exists>n r. ?T \<le> n \<and> n < ?N \<and>
         x \<in> Bitset_plus (GetBitset (dag_nodes dag ! n) r) `
               set (map (\<lambda>c. bitset (dag_nodes dag ! c)) (leafward r (dag_nodes dag ! n)))"
      then obtain n r where n: "?T \<le> n" "n < ?N" and
        x: "x \<in> Bitset_plus (GetBitset (dag_nodes dag ! n) r) `
               set (map (\<lambda>c. bitset (dag_nodes dag ! c)) (leafward r (dag_nodes dag ! n)))"
        by blast
      from x have "x \<in> set (node_pcsp_keys dag (dag_nodes dag ! n))"
        unfolding set_node_pcsp_keys by blast
      moreover from n have "dag_nodes dag ! n \<in> set (drop ?T (dag_nodes dag))"
        by (auto simp: in_set_conv_nth intro!: exI[of _ "n - ?T"])
      ultimately show ?thesis by (auto simp: pcsp_keys_def)
    qed
  qed
  show ?thesis
  proof (intro set_eqI iffI)
    fix x assume "x \<in> set (pcsp_keys dag)"
    then have "x \<in> root_subsplit ` set (RootsplitCounterOf tc) \<or>
      (\<exists>n r. ?T \<le> n \<and> n < ?N \<and>
         x \<in> Bitset_plus (GetBitset (dag_nodes dag ! n) r) `
               set (map (\<lambda>c. bitset (dag_nodes dag ! c)) (leafward r (dag_nodes dag ! n))))"
      unfolding mem .
    then show "x \<in> set (harvested_keys tc) \<union> set (fake_leaf_keys tc)"
    proof
      assume "x \<in> root_subsplit ` set (RootsplitCounterOf tc)"
      then show ?thesis unfolding set_harvested_keys by blast
    next
      assume "\<exists>n r. ?T \<le> n \<and> n < ?N \<and>
         x \<in> Bitset_plus (GetBitset (dag_nodes dag ! n) r) `
               set (map (\<lambda>c. bitset (dag_nodes dag ! c)) (leafward r (dag_nodes dag ! n)))"
      then obtain n r cb where n: "?T \<le> n" "n < ?N" and
        cb: "cb \<in> set (map (\<lambda>c. bitset (dag_nodes dag ! c)) (leafward r (dag_nodes dag ! n)))" and
        x: "x = Bitset_plus (GetBitset (dag_nodes dag ! n) r) cb"
        by blast
      let ?s = "GetBitset (dag_nodes dag ! n) r"
      from cb ck[OF n, of r] have "(?s, cb) \<in> harvested tc \<or>
          (has_fake_child tc ?s \<and> cb = fake_child ?s)"
        by (auto split: if_splits)
      then show ?thesis
      proof
        assume "(?s, cb) \<in> harvested tc"
        with x show ?thesis unfolding set_harvested_keys by blast
      next
        assume f: "has_fake_child tc ?s \<and> cb = fake_child ?s"
        have "?s = bitset (dag_nodes dag ! n) \<or> ?s = RotateSubsplit (bitset (dag_nodes dag ! n))"
          by (simp add: GetBitset_def)
        with hs[OF n] f x show ?thesis unfolding set_fake_leaf_keys by blast
      qed
    qed
  next
    fix x assume "x \<in> set (harvested_keys tc) \<union> set (fake_leaf_keys tc)"
    then consider
      (root) "x \<in> root_subsplit ` set (RootsplitCounterOf tc)" |
      (harv) p cs cb where "(p, cs) \<in> set (PCSSCounterOf tc)" "cb \<in> set cs" "x = Bitset_plus p cb" |
      (fake) s s0 where "s0 \<in> set (harvested_subsplits tc)" "s = s0 \<or> s = RotateSubsplit s0"
        "has_fake_child tc s" "x = Bitset_plus s (fake_child s)"
      unfolding set_harvested_keys set_fake_leaf_keys harvested_def by blast
    then show "x \<in> set (pcsp_keys dag)"
    proof cases
      case root
      then show ?thesis unfolding mem by blast
    next
      case harv
      note pc = harv(1,2) and x = harv(3)
      from pc have "cs \<noteq> []" by auto
      with c pc(1) obtain s0 where "s0 \<in> set (harvested_subsplits tc)" "p = s0 \<or> p = RotateSubsplit s0"
        unfolding harvest_connected_def by blast
      from side[OF this] obtain n r where n: "?T \<le> n" "n < ?N" and
        e: "GetBitset (dag_nodes dag ! n) r = p" by blast
      from pc have "(p, cb) \<in> harvested tc" by (auto simp: harvested_def)
      with ck[OF n, of r] e
      have "cb \<in> set (map (\<lambda>c. bitset (dag_nodes dag ! c)) (leafward r (dag_nodes dag ! n)))"
        by simp
      with n e x show ?thesis unfolding mem by blast
    next
      case fake
      note f = fake(3) and x = fake(4)
      from side[OF fake(1,2)] obtain n r where n: "?T \<le> n" "n < ?N" and
        e: "GetBitset (dag_nodes dag ! n) r = s" by blast
      from ck[OF n, of r] e f
      have "fake_child s \<in> set (map (\<lambda>c. bitset (dag_nodes dag ! c)) (leafward r (dag_nodes dag ! n)))"
        by simp
      with n e x show ?thesis unfolding mem by blast
    qed
  qed
qed


text \<open>
  Claim C2, as amended. After the construction from a well-formed tree collection,
  \<open>gpcsp_indexer_\<close> is a bijection between the set of the root subsplits, the harvested
  PCSPs and the PCSPs of the edges to fake leaves, and the dense range \<open>[0, P)\<close>, where \<open>P\<close>
  is the number of these keys: it is defined on exactly these keys, injective, and the
  indices it assigns are exactly \<open>0, ..., P - 1\<close>.
\<close>

theorem gpcsp_indexer_bijection:
  assumes "GPDAG_of tree_collection = Inr dag" and "wf_trees tree_collection"
    and "harvest_connected tree_collection"
  shows "fmdom' (gpcsp_indexer dag)
           = set (harvested_keys tree_collection) \<union> set (fake_leaf_keys tree_collection) \<and>
         bij_betw (\<lambda>k. the (fmlookup (gpcsp_indexer dag) k))
           (set (harvested_keys tree_collection) \<union> set (fake_leaf_keys tree_collection))
           {0..<card (set (harvested_keys tree_collection) \<union> set (fake_leaf_keys tree_collection))}"
proof -
  let ?K = "set (harvested_keys tree_collection) \<union> set (fake_leaf_keys tree_collection)"
  from GPDAG_of_indexer[OF assms(1)]
  have a: "appended fmempty 0 (pcsp_keys dag) (gpcsp_indexer dag)" by simp
  from GPDAG_of_keys[OF assms] have k: "set (pcsp_keys dag) = ?K" .
  from appended_dom[OF a] k have d: "fmdom' (gpcsp_indexer dag) = ?K" by simp
  from a have "distinct (pcsp_keys dag)" by (simp add: appended_def)
  then have "card (set (pcsp_keys dag)) = length (pcsp_keys dag)" by (rule distinct_card)
  with k have c: "length (pcsp_keys dag) = card ?K" by simp
  from appended_bij[OF a] show ?thesis unfolding d c using d by simp
qed

lemma example_trees_connected: "harvest_connected example_trees"
  unfolding harvest_connected_def by code_simp

lemma example_key_count:
  "card (set (harvested_keys example_trees) \<union> set (fake_leaf_keys example_trees)) = 10"
  by code_simp

lemma example_fake_leaf_keys:
  "Bitset_plus (bitset (dag_nodes example_dag ! 3)) (bitset (dag_nodes example_dag ! 0))
     \<in> set (fake_leaf_keys example_trees)"
  "length (harvested_keys example_trees) = 4"
  "length (fake_leaf_keys example_trees) = 6"
  by code_simp+

theorem gpcsp_indexer_bijection_witness:
  "GPDAG_of example_trees = Inr example_dag \<and> wf_trees example_trees \<and>
   harvest_connected example_trees \<and>
   length (harvested_keys example_trees) = 4 \<and> length (fake_leaf_keys example_trees) = 6 \<and>
   fmdom' (gpcsp_indexer example_dag)
     = set (harvested_keys example_trees) \<union> set (fake_leaf_keys example_trees) \<and>
   bij_betw (\<lambda>k. the (fmlookup (gpcsp_indexer example_dag) k))
     (set (harvested_keys example_trees) \<union> set (fake_leaf_keys example_trees)) {0..<10}"
  using gpcsp_indexer_bijection [OF example_dag_built example_trees_wf example_trees_connected]
    example_dag_built example_trees_wf example_trees_connected example_key_count
    example_fake_leaf_keys(2,3)
  by simp

text \<open>
  Claim C2 as stated fails: in the example the indexer gives index 2 to the PCSP of the
  edge from node 3 to the fake leaf 0, which is neither a root subsplit nor a harvested
  PCSP; there are 4 rootsplits and harvested PCSPs, and 10 indices.
\<close>

theorem gpcsp_indexer_fake_edge_counterexample:
  "GPDAG_of example_trees = Inr example_dag \<and>
   fmlookup (gpcsp_indexer example_dag)
     (Bitset_plus (bitset (dag_nodes example_dag ! 3)) (bitset (dag_nodes example_dag ! 0)))
     = Some 2 \<and>
   Bitset_plus (bitset (dag_nodes example_dag ! 3)) (bitset (dag_nodes example_dag ! 0))
     \<notin> set (harvested_keys example_trees) \<and>
   length (harvested_keys example_trees) = 4 \<and>
   rootsplit_and_pcsp_count example_dag = 4 \<and>
   length (pcsp_keys example_dag) = 10"
  by (intro conjI; code_simp)


section \<open>The order of the leafward pass\<close>



















end
